(* ===== verification/Prelude.thy ===== *)
theory Prelude
  imports Main "HOL-Library.Word"
begin

text \<open>
  What the component theories share: the machine types of the program, the two result types
  (an operation that may throw or hit a failed \<open>assert\<close>, and a JSON handler's answer), byte
  classification, substring search, decimal printing of naturals, and the facts about them.
  Bytes are HOL characters; C++ \<open>char\<close> is signed on the platform of the project, which the
  definitions that compare characters say where it matters.
\<close>

section \<open>Types and fact collections\<close>

type_synonym i32 = "32 word"
type_synonym i64 = "64 word"
type_synonym bytes = string

text \<open>Equations that drive a run of the code on a known input, and facts that shorten inputs.\<close>

named_theorems run_simps
named_theorems length_facts

section \<open>Results\<close>

text \<open>
  \<open>Throw\<close> is a C++ exception leaving the operation, \<open>Abort\<close> a failed \<open>assert\<close> (the build
  sets no \<open>NDEBUG\<close>, so asserts are live and end the process).
\<close>

datatype ('e, 'a) outcome = Done 'a | Throw 'e | Abort

fun obind :: "('e, 'a) outcome \<Rightarrow> ('a \<Rightarrow> ('e, 'b) outcome) \<Rightarrow> ('e, 'b) outcome" where
  "obind (Done x) f = f x"
| "obind (Throw e) f = Throw e"
| "obind Abort f = Abort"

text \<open>\<open>require b k\<close> is \<open>assert(b); k\<close>.\<close>

definition require :: "bool \<Rightarrow> ('e, 'a) outcome \<Rightarrow> ('e, 'a) outcome" where
  "require b k = (if b then k else Abort)"

lemma require_True [simp]: "require True k = k"
  and require_False [simp]: "require False k = Abort"
  by (simp_all add: require_def)

lemma obind_Done_iff [simp]:
  "obind m f = Done y \<longleftrightarrow> (\<exists>x. m = Done x \<and> f x = Done y)"
  by (cases m) auto

lemma obind_assoc: "obind (obind m f) g = obind m (\<lambda>x. obind (f x) g)"
  by (cases m) auto

section \<open>Bytes\<close>

abbreviation (input) nul_char :: char where "nul_char \<equiv> CHR 0x00"
abbreviation (input) tab_char :: char where "tab_char \<equiv> CHR 0x09"
abbreviation (input) lf_char :: char where "lf_char \<equiv> CHR 0x0A"
abbreviation (input) cr_char :: char where "cr_char \<equiv> CHR 0x0D"
abbreviation (input) quote_char :: char where "quote_char \<equiv> CHR 0x22"
abbreviation (input) backslash_char :: char where "backslash_char \<equiv> CHR 0x5C"

definition byte_of :: "char \<Rightarrow> nat" where
  "byte_of c = of_char c"

lemma byte_of_lt: "byte_of c < 256"
  using of_char_of [where 'a = nat] by (simp add: byte_of_def nat_of_char_less_256)

lemma char_of_byte_of [simp]: "char_of (byte_of c) = c"
  by (simp add: byte_of_def)

lemma byte_of_char_of: "n < 256 \<Longrightarrow> byte_of (char_of n) = n"
  by (simp add: byte_of_def)

lemma byte_of_inj: "byte_of c = byte_of d \<longleftrightarrow> c = d"
  by (metis char_of_byte_of)

definition is_digit :: "char \<Rightarrow> bool" where
  "is_digit c \<longleftrightarrow> 48 \<le> byte_of c \<and> byte_of c \<le> 57"

definition digit_val :: "char \<Rightarrow> nat" where
  "digit_val c = byte_of c - 48"

definition digit_char :: "nat \<Rightarrow> char" where
  "digit_char d = char_of (48 + d)"

lemma digit_char_eval [run_simps]:
  "digit_char 0 = CHR ''0''" "digit_char 1 = CHR ''1''" "digit_char (Suc 0) = CHR ''1''"
  "digit_char 2 = CHR ''2''" "digit_char 3 = CHR ''3''" "digit_char 4 = CHR ''4''"
  "digit_char 5 = CHR ''5''" "digit_char 6 = CHR ''6''" "digit_char 7 = CHR ''7''"
  "digit_char 8 = CHR ''8''" "digit_char 9 = CHR ''9''"
  by (simp_all add: digit_char_def char_of_eq_iff)

lemma digit_char_props:
  "d < 10 \<Longrightarrow> is_digit (digit_char d)"
  "d < 10 \<Longrightarrow> digit_val (digit_char d) = d"
  "d < 10 \<Longrightarrow> byte_of (digit_char d) = 48 + d"
  by (simp_all add: is_digit_def digit_val_def digit_char_def byte_of_char_of)

lemma digit_char_inverse: "is_digit c \<Longrightarrow> digit_char (digit_val c) = c"
  by (simp add: is_digit_def digit_val_def digit_char_def)

lemma digit_val_lt: "is_digit c \<Longrightarrow> digit_val c < 10"
  by (auto simp: is_digit_def digit_val_def)

section \<open>Decimal numerals\<close>

text \<open>The decimal digits of a natural, as \<open>std::to_string\<close> and \<open>printf("%u")\<close> print it.\<close>

fun dec :: "nat \<Rightarrow> string" where
  "dec n = (if n < 10 then [digit_char n] else dec (n div 10) @ [digit_char (n mod 10)])"

declare dec.simps [simp del]

fun undec_acc :: "nat \<Rightarrow> string \<Rightarrow> nat" where
  "undec_acc a [] = a"
| "undec_acc a (c # cs) = undec_acc (10 * a + digit_val c) cs"

definition undec :: "string \<Rightarrow> nat" where
  "undec = undec_acc 0"

lemma undec_acc_append: "undec_acc a (xs @ ys) = undec_acc (undec_acc a xs) ys"
  by (induction xs arbitrary: a) auto

lemma dec_induct_cases:
  "n < 10 \<Longrightarrow> dec n = [digit_char n]"
  "\<not> n < 10 \<Longrightarrow> dec n = dec (n div 10) @ [digit_char (n mod 10)]"
  by (subst dec.simps, simp)+

lemma dec_eval [run_simps]:
  "dec 0 = ''0''" "dec 1 = ''1''" "dec (Suc 0) = ''1''"
  "dec (numeral k) =
     (if numeral k < (10::nat) then [digit_char (numeral k)]
      else dec (numeral k div 10) @ [digit_char (numeral k mod 10)])"
  by (subst dec.simps, simp add: digit_char_eval)+

lemma undec_dec [simp]: "undec (dec n) = n"
proof (induction n rule: dec.induct)
  case (1 n)
  show ?case
    by (cases "n < 10")
      (use "1.IH" in \<open>simp_all add: dec_induct_cases undec_def undec_acc_append digit_char_props\<close>)
qed

lemma dec_digits: "c \<in> set (dec n) \<Longrightarrow> is_digit c"
proof (induction n rule: dec.induct)
  case (1 n)
  then show ?case
    by (cases "n < 10") (auto simp: dec_induct_cases digit_char_props)
qed

lemma dec_not_Nil [simp]: "dec n \<noteq> []"
  by (subst dec.simps) simp

lemma dec_inject: "dec m = dec n \<longleftrightarrow> m = n"
  by (metis undec_dec)

text \<open>No leading zero: the first digit is \<open>0\<close> only for the number 0.\<close>

lemma hd_dec_zero: "hd (dec n) = CHR ''0'' \<longleftrightarrow> n = 0"
proof (induction n rule: dec.induct)
  case (1 n)
  show ?case
  proof (cases "n < 10")
    case True
    then have "byte_of (digit_char n) = 48 + n"
      by (simp add: digit_char_props)
    moreover have "byte_of CHR ''0'' = 48"
      by (simp add: byte_of_def)
    ultimately show ?thesis
      using True by (metis add.right_neutral add_left_cancel byte_of_inj dec_induct_cases(1) list.sel(1))
  next
    case False
    with "1.IH" show ?thesis
      by (simp add: dec_induct_cases)
  qed
qed

lemma length_dec_le: "n < 10 ^ k \<Longrightarrow> 0 < k \<Longrightarrow> length (dec n) \<le> k"
proof (induction n arbitrary: k rule: dec.induct)
  case (1 n)
  show ?case
  proof (cases "n < 10")
    case True
    with "1.prems" show ?thesis
      by (simp add: dec_induct_cases)
  next
    case False
    from False "1.prems" obtain j where k: "k = Suc j" "0 < j"
      by (metis One_nat_def Suc_pred gr0I power_one_right)
    with "1.prems" have "n div 10 < 10 ^ j"
      by (simp add: less_mult_imp_div_less mult.commute)
    with "1.IH" False k show ?thesis
      by (simp add: dec_induct_cases)
  qed
qed

section \<open>Lists\<close>

text \<open>\<open>std::find_if\<close> over a prefix: the elements before the first one that fails the test.\<close>

lemma span_append_stop:
  assumes "\<forall>x\<in>set xs. P x" and "ys = [] \<or> \<not> P (hd ys)"
  shows "takeWhile P (xs @ ys) = xs" and "dropWhile P (xs @ ys) = ys"
  using assms by (induction xs) (auto simp: neq_Nil_conv takeWhile_eq_Nil_iff dropWhile_eq_self_iff)

text \<open>\<open>std::search\<close>: the offset of the first occurrence of \<open>pat\<close>, if there is one.\<close>

fun find_sub :: "'a list \<Rightarrow> 'a list \<Rightarrow> nat option" where
  "find_sub pat [] = (if pat = [] then Some 0 else None)"
| "find_sub pat (x # xs) =
     (if take (length pat) (x # xs) = pat then Some 0 else map_option Suc (find_sub pat xs))"

lemma find_sub_Some:
  "find_sub pat xs = Some i \<Longrightarrow> i + length pat \<le> length xs \<and> take (length pat) (drop i xs) = pat"
proof (induction xs arbitrary: i)
  case (Cons x xs)
  show ?case
  proof (cases "take (length pat) (x # xs) = pat")
    case True
    with Cons.prems have "i = 0" by simp
    moreover from True have "length pat \<le> length (x # xs)"
      by (metis length_take min.bounded_iff order_refl)
    ultimately show ?thesis
      using True by simp
  next
    case False
    with Cons.prems obtain j where "find_sub pat xs = Some j" "i = Suc j"
      by auto
    with Cons.IH show ?thesis by simp
  qed
qed (auto split: if_splits)

lemma find_sub_first:
  "find_sub pat xs = Some i \<Longrightarrow> j < i \<Longrightarrow> take (length pat) (drop j xs) \<noteq> pat"
proof (induction xs arbitrary: i j)
  case (Cons x xs)
  show ?case
  proof (cases "take (length pat) (x # xs) = pat")
    case True
    with Cons.prems show ?thesis by simp
  next
    case False
    with Cons.prems obtain i' where i': "find_sub pat xs = Some i'" "i = Suc i'"
      by auto
    show ?thesis
    proof (cases j)
      case 0
      with False show ?thesis by simp
    next
      case (Suc k)
      with Cons.IH [OF i'(1), of k] Cons.prems(2) i'(2) show ?thesis by simp
    qed
  qed
qed (auto split: if_splits)

lemma find_sub_None:
  "find_sub pat xs = None \<Longrightarrow> j \<le> length xs \<Longrightarrow> take (length pat) (drop j xs) \<noteq> pat"
proof (induction xs arbitrary: j)
  case (Cons x xs)
  show ?case
  proof (cases j)
    case 0
    with Cons.prems show ?thesis by (auto split: if_splits)
  next
    case (Suc k)
    with Cons show ?thesis by (auto split: if_splits)
  qed
qed (auto split: if_splits)

end
