(* ===== verification/JsonDouble.thy ===== *)
theory JsonDouble
  imports Prelude
begin

text \<open>
  The \<open>double\<close> of the program: IEEE 754 binary64 as sign, significand and exponent, with
  the three library routines the JSON code and the log stream call on it: the \<open>strtod\<close>
  behind \<open>__gnu_cxx::__stoa\<close> in \<open>Reader::parseNumber\<close> (round to nearest, ties to even;
  \<open>ERANGE\<close> on overflow and on an inexact result below the normal range, as glibc sets it),
  \<open>printf\<close>'s \<open>%.<p>g\<close>, and the conversion to \<open>int64_t\<close>. All are computable on naturals.
\<close>

section \<open>Values\<close>

text \<open>\<open>DFin s m e\<close> is \<open>(-1)^s * m * 2^e\<close>.\<close>

datatype double = DNaN | DInf bool | DFin bool nat int

fun canonical :: "double \<Rightarrow> bool" where
  "canonical (DFin s m e) \<longleftrightarrow>
     m < 2 ^ 53 \<and> - 1074 \<le> e \<and> e \<le> 971 \<and> (2 ^ 52 \<le> m \<or> e = - 1074)"
| "canonical _ \<longleftrightarrow> True"

fun isinf :: "double \<Rightarrow> bool" where
  "isinf (DInf _) = True"
| "isinf _ = False"

fun isnan :: "double \<Rightarrow> bool" where
  "isnan DNaN = True"
| "isnan _ = False"

fun neg_double :: "double \<Rightarrow> double" where
  "neg_double DNaN = DNaN"
| "neg_double (DInf s) = DInf (\<not> s)"
| "neg_double (DFin s m e) = DFin (\<not> s) m e"

section \<open>Rounding\<close>

fun bitlen :: "nat \<Rightarrow> nat" where
  "bitlen n = (if n = 0 then 0 else Suc (bitlen (n div 2)))"

declare bitlen.simps [simp del]

lemma bitlen_bounds: "0 < n \<Longrightarrow> 2 ^ (bitlen n - 1) \<le> n \<and> n < 2 ^ bitlen n"
proof (induction n rule: bitlen.induct)
  case (1 n)
  show ?case
  proof (cases "n div 2 = 0")
    case True
    with "1.prems" have "n = 1" by linarith
    then show ?thesis by (simp add: bitlen.simps)
  next
    case False
    with "1.IH" "1.prems"
    have ih: "2 ^ (bitlen (n div 2) - 1) \<le> n div 2" "n div 2 < 2 ^ bitlen (n div 2)"
      by auto
    have pos: "0 < bitlen (n div 2)"
      using False by (subst bitlen.simps) simp
    have "bitlen n = Suc (bitlen (n div 2))"
      using "1.prems" by (subst bitlen.simps) simp
    moreover have "(2::nat) ^ bitlen (n div 2) = 2 * 2 ^ (bitlen (n div 2) - 1)"
      using pos by (metis One_nat_def Suc_pred power_Suc)
    ultimately show ?thesis
      using ih by simp linarith
  qed
qed

text \<open>Evaluation on numerals, one binary digit at a time.\<close>

lemma bitlen_eval [run_simps]:
  "bitlen 0 = 0" "bitlen 1 = 1" "bitlen (Suc 0) = 1"
  "bitlen (numeral (num.Bit0 k)) = Suc (bitlen (numeral k))"
  "bitlen (numeral (num.Bit1 k)) = Suc (bitlen (numeral k))"
proof -
  show "bitlen 0 = 0" "bitlen 1 = 1" "bitlen (Suc 0) = 1"
    by (simp_all add: bitlen.simps)
  have "numeral (num.Bit0 k) div 2 = (numeral k :: nat)" "numeral (num.Bit1 k) div 2 = (numeral k :: nat)"
    by simp_all
  then show "bitlen (numeral (num.Bit0 k)) = Suc (bitlen (numeral k))"
    "bitlen (numeral (num.Bit1 k)) = Suc (bitlen (numeral k))"
    by (subst bitlen.simps, simp)+
qed

text \<open>Quotient rounded to nearest, ties to even.\<close>

definition div_round :: "nat \<Rightarrow> nat \<Rightarrow> nat" where
  "div_round n d =
     (let q = n div d; r = n mod d
      in if d < 2 * r \<or> (d = 2 * r \<and> odd q) then Suc q else q)"

text \<open>The error of \<^const>\<open>div_round\<close> is at most half a unit.\<close>

lemma div_round_error:
  assumes "0 < d"
  shows "2 * \<bar>int (div_round n d) * int d - int n\<bar> \<le> int d"
proof -
  have n: "int n = int (n div d) * int d + int (n mod d)"
    by (metis div_mult_mod_eq of_nat_add of_nat_mult)
  have "n mod d < d"
    using assms by simp
  then show ?thesis
    unfolding div_round_def Let_def using n by (auto simp: algebra_simps)
qed

text \<open>\<open>n / d\<close> scaled by \<open>2^e\<close>: numerator and denominator of \<open>(n / d) / 2^e\<close>.\<close>

definition scale2 :: "nat \<Rightarrow> nat \<Rightarrow> int \<Rightarrow> nat \<times> nat" where
  "scale2 n d e = (n * 2 ^ nat (- e), d * 2 ^ nat e)"

definition floor_log2 :: "nat \<Rightarrow> nat \<Rightarrow> int" where
  "floor_log2 n d =
     (let k = int (bitlen n) - int (bitlen d); (n', d') = scale2 n d k
      in if n' < d' then k - 1 else k)"

text \<open>The magnitude nearest to \<open>n / d\<close> (both positive), with the two conditions glibc
  reports as \<open>ERANGE\<close>: overflow, and an inexact result below the normal range.\<close>

definition round_ratio :: "bool \<Rightarrow> nat \<Rightarrow> nat \<Rightarrow> double \<times> bool" where
  "round_ratio s n d =
     (if n = 0 then (DFin s 0 (- 1074), False)
      else let e = max (floor_log2 n d - 52) (- 1074);
               (n', d') = scale2 n d e;
               m = div_round n' d';
               inexact = (n' mod d' \<noteq> 0);
               (m', e') = (if m = 2 ^ 53 then (2 ^ 52, e + 1) else (m, e))
           in if 971 < e' then (DInf s, True)
              else (DFin s m' e', inexact \<and> m' < 2 ^ 52))"

section \<open>strtod on a decimal lexeme\<close>

text \<open>
  The lexemes the reader passes are an optional minus, digits, an optional fraction and an
  optional exponent. The value is \<open>digits * 10^exp10\<close>.
\<close>

definition signed_dec :: "string \<Rightarrow> int" where
  "signed_dec cs =
     (case cs of
        [] \<Rightarrow> 0
      | c # cs' \<Rightarrow> if c = CHR ''-'' then - int (undec cs')
                 else if c = CHR ''+'' then int (undec cs')
                 else int (undec cs))"

definition decimal_parts :: "string \<Rightarrow> bool \<times> nat \<times> int" where
  "decimal_parts cs =
     (let neg = (cs \<noteq> [] \<and> hd cs = CHR ''-'');
          body = (if neg then tl cs else cs);
          mant = takeWhile (\<lambda>c. c \<noteq> CHR ''e'' \<and> c \<noteq> CHR ''E'') body;
          ex = drop (Suc (length mant)) body;
          ip = takeWhile (\<lambda>c. c \<noteq> CHR ''.'') mant;
          fp = drop (Suc (length ip)) mant
      in (neg, undec (ip @ fp), signed_dec ex - int (length fp)))"

definition ratio10 :: "nat \<Rightarrow> int \<Rightarrow> nat \<times> nat" where
  "ratio10 n e = (n * 10 ^ nat e, 10 ^ nat (- e))"

definition strtod :: "string \<Rightarrow> double \<times> bool" where
  "strtod cs =
     (let (neg, digits, e10) = decimal_parts cs; (n, d) = ratio10 digits e10
      in round_ratio neg n d)"

section \<open>printf with %g\<close>

text \<open>The ratio of a finite magnitude.\<close>

definition ratio2 :: "nat \<Rightarrow> int \<Rightarrow> nat \<times> nat" where
  "ratio2 m e = (m * 2 ^ nat e, 2 ^ nat (- e))"

definition floor_log10 :: "nat \<Rightarrow> nat \<Rightarrow> int" where
  "floor_log10 n d =
     (let k = int (length (dec n)) - int (length (dec d))
      in if n * 10 ^ nat (- k) < d * 10 ^ nat k then k - 1 else k)"

text \<open>\<open>p\<close> significant digits, correctly rounded, and the decimal exponent of the first.\<close>

definition sig_digits :: "nat \<Rightarrow> nat \<Rightarrow> nat \<Rightarrow> nat \<times> int" where
  "sig_digits p n d =
     (let x = floor_log10 n d;
          sh = int p - 1 - x;
          q = div_round (n * 10 ^ nat sh) (d * 10 ^ nat (- sh))
      in if q = 10 ^ p then (10 ^ (p - 1), x + 1) else (q, x))"

definition strip_zeros :: "string \<Rightarrow> string" where
  "strip_zeros cs = rev (dropWhile (\<lambda>c. c = CHR ''0'') (rev cs))"

definition with_fraction :: "string \<Rightarrow> string \<Rightarrow> string" where
  "with_fraction ip fp = (let f = strip_zeros fp in if f = [] then ip else ip @ ''.'' @ f)"

definition exp_part :: "int \<Rightarrow> string" where
  "exp_part x =
     (let a = dec (nat \<bar>x\<bar>)
      in ''e'' @ (if x < 0 then ''-'' else ''+'') @ (if length a < 2 then ''0'' @ a else a))"

definition fmt_g :: "nat \<Rightarrow> double \<Rightarrow> string" where
  "fmt_g p v =
     (case v of
        DNaN \<Rightarrow> ''nan''
      | DInf s \<Rightarrow> (if s then ''-inf'' else ''inf'')
      | DFin s m e \<Rightarrow>
          (if s then ''-'' else '''') @
          (if m = 0 then ''0''
           else let (n, d) = ratio2 m e; (q, x) = sig_digits p n d; ds = dec q
                in if - 4 \<le> x \<and> x < int p
                   then if 0 \<le> x
                        then with_fraction (take (nat x + 1) ds) (drop (nat x + 1) ds)
                        else with_fraction ''0'' (replicate (nat (- x) - 1) (CHR ''0'') @ ds)
                   else with_fraction (take 1 ds) (drop 1 ds) @ exp_part x))"

section \<open>Product and truncation\<close>

fun double_mul :: "double \<Rightarrow> double \<Rightarrow> double" where
  "double_mul (DFin s m e) (DFin s' m' e') =
     (let (n, d) = ratio2 (m * m') (e + e') in fst (round_ratio (s \<noteq> s') n d))"
| "double_mul (DInf s) (DInf s') = DInf (s \<noteq> s')"
| "double_mul (DInf s) (DFin s' m e) = (if m = 0 then DNaN else DInf (s \<noteq> s'))"
| "double_mul (DFin s m e) (DInf s') = (if m = 0 then DNaN else DInf (s \<noteq> s'))"
| "double_mul _ _ = DNaN"

definition double_of_int :: "int \<Rightarrow> double" where
  "double_of_int i = fst (round_ratio (i < 0) (nat \<bar>i\<bar>) 1)"

text \<open>\<open>static_cast<int64_t>\<close>: the integer part; None where C++ leaves it undefined.\<close>

fun double_to_int64 :: "double \<Rightarrow> i64 option" where
  "double_to_int64 (DFin s m e) =
     (let (n, d) = ratio2 m e; a = int (n div d); i = (if s then - a else a)
      in if - (2 ^ 63) \<le> i \<and> i < 2 ^ 63 then Some (word_of_int i) else None)"
| "double_to_int64 _ = None"

fun double_gt0 :: "double \<Rightarrow> bool" where
  "double_gt0 (DFin s m e) \<longleftrightarrow> \<not> s \<and> m \<noteq> 0"
| "double_gt0 (DInf s) \<longleftrightarrow> \<not> s"
| "double_gt0 DNaN \<longleftrightarrow> False"

section \<open>Evaluation in steps\<close>

lemma strtod_by:
  "decimal_parts cs = (s, q, x) \<Longrightarrow> ratio10 q x = (n, d) \<Longrightarrow> strtod cs = round_ratio s n d"
  by (simp add: strtod_def)

lemmas decimal_eval = decimal_parts_def signed_dec_def undec_def digit_val_def byte_of_def Let_def
lemmas ratio_eval = round_ratio_def floor_log2_def scale2_def div_round_def Let_def
lemmas fmt_eval = fmt_g_def ratio2_def sig_digits_def floor_log10_def div_round_def
  with_fraction_def strip_zeros_def exp_part_def Let_def

lemma strtod_example: obtains d where "strtod ''1.57'' = (d, False)"
proof -
  have "decimal_parts ''1.57'' = (False, 157, - 2)"
    by (simp add: decimal_eval)
  then have "strtod ''1.57'' = round_ratio False 157 100"
    by (rule strtod_by) (simp add: ratio10_def)
  moreover have "\<not> snd (round_ratio False 157 100)"
    by (simp add: ratio_eval run_simps)
  ultimately show ?thesis using that by (metis prod.collapse)
qed

end
