(* ===== verification/JsonValue.thy ===== *)
theory JsonValue
  imports JsonDouble
begin

text \<open>
  \<open>jackson/Value.h\<close>, \<open>Value.cc\<close> and \<open>Exception.h\<close>: the JSON value with its tag, the typed
  getters guarded by \<open>assert\<close>, member lookup and insertion, the SAX-style handler interface,
  and \<open>Value::writeTo\<close>, which replays a value into a handler. A member's key is a string
  value (\<open>addMember\<close> asserts it), so members are pairs of a string and a value.
\<close>

section \<open>Tags, errors and values\<close>

datatype value_type =
    TYPE_NULL | TYPE_BOOL | TYPE_INT32 | TYPE_INT64
  | TYPE_DOUBLE | TYPE_STRING | TYPE_ARRAY | TYPE_OBJECT

datatype parse_error =
    PARSE_OK
  | PARSE_ROOT_NOT_SINGULAR
  | PARSE_BAD_VALUE
  | PARSE_EXPECT_VALUE
  | PARSE_NUMBER_TOO_BIG
  | PARSE_BAD_STRING_CHAR
  | PARSE_BAD_STRING_ESCAPE
  | PARSE_BAD_UNICODE_HEX
  | PARSE_BAD_UNICODE_SURROGATE
  | PARSE_MISS_QUOTATION_MARK
  | PARSE_MISS_COMMA_OR_SQUARE_BRACKET
  | PARSE_MISS_KEY
  | PARSE_MISS_COLON
  | PARSE_MISS_COMMA_OR_CURLY_BRACKET
  | PARSE_USER_STOPPED

fun parseErrorStr :: "parse_error \<Rightarrow> string" where
  "parseErrorStr PARSE_OK = ''ok''"
| "parseErrorStr PARSE_ROOT_NOT_SINGULAR = ''root not singular''"
| "parseErrorStr PARSE_BAD_VALUE = ''bad value''"
| "parseErrorStr PARSE_EXPECT_VALUE = ''expect value''"
| "parseErrorStr PARSE_NUMBER_TOO_BIG = ''number too big''"
| "parseErrorStr PARSE_BAD_STRING_CHAR = ''bad character''"
| "parseErrorStr PARSE_BAD_STRING_ESCAPE = ''bad escape''"
| "parseErrorStr PARSE_BAD_UNICODE_HEX = ''bad unicode hex''"
| "parseErrorStr PARSE_BAD_UNICODE_SURROGATE = ''bad unicode surrogate''"
| "parseErrorStr PARSE_MISS_QUOTATION_MARK = ''miss quotation mark''"
| "parseErrorStr PARSE_MISS_COMMA_OR_SQUARE_BRACKET = ''miss comma or square bracket''"
| "parseErrorStr PARSE_MISS_KEY = ''miss key''"
| "parseErrorStr PARSE_MISS_COLON = ''miss colon''"
| "parseErrorStr PARSE_MISS_COMMA_OR_CURLY_BRACKET = ''miss comma or curly bracket''"
| "parseErrorStr PARSE_USER_STOPPED = ''user stopped parse''"

datatype jvalue =
    JNull
  | JBool bool
  | JInt32 i32
  | JInt64 i64
  | JDouble double
  | JString string
  | JArray "jvalue list"
  | JObject "(string \<times> jvalue) list"

type_synonym members = "(string \<times> jvalue) list"

fun getType :: "jvalue \<Rightarrow> value_type" where
  "getType JNull = TYPE_NULL"
| "getType (JBool _) = TYPE_BOOL"
| "getType (JInt32 _) = TYPE_INT32"
| "getType (JInt64 _) = TYPE_INT64"
| "getType (JDouble _) = TYPE_DOUBLE"
| "getType (JString _) = TYPE_STRING"
| "getType (JArray _) = TYPE_ARRAY"
| "getType (JObject _) = TYPE_OBJECT"

text \<open>\<open>Value(ValueType)\<close>: the default value of a tag.\<close>

fun value_of_type :: "value_type \<Rightarrow> jvalue" where
  "value_of_type TYPE_NULL = JNull"
| "value_of_type TYPE_BOOL = JBool False"
| "value_of_type TYPE_INT32 = JInt32 0"
| "value_of_type TYPE_INT64 = JInt64 0"
| "value_of_type TYPE_DOUBLE = JDouble (DFin False 0 (- 1074))"
| "value_of_type TYPE_STRING = JString []"
| "value_of_type TYPE_ARRAY = JArray []"
| "value_of_type TYPE_OBJECT = JObject []"

lemma getType_value_of_type [simp]: "getType (value_of_type t) = t"
  by (cases t) auto

definition isNull :: "jvalue \<Rightarrow> bool" where
  "isNull v \<longleftrightarrow> getType v = TYPE_NULL"

definition isInt32 :: "jvalue \<Rightarrow> bool" where
  "isInt32 v \<longleftrightarrow> getType v = TYPE_INT32"

definition isInt64 :: "jvalue \<Rightarrow> bool" where
  "isInt64 v \<longleftrightarrow> getType v = TYPE_INT64 \<or> getType v = TYPE_INT32"

definition isString :: "jvalue \<Rightarrow> bool" where
  "isString v \<longleftrightarrow> getType v = TYPE_STRING"

definition isArray :: "jvalue \<Rightarrow> bool" where
  "isArray v \<longleftrightarrow> getType v = TYPE_ARRAY"

definition isObject :: "jvalue \<Rightarrow> bool" where
  "isObject v \<longleftrightarrow> getType v = TYPE_OBJECT"

lemmas is_type_defs = isNull_def isInt32_def isInt64_def isString_def isArray_def isObject_def

section \<open>Getters\<close>

text \<open>Each getter asserts the tag.\<close>

fun getBool :: "jvalue \<Rightarrow> ('e, bool) outcome" where
  "getBool (JBool b) = Done b"
| "getBool _ = Abort"

fun getInt32 :: "jvalue \<Rightarrow> ('e, i32) outcome" where
  "getInt32 (JInt32 i) = Done i"
| "getInt32 _ = Abort"

fun getInt64 :: "jvalue \<Rightarrow> ('e, i64) outcome" where
  "getInt64 (JInt64 i) = Done i"
| "getInt64 (JInt32 i) = Done (scast i)"
| "getInt64 _ = Abort"

fun getDouble :: "jvalue \<Rightarrow> ('e, double) outcome" where
  "getDouble (JDouble d) = Done d"
| "getDouble _ = Abort"

fun getStringView :: "jvalue \<Rightarrow> ('e, string) outcome" where
  "getStringView (JString s) = Done s"
| "getStringView _ = Abort"

fun getArray :: "jvalue \<Rightarrow> ('e, jvalue list) outcome" where
  "getArray (JArray vs) = Done vs"
| "getArray _ = Abort"

fun getObject :: "jvalue \<Rightarrow> ('e, members) outcome" where
  "getObject (JObject ms) = Done ms"
| "getObject _ = Abort"

fun getSize :: "jvalue \<Rightarrow> nat" where
  "getSize (JArray vs) = length vs"
| "getSize (JObject ms) = length ms"
| "getSize _ = 1"

section \<open>Members\<close>

text \<open>\<open>findMember\<close>: the value of the first member with the key; None is \<open>memberEnd()\<close>.\<close>

fun findMember :: "jvalue \<Rightarrow> string \<Rightarrow> ('e, jvalue option) outcome" where
  "findMember (JObject ms) key = Done (map_option snd (find (\<lambda>m. fst m = key) ms))"
| "findMember _ key = Abort"

text \<open>\<open>operator[](string_view)\<close>: a missing key fails \<open>assert(false)\<close>.\<close>

definition index_key :: "jvalue \<Rightarrow> string \<Rightarrow> ('e, jvalue) outcome" where
  "index_key v key = obind (findMember v key) (\<lambda>r. case r of Some x \<Rightarrow> Done x | None \<Rightarrow> Abort)"

text \<open>\<open>operator[](size_t)\<close>: out of range is undefined in C++ and \<open>Abort\<close> here.\<close>

fun index_at :: "jvalue \<Rightarrow> nat \<Rightarrow> ('e, jvalue) outcome" where
  "index_at (JArray vs) i = (if i < length vs then Done (vs ! i) else Abort)"
| "index_at _ i = Abort"

fun addMember :: "jvalue \<Rightarrow> jvalue \<Rightarrow> jvalue \<Rightarrow> ('e, jvalue) outcome" where
  "addMember (JObject ms) (JString key) v =
     (if find (\<lambda>m. fst m = key) ms = None then Done (JObject (ms @ [(key, v)])) else Abort)"
| "addMember _ _ _ = Abort"

fun addValue :: "jvalue \<Rightarrow> jvalue \<Rightarrow> ('e, jvalue) outcome" where
  "addValue (JArray vs) v = Done (JArray (vs @ [v]))"
| "addValue _ v = Abort"

lemma find_key_map_of: "map_option snd (find (\<lambda>m. fst m = key) ms) = map_of ms key"
  by (induction ms) auto

lemma find_key_None: "find (\<lambda>m. fst m = key) ms = None \<longleftrightarrow> key \<notin> fst ` set ms"
  by (induction ms) auto

lemma findMember_map_of [simp]: "findMember (JObject ms) key = Done (map_of ms key)"
  by (simp add: find_key_map_of)

declare findMember.simps(1) [simp del]

lemma addMember_fresh [simp]:
  "key \<notin> fst ` set ms \<Longrightarrow> addMember (JObject ms) (JString key) v = Done (JObject (ms @ [(key, v)]))"
  "key \<in> fst ` set ms \<Longrightarrow> addMember (JObject ms) (JString key) v = Abort"
  by (auto simp: find_key_None)

text \<open>A lookup after an insertion sees the inserted member, and every other key unchanged.\<close>

lemma findMember_addMember:
  assumes "addMember v (JString key) x = Done v'"
  shows "findMember v' k = (if k = key then Done (Some x) else findMember v k)"
proof (cases v)
  case (JObject ms)
  with assms have "key \<notin> fst ` set ms" and "v' = JObject (ms @ [(key, x)])"
    by (auto simp: find_key_None split: if_splits)
  moreover from this have "map_of ms key = None"
    by (simp add: map_of_eq_None_iff)
  ultimately show ?thesis
    using JObject by (simp add: map_add_def split: option.split)
qed (use assms in auto)

section \<open>Well-formed values\<close>

text \<open>Distinct keys at every object: what \<open>addMember\<close>'s assert keeps.\<close>

fun distinct_keys :: "jvalue \<Rightarrow> bool" where
  "distinct_keys (JArray vs) \<longleftrightarrow> (\<forall>v\<in>set vs. distinct_keys v)"
| "distinct_keys (JObject ms) \<longleftrightarrow> distinct (map fst ms) \<and> (\<forall>(k, v)\<in>set ms. distinct_keys v)"
| "distinct_keys _ \<longleftrightarrow> True"

lemma addMember_distinct_keys:
  "addMember v (JString key) x = Done v' \<Longrightarrow> distinct_keys v \<Longrightarrow> distinct_keys x \<Longrightarrow> distinct_keys v'"
  by (cases v) (auto simp: find_key_None split: if_splits)

section \<open>Handlers\<close>

text \<open>
  A handler method returns true (\<open>HGo\<close> with the handler's new state), false (\<open>HStop\<close>) or
  fails an assert (\<open>HAbort\<close>). \<open>Reader\<close>, \<open>writeTo\<close> and the tests are templates over it.
\<close>

datatype event =
    ENull | EBool bool | EInt32 i32 | EInt64 i64 | EDouble double | EString string
  | EStartObject | EKey string | EEndObject | EStartArray | EEndArray

datatype 'h answer = HGo 'h | HStop 'h | HAbort

type_synonym 'h handler = "event \<Rightarrow> 'h \<Rightarrow> 'h answer"

fun hbind :: "'h answer \<Rightarrow> ('h \<Rightarrow> 'h answer) \<Rightarrow> 'h answer" where
  "hbind (HGo h) f = f h"
| "hbind (HStop h) f = HStop h"
| "hbind HAbort f = HAbort"

lemma hbind_assoc: "hbind (hbind m f) g = hbind m (\<lambda>h. hbind (f h) g)"
  by (cases m) auto

lemma hbind_HGo_right [simp]: "hbind m HGo = m"
  by (cases m) auto

fun run_events :: "'h handler \<Rightarrow> event list \<Rightarrow> 'h \<Rightarrow> 'h answer" where
  "run_events hdl [] h = HGo h"
| "run_events hdl (e # es) h = hbind (hdl e h) (run_events hdl es)"

lemma run_events_append:
  "run_events hdl (es @ fs) h = hbind (run_events hdl es h) (run_events hdl fs)"
proof (induction es arbitrary: h)
  case (Cons e es)
  then show ?case by (cases "hdl e h") auto
qed simp

lemma run_events_append_fun:
  "run_events hdl (es @ fs) = (\<lambda>h. hbind (run_events hdl es h) (run_events hdl fs))"
  by (simp add: fun_eq_iff run_events_append)

lemma run_events_Nil_fun [simp]: "run_events hdl [] = HGo"
  by (simp add: fun_eq_iff)

lemma run_events_single [simp]: "run_events hdl [e] = hdl e"
  by (simp add: fun_eq_iff)

section \<open>writeTo\<close>

text \<open>
  The result of \<open>handler.Key\<close> is not checked, so a handler that answers false to a key is
  sent the member's value all the same.
\<close>

function writeTo :: "'h handler \<Rightarrow> jvalue \<Rightarrow> 'h \<Rightarrow> 'h answer"
  and writeElements :: "'h handler \<Rightarrow> jvalue list \<Rightarrow> 'h \<Rightarrow> 'h answer"
  and writeMembers :: "'h handler \<Rightarrow> members \<Rightarrow> 'h \<Rightarrow> 'h answer" where
  "writeTo hdl JNull h = hdl ENull h"
| "writeTo hdl (JBool b) h = hdl (EBool b) h"
| "writeTo hdl (JInt32 i) h = hdl (EInt32 i) h"
| "writeTo hdl (JInt64 i) h = hdl (EInt64 i) h"
| "writeTo hdl (JDouble d) h = hdl (EDouble d) h"
| "writeTo hdl (JString s) h = hdl (EString s) h"
| "writeTo hdl (JArray vs) h =
     hbind (hdl EStartArray h) (\<lambda>h. hbind (writeElements hdl vs h) (hdl EEndArray))"
| "writeTo hdl (JObject ms) h =
     hbind (hdl EStartObject h) (\<lambda>h. hbind (writeMembers hdl ms h) (hdl EEndObject))"
| "writeElements hdl [] h = HGo h"
| "writeElements hdl (v # vs) h = hbind (writeTo hdl v h) (writeElements hdl vs)"
| "writeMembers hdl [] h = HGo h"
| "writeMembers hdl (m # ms) h =
     (case hdl (EKey (fst m)) h of
        HAbort \<Rightarrow> HAbort
      | HGo h' \<Rightarrow> hbind (writeTo hdl (snd m) h') (writeMembers hdl ms)
      | HStop h' \<Rightarrow> hbind (writeTo hdl (snd m) h') (writeMembers hdl ms))"
  by pat_completeness auto
termination
  by (relation "measure (\<lambda>x. case x of
        Inl (_, v, _) \<Rightarrow> 2 * size v
      | Inr (Inl (_, vs, _)) \<Rightarrow> Suc (2 * size_list size vs)
      | Inr (Inr (_, ms, _)) \<Rightarrow> Suc (2 * size_list (size_prod (\<lambda>_. 0) size) ms))")
    (auto simp: size_prod_def split: prod.splits)

text \<open>The events of a value, the reference for what a writer is sent and a reader sends.\<close>

fun events :: "jvalue \<Rightarrow> event list" where
  "events JNull = [ENull]"
| "events (JBool b) = [EBool b]"
| "events (JInt32 i) = [EInt32 i]"
| "events (JInt64 i) = [EInt64 i]"
| "events (JDouble d) = [EDouble d]"
| "events (JString s) = [EString s]"
| "events (JArray vs) = EStartArray # concat (map events vs) @ [EEndArray]"
| "events (JObject ms) =
     EStartObject # concat (map (\<lambda>(k, v). EKey k # events v) ms) @ [EEndObject]"

definition member_events :: "members \<Rightarrow> event list" where
  "member_events ms = concat (map (\<lambda>(k, v). EKey k # events v) ms)"

lemma member_events_simps [simp]:
  "member_events [] = []"
  "member_events (m # ms) = EKey (fst m) # events (snd m) @ member_events ms"
  "member_events (ms @ ms') = member_events ms @ member_events ms'"
  by (auto simp: member_events_def split: prod.splits)

lemma events_object [simp]:
  "events (JObject ms) = EStartObject # member_events ms @ [EEndObject]"
  by (simp add: member_events_def)

declare events.simps(8) [simp del]

text \<open>Handlers that never answer false to a key: all the handlers of the library.\<close>

locale key_handler =
  fixes hdl :: "'h handler"
  assumes key_not_stopped: "hdl (EKey k) h \<noteq> HStop h'"
begin

text \<open>For such a handler \<open>writeTo\<close> is the run of the value's events.\<close>

lemma writeElements_run:
  assumes "\<And>v h. v \<in> set vs \<Longrightarrow> writeTo hdl v h = run_events hdl (events v) h"
  shows "writeElements hdl vs h = run_events hdl (concat (map events vs)) h"
  using assms
proof (induction vs arbitrary: h)
  case (Cons v vs)
  then show ?case
    by (cases "run_events hdl (events v) h") (auto simp: run_events_append)
qed simp

lemma writeMembers_run:
  assumes "\<And>m h. m \<in> set ms \<Longrightarrow> writeTo hdl (snd m) h = run_events hdl (events (snd m)) h"
  shows "writeMembers hdl ms h = run_events hdl (member_events ms) h"
  using assms
proof (induction ms arbitrary: h)
  case (Cons m ms)
  have IH: "writeMembers hdl ms = run_events hdl (member_events ms)"
    using Cons by (simp add: fun_eq_iff)
  from Cons.prems [of m] IH show ?case
    using key_not_stopped [of "fst m" h]
    by (auto simp: run_events_append split: answer.split)
qed simp

lemma writeTo_run: "writeTo hdl v h = run_events hdl (events v) h"
proof (induction v arbitrary: h)
  case (JArray vs)
  then have "writeElements hdl vs = run_events hdl (concat (map events vs))"
    by (simp add: fun_eq_iff writeElements_run)
  then show ?case by (simp add: run_events_append_fun)
next
  case (JObject ms)
  have "writeTo hdl (snd m) h = run_events hdl (events (snd m)) h" if "m \<in> set ms" for m h
    using JObject [OF that, of "snd m"] by (cases m) simp
  then have "writeMembers hdl ms = run_events hdl (member_events ms)"
    by (simp add: fun_eq_iff writeMembers_run)
  then show ?case by (simp add: run_events_append_fun)
qed simp_all

end

end
