(* ===== verification/JsonReader.thy ===== *)
theory JsonReader
  imports JsonValue
begin

unbundle bit_operations_syntax

text \<open>
  \<open>jackson/Reader.h\<close> and \<open>Reader.cc\<close> over the string streams of \<open>StringReadStream.h\<close> and
  \<open>FileReadStream.h\<close>. A stream is what is left to read: \<open>hasNext\<close> is non-emptiness, \<open>peek\<close>
  and \<open>next\<close> answer the NUL byte at the end, \<open>getIter\<close> is the rest itself. The recursive
  functions take fuel; \<open>reader_parse\<close> gives them three units a byte, which \<open>fuel_enough\<close> proves
  to be enough for every input and handler.
\<close>

section \<open>Streams\<close>

definition hasNext :: "string \<Rightarrow> bool" where
  "hasNext s \<longleftrightarrow> s \<noteq> []"

definition peek :: "string \<Rightarrow> char" where
  "peek s = (case s of [] \<Rightarrow> nul_char | c # _ \<Rightarrow> c)"

text \<open>\<open>next\<close> returns \<open>peek s\<close> and leaves \<open>tl s\<close>, which at the end is the end again.\<close>

definition next_char :: "string \<Rightarrow> char \<times> string" where
  "next_char s = (case s of [] \<Rightarrow> (nul_char, []) | c # s' \<Rightarrow> (c, s'))"

lemma peek_simps [simp]: "peek [] = nul_char" "peek (c # s) = c"
  by (simp_all add: peek_def)

lemma next_char_simps [simp]: "next_char [] = (nul_char, [])" "next_char (c # s) = (c, s)"
  by (simp_all add: next_char_def)

lemma next_char_eq: "next_char s = (peek s, tl s)"
  by (cases s) auto

lemma hasNext_simps [simp]: "\<not> hasNext []" "hasNext (c # s)"
  by (simp_all add: hasNext_def)

text \<open>\<open>FileReadStream::readStream\<close>: the chunks \<open>fread\<close> delivers, until an empty one.\<close>

fun readStream :: "string list \<Rightarrow> string" where
  "readStream [] = []"
| "readStream (chunk # chunks) = (if chunk = [] then [] else chunk @ readStream chunks)"

lemma readStream_concat: "[] \<notin> set chunks \<Longrightarrow> readStream (chunks @ [[]]) = concat chunks"
  by (induction chunks) auto

section \<open>Tokens\<close>

definition is_ws :: "char \<Rightarrow> bool" where
  "is_ws c \<longleftrightarrow> c = CHR '' '' \<or> c = tab_char \<or> c = cr_char \<or> c = lf_char"

fun parseWhitespace :: "string \<Rightarrow> string" where
  "parseWhitespace [] = []"
| "parseWhitespace (c # s) = (if is_ws c then parseWhitespace s else c # s)"

lemma parseWhitespace_length: "length (parseWhitespace s) \<le> length s"
  by (induction s) auto

lemma parseWhitespace_stop: "s = [] \<or> \<not> is_ws (hd s) \<Longrightarrow> parseWhitespace s = s"
  by (cases s) auto

definition isDigit19 :: "char \<Rightarrow> bool" where
  "isDigit19 c \<longleftrightarrow> 49 \<le> byte_of c \<and> byte_of c \<le> 57"

definition hex_value :: "char \<Rightarrow> nat option" where
  "hex_value c =
     (let b = byte_of c
      in if 48 \<le> b \<and> b \<le> 57 then Some (b - 48)
         else if 97 \<le> b \<and> b \<le> 102 then Some (b - 97 + 10)
         else if 65 \<le> b \<and> b \<le> 70 then Some (b - 65 + 10)
         else None)"

text \<open>\<open>u <<= 4; u |= digit\<close>, four times; the digit has four bits, so this is \<open>16 * u + digit\<close>.\<close>

fun parseHex :: "nat \<Rightarrow> nat \<Rightarrow> string \<Rightarrow> (parse_error, nat \<times> string) outcome" where
  "parseHex 0 u s = Done (u, s)"
| "parseHex (Suc n) u s =
     (let (c, s') = next_char s
      in case hex_value c of
           None \<Rightarrow> Throw PARSE_BAD_UNICODE_HEX
         | Some d \<Rightarrow> parseHex n (16 * u + d) s')"

definition parseHex4 :: "string \<Rightarrow> (parse_error, nat \<times> string) outcome" where
  "parseHex4 s = parseHex 4 0 s"

text \<open>\<open>push_back(unsigned)\<close> keeps the low byte, as \<^const>\<open>char_of\<close> does.\<close>

definition encodeUtf8 :: "nat \<Rightarrow> (parse_error, string) outcome" where
  "encodeUtf8 u =
     (if u \<le> 0x7F then Done [char_of (u AND 0xFF)]
      else if u \<le> 0x7FF then
        Done [char_of (0xC0 OR (drop_bit 6 u AND 0xFF)),
              char_of (0x80 OR (u AND 0x3F))]
      else if u \<le> 0xFFFF then
        Done [char_of (0xE0 OR (drop_bit 12 u AND 0xFF)),
              char_of (0x80 OR (drop_bit 6 u AND 0x3F)),
              char_of (0x80 OR (u AND 0x3F))]
      else if u \<le> 0x10FFFF then
        Done [char_of (0xF0 OR (drop_bit 18 u AND 0xFF)),
              char_of (0x80 OR (drop_bit 12 u AND 0x3F)),
              char_of (0x80 OR (drop_bit 6 u AND 0x3F)),
              char_of (0x80 OR (u AND 0x3F))]
      else Abort)"

text \<open>The code point of \<open>\\uXXXX\<close>, with a surrogate pair joined; the input starts after the u.\<close>

definition parseUnicode :: "string \<Rightarrow> (parse_error, nat \<times> string) outcome" where
  "parseUnicode s =
     obind (parseHex4 s) (\<lambda>(u, s1).
       if 0xD800 \<le> u \<and> u \<le> 0xDBFF then
         let (c1, s2) = next_char s1 in
         if c1 \<noteq> backslash_char then Throw PARSE_BAD_UNICODE_SURROGATE
         else let (c2, s3) = next_char s2 in
         if c2 \<noteq> CHR ''u'' then Throw PARSE_BAD_UNICODE_SURROGATE
         else obind (parseHex4 s3) (\<lambda>(u2, s4).
           if 0xDC00 \<le> u2 \<and> u2 \<le> 0xDFFF
           then Done (0x10000 + (u - 0xD800) * 0x400 + (u2 - 0xDC00), s4)
           else Throw PARSE_BAD_UNICODE_SURROGATE)
       else Done (u, s1))"

text \<open>One escape; the input starts after the backslash. The bytes appended and the rest.\<close>

definition parseEscape :: "string \<Rightarrow> (parse_error, string \<times> string) outcome" where
  "parseEscape s =
     (let (c, s') = next_char s in
      if c = quote_char then Done ([quote_char], s')
      else if c = backslash_char then Done ([backslash_char], s')
      else if c = CHR ''/'' then Done (''/'', s')
      else if c = CHR ''b'' then Done ([CHR 0x08], s')
      else if c = CHR ''f'' then Done ([CHR 0x0C], s')
      else if c = CHR ''n'' then Done ([lf_char], s')
      else if c = CHR ''r'' then Done ([cr_char], s')
      else if c = CHR ''t'' then Done ([tab_char], s')
      else if c = CHR ''u'' then
        obind (parseUnicode s') (\<lambda>(u, s'').
          obind (encodeUtf8 u) (\<lambda>bs. Done (bs, s'')))
      else Throw PARSE_BAD_STRING_ESCAPE)"

lemma parseHex_length: "parseHex n u s = Done (v, s') \<Longrightarrow> length s' \<le> length s"
  by (induction n u s rule: parseHex.induct) (fastforce simp: next_char_eq split: option.splits)+

lemma parseUnicode_length: "parseUnicode s = Done (v, s') \<Longrightarrow> length s' \<le> length s"
  by (fastforce simp: parseUnicode_def parseHex4_def next_char_eq split: if_splits dest: parseHex_length)

lemma parseEscape_length: "parseEscape s = Done (bs, s') \<Longrightarrow> length s' \<le> length s"
  by (fastforce simp: parseEscape_def next_char_eq split: if_splits dest: parseUnicode_length)

text \<open>The loop of \<open>parseString\<close> after the opening quote, with the buffer so far.\<close>

function scanString :: "string \<Rightarrow> string \<Rightarrow> (parse_error, string \<times> string) outcome" where
  "scanString buf [] = Throw PARSE_MISS_QUOTATION_MARK"
| "scanString buf (c # s) =
     (if c = quote_char then Done (buf, s)
      else if 1 \<le> byte_of c \<and> byte_of c \<le> 31 then Throw PARSE_BAD_STRING_CHAR
      else if c = backslash_char then
        (case parseEscape s of
           Done (bs, s') \<Rightarrow> scanString (buf @ bs) s'
         | Throw e \<Rightarrow> Throw e
         | Abort \<Rightarrow> Abort)
      else scanString (buf @ [c]) s)"
  by pat_completeness auto
termination
  by (relation "measure (\<lambda>(buf, s). length s)") (auto dest: parseEscape_length)

lemma scanString_length: "scanString buf s = Done (r, s') \<Longrightarrow> length s' < length s"
proof (induction buf s rule: scanString.induct)
  case (2 buf c s)
  then show ?case
    by (fastforce split: if_splits outcome.splits dest!: parseEscape_length)
qed simp

section \<open>Numbers\<close>

text \<open>The scan of \<open>parseNumber\<close>, part by part; None is the \<open>PARSE_BAD_VALUE\<close> each part throws.\<close>

definition scan_int :: "string \<Rightarrow> string option" where
  "scan_int s =
     (if peek s = CHR ''0'' then (if is_digit (peek (tl s)) then None else Some (tl s))
      else if isDigit19 (peek s) then Some (dropWhile is_digit (tl s))
      else None)"

definition scan_frac :: "value_type \<times> string \<Rightarrow> (value_type \<times> string) option" where
  "scan_frac ts =
     (let (t, s) = ts in
      if peek s = CHR ''.'' then
        (if \<not> is_digit (peek (tl s)) then None
         else Some (TYPE_DOUBLE, dropWhile is_digit (tl (tl s))))
      else Some (t, s))"

definition scan_exp :: "value_type \<times> string \<Rightarrow> (value_type \<times> string) option" where
  "scan_exp ts =
     (let (t, s) = ts in
      if peek s = CHR ''e'' \<or> peek s = CHR ''E'' then
        (let s1 = tl s;
             s2 = (if peek s1 = CHR ''+'' \<or> peek s1 = CHR ''-'' then tl s1 else s1)
         in if \<not> is_digit (peek s2) then None
            else Some (TYPE_DOUBLE, dropWhile is_digit (tl s2)))
      else Some (t, s))"

definition scan_suffix :: "value_type \<times> string \<Rightarrow> (value_type \<times> string) option" where
  "scan_suffix ts =
     (let (t, s) = ts in
      if peek s = CHR ''i'' then
        (let s1 = tl s in
         if t = TYPE_DOUBLE then None
         else let (c, s2) = next_char s1 in
         if c = CHR ''3'' then
           (let (c', s3) = next_char s2 in if c' \<noteq> CHR ''2'' then None else Some (TYPE_INT32, s3))
         else if c = CHR ''6'' then
           (let (c', s3) = next_char s2 in if c' \<noteq> CHR ''4'' then None else Some (TYPE_INT64, s3))
         else None)
      else Some (t, s))"

definition scanNumber :: "string \<Rightarrow> (value_type \<times> string) option" where
  "scanNumber start =
     Option.bind (scan_int (if peek start = CHR ''-'' then tl start else start)) (\<lambda>s.
     Option.bind (scan_frac (TYPE_NULL, s)) (\<lambda>ts.
     Option.bind (scan_exp ts) (\<lambda>ts.
     Option.bind (scan_suffix ts) (\<lambda>(t, s'). if s' = start then None else Some (t, s')))))"

text \<open>\<open>strtol\<close> in base 10 on the input from \<open>start\<close>: it stops at the first non-digit.\<close>

definition strtol :: "string \<Rightarrow> int" where
  "strtol s =
     (let neg = (peek s = CHR ''-'');
          ds = takeWhile is_digit (if neg then tl s else s);
          n = int (undec ds)
      in if neg then - n else n)"

definition in_int32 :: "int \<Rightarrow> bool" where
  "in_int32 i \<longleftrightarrow> - (2 ^ 31) \<le> i \<and> i < 2 ^ 31"

definition in_int64 :: "int \<Rightarrow> bool" where
  "in_int64 i \<longleftrightarrow> - (2 ^ 63) \<le> i \<and> i < 2 ^ 63"

text \<open>
  \<open>strtod\<close> reads a sign, digits, a fraction and an exponent, as far as they go; what it leaves, and
  how much it read.
\<close>

definition strtod_frac :: "string \<Rightarrow> string" where
  "strtod_frac s = (if peek s = CHR ''.'' then dropWhile is_digit (tl s) else s)"

definition strtod_exp :: "string \<Rightarrow> string" where
  "strtod_exp s =
     (let e1 = tl s;
          e2 = (if peek e1 = CHR ''+'' \<or> peek e1 = CHR ''-'' then tl e1 else e1)
      in if (peek s = CHR ''e'' \<or> peek s = CHR ''E'') \<and> is_digit (peek e2) then dropWhile is_digit e2
         else s)"

definition strtod_rest :: "string \<Rightarrow> string" where
  "strtod_rest s =
     strtod_exp (strtod_frac (dropWhile is_digit (if peek s = CHR ''-'' then tl s else s)))"

definition strtod_extent :: "string \<Rightarrow> nat" where
  "strtod_extent s = length s - length (strtod_rest s)"

text \<open>
  The conversion of a scanned lexeme to the event it causes. \<open>strtod\<close> and \<open>strtol\<close> are given a pointer
  and no length, so they read the view from \<open>start\<close> and then what is in memory behind it, \<open>mem\<close>: a
  string's NUL is \<open>mem = []\<close>. A value out of range is \<open>std::out_of_range\<close>, rethrown as
  \<open>PARSE_NUMBER_TOO_BIG\<close>; then comes \<open>assert(start + idx == end)\<close>, for doubles only.
\<close>

definition number_event :: "string \<Rightarrow> string \<Rightarrow> value_type \<Rightarrow> string \<Rightarrow> (parse_error, event) outcome" where
  "number_event mem start t s =
     (if t = TYPE_DOUBLE then
        (let idx = strtod_extent (start @ mem);
             (d, erange) = strtod (take idx (start @ mem))
         in if erange then Throw PARSE_NUMBER_TOO_BIG
            else if idx \<noteq> length start - length s then Abort
            else Done (EDouble d))
      else let i = strtol (start @ mem) in
        if \<not> in_int64 i then Throw PARSE_NUMBER_TOO_BIG
        else if t = TYPE_INT64 then Done (EInt64 (word_of_int i))
        else if t = TYPE_INT32 then
          (if in_int32 i then Done (EInt32 (word_of_int i)) else Throw PARSE_NUMBER_TOO_BIG)
        else if in_int32 i then Done (EInt32 (word_of_int i))
        else Done (EInt64 (word_of_int i)))"

lemma dropWhile_length: "length (dropWhile P s) \<le> length s"
  by (induction s) auto

lemma scanNumber_length:
  assumes "scanNumber start = Some (t, s')"
  shows "length s' < length start"
proof -
  let ?s = "if peek start = CHR ''-'' then tl start else start"
  have le: "length ?s \<le> length start" by simp
  have tl_le: "length (dropWhile is_digit (tl s)) \<le> length s - 1" for s
    using dropWhile_length [of is_digit "tl s"] by simp
  from assms obtain s1 t2 s2 t3 s3 where
    1: "scan_int ?s = Some s1" and 2: "scan_frac (TYPE_NULL, s1) = Some (t2, s2)" and
    3: "scan_exp (t2, s2) = Some (t3, s3)" and 4: "scan_suffix (t3, s3) = Some (t, s')"
    by (auto simp: scanNumber_def split: Option.bind_splits if_splits)
  from 1 have "length s1 < length ?s"
    using tl_le [of ?s] by (cases ?s) (auto simp: scan_int_def isDigit19_def byte_of_def split: if_splits)
  moreover from 2 have "length s2 \<le> length s1"
    using tl_le [of "tl s1"] by (auto simp: scan_frac_def split: if_splits)
  moreover from 3 have "length s3 \<le> length s2"
    using tl_le [of "tl s2"] tl_le [of "tl (tl s2)"] by (auto simp: scan_exp_def Let_def split: if_splits)
  moreover from 4 have "length s' \<le> length s3"
    by (auto simp: scan_suffix_def Let_def next_char_eq split: if_splits)
  ultimately show ?thesis using le by linarith
qed

section \<open>The recursive descent\<close>

text \<open>
  \<open>POk\<close>: the function returned, with the rest of the stream and the handler. \<open>PThrow\<close>: the
  \<open>Exception\<close> it threw. \<open>PAbort\<close>: a failed assert, the handler's included. \<open>PFuel\<close>: the
  fuel ran out, which never happens to \<open>reader_parse\<close>.
\<close>

datatype 'h presult = POk string 'h | PThrow parse_error 'h | PAbort | PFuel

fun pbind :: "'h presult \<Rightarrow> (string \<Rightarrow> 'h \<Rightarrow> 'h presult) \<Rightarrow> 'h presult" where
  "pbind (POk s h) f = f s h"
| "pbind (PThrow e h) f = PThrow e h"
| "pbind PAbort f = PAbort"
| "pbind PFuel f = PFuel"

text \<open>The \<open>CALL\<close> macro: a handler that answers false stops the parse.\<close>

definition call :: "'h handler \<Rightarrow> event \<Rightarrow> string \<Rightarrow> 'h \<Rightarrow> 'h presult" where
  "call hdl e s h =
     (case hdl e h of
        HGo h' \<Rightarrow> POk s h'
      | HStop h' \<Rightarrow> PThrow PARSE_USER_STOPPED h'
      | HAbort \<Rightarrow> PAbort)"

text \<open>\<open>assertNext\<close>: the stream must be at \<open>c\<close>.\<close>

definition assertNext :: "char \<Rightarrow> string \<Rightarrow> 'h \<Rightarrow> 'h presult" where
  "assertNext c s h = (if peek s = c then POk (tl s) h else PAbort)"

fun match_literal :: "string \<Rightarrow> string \<Rightarrow> string \<times> string" where
  "match_literal (l # ls) (c # s) = (if l = c then match_literal ls s else (l # ls, c # s))"
| "match_literal ls s = (ls, s)"

definition parseLiteral :: "'h handler \<Rightarrow> string \<Rightarrow> value_type \<Rightarrow> string \<Rightarrow> 'h \<Rightarrow> 'h presult" where
  "parseLiteral hdl literal type s h =
     pbind (assertNext (hd literal) s h) (\<lambda>s h.
       let (l, s') = match_literal (tl literal) s
       in if l = [] then
            (case type of
               TYPE_NULL \<Rightarrow> call hdl ENull s' h
             | TYPE_BOOL \<Rightarrow> call hdl (EBool (hd literal = CHR ''t'')) s' h
             | TYPE_DOUBLE \<Rightarrow>
                 call hdl (EDouble (if hd literal = CHR ''N'' then DNaN else DInf False)) s' h
             | _ \<Rightarrow> PAbort)
          else PThrow PARSE_BAD_VALUE h)"

definition parseNumber :: "string \<Rightarrow> 'h handler \<Rightarrow> string \<Rightarrow> 'h \<Rightarrow> 'h presult" where
  "parseNumber mem hdl s h =
     (if peek s = CHR ''N'' then parseLiteral hdl ''NaN'' TYPE_DOUBLE s h
      else if peek s = CHR ''I'' then parseLiteral hdl ''Infinity'' TYPE_DOUBLE s h
      else case scanNumber s of
             None \<Rightarrow> PThrow PARSE_BAD_VALUE h
           | Some (t, s') \<Rightarrow>
               (case number_event mem s t s' of
                  Done e \<Rightarrow> call hdl e s' h
                | Throw err \<Rightarrow> PThrow err h
                | Abort \<Rightarrow> PAbort))"

definition parseString :: "'h handler \<Rightarrow> bool \<Rightarrow> string \<Rightarrow> 'h \<Rightarrow> 'h presult" where
  "parseString hdl isKey s h =
     pbind (assertNext quote_char s h) (\<lambda>s h.
       case scanString [] s of
         Done (buf, s') \<Rightarrow> call hdl (if isKey then EKey buf else EString buf) s' h
       | Throw e \<Rightarrow> PThrow e h
       | Abort \<Rightarrow> PAbort)"

function parseValue :: "string \<Rightarrow> nat \<Rightarrow> 'h handler \<Rightarrow> string \<Rightarrow> 'h \<Rightarrow> 'h presult"
  and parseArray :: "string \<Rightarrow> nat \<Rightarrow> 'h handler \<Rightarrow> string \<Rightarrow> 'h \<Rightarrow> 'h presult"
  and parseElements :: "string \<Rightarrow> nat \<Rightarrow> 'h handler \<Rightarrow> string \<Rightarrow> 'h \<Rightarrow> 'h presult"
  and parseObject :: "string \<Rightarrow> nat \<Rightarrow> 'h handler \<Rightarrow> string \<Rightarrow> 'h \<Rightarrow> 'h presult"
  and parseMembers :: "string \<Rightarrow> nat \<Rightarrow> 'h handler \<Rightarrow> string \<Rightarrow> 'h \<Rightarrow> 'h presult" where
  "parseValue mem 0 hdl s h = PFuel"
| "parseValue mem (Suc n) hdl s h =
     (if \<not> hasNext s then PThrow PARSE_EXPECT_VALUE h
      else if peek s = CHR ''n'' then parseLiteral hdl ''null'' TYPE_NULL s h
      else if peek s = CHR ''t'' then parseLiteral hdl ''true'' TYPE_BOOL s h
      else if peek s = CHR ''f'' then parseLiteral hdl ''false'' TYPE_BOOL s h
      else if peek s = quote_char then parseString hdl False s h
      else if peek s = CHR ''['' then parseArray mem n hdl s h
      else if peek s = CHR ''{'' then parseObject mem n hdl s h
      else parseNumber mem hdl s h)"
| "parseArray mem 0 hdl s h = PFuel"
| "parseArray mem (Suc n) hdl s h =
     pbind (call hdl EStartArray s h) (\<lambda>s h.
     pbind (assertNext (CHR ''['') s h) (\<lambda>s h.
       let s = parseWhitespace s in
       if peek s = CHR '']'' then call hdl EEndArray (tl s) h
       else parseElements mem n hdl s h))"
| "parseElements mem 0 hdl s h = PFuel"
| "parseElements mem (Suc n) hdl s h =
     pbind (parseValue mem n hdl s h) (\<lambda>s h.
       let (c, s) = next_char (parseWhitespace s) in
       if c = CHR '','' then parseElements mem n hdl (parseWhitespace s) h
       else if c = CHR '']'' then call hdl EEndArray s h
       else PThrow PARSE_MISS_COMMA_OR_SQUARE_BRACKET h)"
| "parseObject mem 0 hdl s h = PFuel"
| "parseObject mem (Suc n) hdl s h =
     pbind (call hdl EStartObject s h) (\<lambda>s h.
     pbind (assertNext (CHR ''{'') s h) (\<lambda>s h.
       let s = parseWhitespace s in
       if peek s = CHR ''}'' then call hdl EEndObject (tl s) h
       else parseMembers mem n hdl s h))"
| "parseMembers mem 0 hdl s h = PFuel"
| "parseMembers mem (Suc n) hdl s h =
     (if peek s \<noteq> quote_char then PThrow PARSE_MISS_KEY h
      else pbind (parseString hdl True s h) (\<lambda>s h.
        let (c, s) = next_char (parseWhitespace s) in
        if c \<noteq> CHR '':'' then PThrow PARSE_MISS_COLON h
        else pbind (parseValue mem n hdl (parseWhitespace s) h) (\<lambda>s h.
          let (c, s) = next_char (parseWhitespace s) in
          if c = CHR '','' then parseMembers mem n hdl (parseWhitespace s) h
          else if c = CHR ''}'' then call hdl EEndObject s h
          else PThrow PARSE_MISS_COMMA_OR_CURLY_BRACKET h)))"
  by pat_completeness auto
termination
  by (relation "measure (\<lambda>x. case x of
        Inl (Inl (_, n, _)) \<Rightarrow> n
      | Inl (Inr (_, n, _)) \<Rightarrow> n
      | Inr (Inl (_, n, _)) \<Rightarrow> n
      | Inr (Inr (Inl (_, n, _))) \<Rightarrow> n
      | Inr (Inr (Inr (_, n, _))) \<Rightarrow> n)") auto

declare parseValue.simps(2) [simp del] parseArray.simps(2) [simp del]
  parseElements.simps(2) [simp del] parseObject.simps(2) [simp del] parseMembers.simps(2) [simp del]

lemmas parse_unfold = parseValue.simps(2) parseArray.simps(2) parseElements.simps(2)
  parseObject.simps(2) parseMembers.simps(2)

text \<open>\<open>Reader::parse\<close>: the error code and the handler as it was left; None is an abort.\<close>

definition fuel_of :: "string \<Rightarrow> nat" where
  "fuel_of s = 3 * length s + 3"

definition reader_run :: "string \<Rightarrow> nat \<Rightarrow> 'h handler \<Rightarrow> string \<Rightarrow> 'h \<Rightarrow> 'h presult" where
  "reader_run mem n hdl s h =
     pbind (parseValue mem n hdl (parseWhitespace s) h) (\<lambda>s h.
       let s = parseWhitespace s in
       if hasNext s then PThrow PARSE_ROOT_NOT_SINGULAR h else POk s h)"

definition reader_parse :: "string \<Rightarrow> 'h handler \<Rightarrow> string \<Rightarrow> 'h \<Rightarrow> (parse_error \<times> 'h) option" where
  "reader_parse mem hdl s h =
     (case reader_run mem (fuel_of s) hdl s h of
        POk _ h' \<Rightarrow> Some (PARSE_OK, h')
      | PThrow e h' \<Rightarrow> Some (e, h')
      | PAbort \<Rightarrow> None
      | PFuel \<Rightarrow> None)"

section \<open>Progress: every function consumes input\<close>

lemma pbind_cases:
  assumes "pbind m f = POk s' h'"
  obtains s h where "m = POk s h" "f s h = POk s' h'"
  using assms by (cases m) auto

lemma call_POk [simp]: "call hdl e s h = POk s' h' \<longleftrightarrow> s' = s \<and> hdl e h = HGo h'"
  by (auto simp: call_def split: answer.splits)

lemma assertNext_POk [simp]: "assertNext c s h = POk s' h' \<longleftrightarrow> peek s = c \<and> s' = tl s \<and> h' = h"
  by (auto simp: assertNext_def)

lemma match_literal_length: "match_literal l s = (l', s') \<Longrightarrow> length s' \<le> length s"
  by (induction l s arbitrary: l' s' rule: match_literal.induct) (auto split: if_splits intro: le_SucI)

lemma peek_tl_length: "peek s = c \<Longrightarrow> c \<noteq> nul_char \<Longrightarrow> length (tl s) < length s"
  by (cases s) auto

lemma parseLiteral_length:
  "parseLiteral hdl l t s h = POk s' h' \<Longrightarrow> hd l \<noteq> nul_char \<Longrightarrow> length s' < length s"
  by (auto simp: parseLiteral_def Let_def elim!: pbind_cases split: prod.splits if_splits value_type.splits
      dest!: match_literal_length peek_tl_length)

lemma parseString_length: "parseString hdl k s h = POk s' h' \<Longrightarrow> length s' < length s"
  by (auto simp: parseString_def elim!: pbind_cases split: outcome.splits
      dest!: scanString_length peek_tl_length)

lemma parseNumber_length: "parseNumber mem hdl s h = POk s' h' \<Longrightarrow> length s' < length s"
  by (auto simp: parseNumber_def split: if_splits option.splits outcome.splits
      dest: scanNumber_length parseLiteral_length)

text \<open>\<open>shrinks p\<close>: a successful run of the parsing function \<open>p\<close> leaves less input.\<close>

definition shrinks :: "(string \<Rightarrow> 'h \<Rightarrow> 'h presult) \<Rightarrow> bool" where
  "shrinks p \<longleftrightarrow> (\<forall>s h s' h'. p s h = POk s' h' \<longrightarrow> length s' < length s)"

lemma shrinksD: "shrinks p \<Longrightarrow> p s h = POk s' h' \<Longrightarrow> length s' < length s"
  by (auto simp: shrinks_def)

lemma ws_next_length: "next_char (parseWhitespace s) = (c, s') \<Longrightarrow> length s' \<le> length s"
  using parseWhitespace_length [of s] by (auto simp: next_char_eq)

lemma shrinks_step:
  assumes "shrinks p" "p s h = POk s' h'" "length s \<le> k"
  shows "length s' < k"
  using shrinksD [OF assms(1,2)] assms(3) by linarith

text \<open>What a successful run of each recursive function went through.\<close>

lemma parseArray_POk:
  assumes "parseArray mem (Suc n) hdl s h = POk s' h'"
  obtains h1 where "peek s = CHR ''[''" "hdl EStartArray h = HGo h1"
    "(peek (parseWhitespace (tl s)) = CHR '']'' \<and> s' = tl (parseWhitespace (tl s)) \<and>
        hdl EEndArray h1 = HGo h')
     \<or> parseElements mem n hdl (parseWhitespace (tl s)) h1 = POk s' h'"
  using assms unfolding parse_unfold Let_def
  by (elim pbind_cases) (auto split: if_splits)

lemma parseObject_POk:
  assumes "parseObject mem (Suc n) hdl s h = POk s' h'"
  obtains h1 where "peek s = CHR ''{''" "hdl EStartObject h = HGo h1"
    "(peek (parseWhitespace (tl s)) = CHR ''}'' \<and> s' = tl (parseWhitespace (tl s)) \<and>
        hdl EEndObject h1 = HGo h')
     \<or> parseMembers mem n hdl (parseWhitespace (tl s)) h1 = POk s' h'"
  using assms unfolding parse_unfold Let_def
  by (elim pbind_cases) (auto split: if_splits)

lemma parseElements_POk:
  assumes "parseElements mem (Suc n) hdl s h = POk s' h'"
  obtains s1 h1 c s2 where "parseValue mem n hdl s h = POk s1 h1"
    "next_char (parseWhitespace s1) = (c, s2)"
    "parseElements mem n hdl (parseWhitespace s2) h1 = POk s' h' \<or> s' = s2 \<and> hdl EEndArray h1 = HGo h'"
proof -
  from assms obtain s1 h1 where 1: "parseValue mem n hdl s h = POk s1 h1"
    and r: "(let (c, s) = next_char (parseWhitespace s1)
       in if c = CHR '','' then parseElements mem n hdl (parseWhitespace s) h1
          else if c = CHR '']'' then call hdl EEndArray s h1
          else PThrow PARSE_MISS_COMMA_OR_SQUARE_BRACKET h1) = POk s' h'"
    unfolding parse_unfold by (elim pbind_cases) simp
  obtain c s2 where "next_char (parseWhitespace s1) = (c, s2)"
    by (cases "next_char (parseWhitespace s1)")
  with 1 r that show ?thesis by (auto split: if_splits)
qed

lemma parseMembers_POk:
  assumes "parseMembers mem (Suc n) hdl s h = POk s' h'"
  obtains s1 h1 c s2 s3 h3 d s4 where "parseString hdl True s h = POk s1 h1"
    "next_char (parseWhitespace s1) = (c, s2)"
    "parseValue mem n hdl (parseWhitespace s2) h1 = POk s3 h3"
    "next_char (parseWhitespace s3) = (d, s4)"
    "parseMembers mem n hdl (parseWhitespace s4) h3 = POk s' h' \<or> s' = s4 \<and> hdl EEndObject h3 = HGo h'"
proof -
  let ?tail = "\<lambda>s3 h3. let (c, s) = next_char (parseWhitespace s3) in
          if c = CHR '','' then parseMembers mem n hdl (parseWhitespace s) h3
          else if c = CHR ''}'' then call hdl EEndObject s h3
          else PThrow PARSE_MISS_COMMA_OR_CURLY_BRACKET h3"
  from assms obtain s1 h1 where 1: "parseString hdl True s h = POk s1 h1"
    and r1: "(let (c, s) = next_char (parseWhitespace s1)
       in if c \<noteq> CHR '':'' then PThrow PARSE_MISS_COLON h1
          else pbind (parseValue mem n hdl (parseWhitespace s) h1) ?tail) = POk s' h'"
    unfolding parse_unfold by (auto elim!: pbind_cases split: if_splits)
  obtain c s2 where 2: "next_char (parseWhitespace s1) = (c, s2)"
    by (cases "next_char (parseWhitespace s1)")
  with r1 have "pbind (parseValue mem n hdl (parseWhitespace s2) h1) ?tail = POk s' h'"
    by (auto split: if_splits)
  then obtain s3 h3 where 3: "parseValue mem n hdl (parseWhitespace s2) h1 = POk s3 h3"
    and r3: "?tail s3 h3 = POk s' h'"
    by (elim pbind_cases)
  obtain d s4 where 4: "next_char (parseWhitespace s3) = (d, s4)"
    by (cases "next_char (parseWhitespace s3)")
  from r3 4 have "parseMembers mem n hdl (parseWhitespace s4) h3 = POk s' h' \<or>
      s' = s4 \<and> hdl EEndObject h3 = HGo h'"
    by (auto split: if_splits)
  with 1 2 3 4 show ?thesis by (rule that)
qed

lemma parse_shrinks:
  "shrinks (parseValue mem n hdl)" "shrinks (parseArray mem n hdl)" "shrinks (parseElements mem n hdl)"
  "shrinks (parseObject mem n hdl)" "shrinks (parseMembers mem n hdl)"
proof (induction n)
  case 0
  {
    case 1 show ?case by (simp add: shrinks_def)
  next
    case 2 show ?case by (simp add: shrinks_def)
  next
    case 3 show ?case by (simp add: shrinks_def)
  next
    case 4 show ?case by (simp add: shrinks_def)
  next
    case 5 show ?case by (simp add: shrinks_def)
  }
next
  case (Suc n)
  have ws: "length (parseWhitespace s) \<le> length s" for s by (rule parseWhitespace_length)
  have open_shrinks: "length s' < length s"
    if "peek s = c" "c \<noteq> nul_char" "shrinks p"
      "(Q \<and> s' = tl (parseWhitespace (tl s)) \<and> R) \<or> p (parseWhitespace (tl s)) h1 = POk s' h'"
    for p :: "string \<Rightarrow> 'a \<Rightarrow> 'a presult" and s s' c Q R h1 h'
  proof -
    from that(1,2) ws [of "tl s"] have "length (parseWhitespace (tl s)) < length s"
      by (cases s) auto
    with that(3,4) show ?thesis
      by (auto dest: shrinksD)
  qed
  {
    case 1
    show ?case
      by (auto simp: shrinks_def parse_unfold split: if_splits
          dest: parseLiteral_length parseString_length parseNumber_length
            shrinksD [OF Suc.IH(2)] shrinksD [OF Suc.IH(4)])
  next
    case 2
    show ?case
      unfolding shrinks_def
      by (intro allI impI, elim parseArray_POk) (rule open_shrinks [OF _ _ Suc.IH(3)], auto)
  next
    case 3
    show ?case
      unfolding shrinks_def
    proof (intro allI impI, elim parseElements_POk)
      fix s h s' h' s1 h1 c s2
      assume "parseValue mem n hdl s h = POk s1 h1" "next_char (parseWhitespace s1) = (c, s2)"
        "parseElements mem n hdl (parseWhitespace s2) h1 = POk s' h' \<or> s' = s2 \<and> hdl EEndArray h1 = HGo h'"
      then show "length s' < length s"
        using ws [of s2] by (auto dest!: shrinksD [OF Suc.IH(1)] shrinksD [OF Suc.IH(3)] ws_next_length)
    qed
  next
    case 4
    show ?case
      unfolding shrinks_def
      by (intro allI impI, elim parseObject_POk) (rule open_shrinks [OF _ _ Suc.IH(5)], auto)
  next
    case 5
    show ?case
      unfolding shrinks_def
    proof (intro allI impI, elim parseMembers_POk)
      fix s h s' h' s1 h1 c s2 s3 h3 d s4
      assume "parseString hdl True s h = POk s1 h1" "next_char (parseWhitespace s1) = (c, s2)"
        "parseValue mem n hdl (parseWhitespace s2) h1 = POk s3 h3"
        "next_char (parseWhitespace s3) = (d, s4)"
        "parseMembers mem n hdl (parseWhitespace s4) h3 = POk s' h' \<or> s' = s4 \<and> hdl EEndObject h3 = HGo h'"
      then show "length s' < length s"
        using ws [of s2] ws [of s4]
        by (auto dest!: parseString_length shrinksD [OF Suc.IH(1)] shrinksD [OF Suc.IH(5)] ws_next_length)
    qed
  }
qed

section \<open>Fuel\<close>

text \<open>\<open>fuel_le r r'\<close>: \<open>r'\<close> is \<open>r\<close>, or \<open>r\<close> ran out of fuel.\<close>

definition fuel_le :: "'h presult \<Rightarrow> 'h presult \<Rightarrow> bool" where
  "fuel_le r r' \<longleftrightarrow> r = PFuel \<or> r' = r"

lemma fuel_le_refl [simp, intro]: "fuel_le r r"
  and fuel_le_PFuel [simp, intro]: "fuel_le PFuel r"
  by (simp_all add: fuel_le_def)

lemma fuel_le_trans: "fuel_le a b \<Longrightarrow> fuel_le b c \<Longrightarrow> fuel_le a c"
  by (auto simp: fuel_le_def)

lemma fuel_le_pbind [intro]:
  "fuel_le m m' \<Longrightarrow> (\<And>s h. fuel_le (f s h) (f' s h)) \<Longrightarrow> fuel_le (pbind m f) (pbind m' f')"
  by (cases m) (auto simp: fuel_le_def)

lemma fuel_mono_step:
  "fuel_le (parseValue mem n hdl s h) (parseValue mem (Suc n) hdl s h)"
  "fuel_le (parseArray mem n hdl s h) (parseArray mem (Suc n) hdl s h)"
  "fuel_le (parseElements mem n hdl s h) (parseElements mem (Suc n) hdl s h)"
  "fuel_le (parseObject mem n hdl s h) (parseObject mem (Suc n) hdl s h)"
  "fuel_le (parseMembers mem n hdl s h) (parseMembers mem (Suc n) hdl s h)"
proof (induction n arbitrary: s h)
  case (Suc n)
  {
    case 1 show ?case
      by (subst (1 2) parseValue.simps(2)) (auto intro: Suc.IH)
  next
    case 2 show ?case
      by (subst (1 2) parseArray.simps(2)) (auto simp: Let_def intro!: fuel_le_pbind Suc.IH)
  next
    case 3 show ?case
      by (subst (1 2) parseElements.simps(2))
        (auto simp: Let_def intro!: fuel_le_pbind Suc.IH split: prod.splits)
  next
    case 4 show ?case
      by (subst (1 2) parseObject.simps(2)) (auto simp: Let_def intro!: fuel_le_pbind Suc.IH)
  next
    case 5 show ?case
      by (subst (1 2) parseMembers.simps(2))
        (auto simp: Let_def intro!: fuel_le_pbind Suc.IH split: prod.splits)
  }
qed simp_all

lemma fuel_mono: "n \<le> k \<Longrightarrow> fuel_le (parseValue mem n hdl s h) (parseValue mem k hdl s h)"
  by (induction k) (auto simp: le_Suc_eq intro: fuel_mono_step fuel_le_trans)

lemma pbind_not_fuel:
  assumes "m \<noteq> PFuel" "\<And>s h. m = POk s h \<Longrightarrow> f s h \<noteq> PFuel"
  shows "pbind m f \<noteq> PFuel"
  using assms by (cases m) auto

lemma pbind_PFuel: "pbind m f = PFuel \<longleftrightarrow> m = PFuel \<or> (\<exists>s h. m = POk s h \<and> f s h = PFuel)"
  by (cases m) auto

lemma scalar_not_fuel [simp]:
  "call hdl e s h \<noteq> PFuel" "assertNext c s h \<noteq> PFuel"
  by (auto simp: call_def assertNext_def split: answer.splits)

lemma lexer_not_fuel [simp]:
  "parseLiteral hdl l t s h \<noteq> PFuel" "parseString hdl k s h \<noteq> PFuel" "parseNumber mem hdl s h \<noteq> PFuel"
proof -
  show lit: "parseLiteral hdl l t s h \<noteq> PFuel" for l t
    by (auto simp: parseLiteral_def Let_def pbind_PFuel split: prod.splits value_type.splits if_splits)
  show "parseString hdl k s h \<noteq> PFuel"
    by (auto simp: parseString_def pbind_PFuel split: outcome.splits if_splits)
  show "parseNumber mem hdl s h \<noteq> PFuel"
    using lit by (auto simp: parseNumber_def split: option.splits outcome.splits)
qed

lemma fuel_suffices:
  "3 * length s + 1 \<le> n \<Longrightarrow> parseValue mem n hdl s h \<noteq> PFuel"
  "s \<noteq> [] \<Longrightarrow> 3 * length s \<le> n \<Longrightarrow> parseArray mem n hdl s h \<noteq> PFuel"
  "3 * length s + 2 \<le> n \<Longrightarrow> parseElements mem n hdl s h \<noteq> PFuel"
  "s \<noteq> [] \<Longrightarrow> 3 * length s \<le> n \<Longrightarrow> parseObject mem n hdl s h \<noteq> PFuel"
  "3 * length s + 2 \<le> n \<Longrightarrow> parseMembers mem n hdl s h \<noteq> PFuel"
proof (induction n arbitrary: s h)
  case (Suc n)
  have ws: "length (parseWhitespace s) \<le> length s" for s by (rule parseWhitespace_length)
  {
    case 1
    then show ?case
      by (auto simp: parse_unfold hasNext_def dest: Suc.IH(2) [rotated 2] Suc.IH(4) [rotated 2])
  next
    case 2
    show ?case
      unfolding parse_unfold Let_def
    proof (intro pbind_not_fuel)
      fix s1 h1 s2 h2
      assume "call hdl EStartArray s h = POk s1 h1" "assertNext (CHR ''['') s1 h1 = POk s2 h2"
      then have "s2 = tl s" by simp
      then have "3 * length (parseWhitespace s2) + 2 \<le> n"
        using 2 ws [of s2] by (cases s) auto
      then show "(if peek (parseWhitespace s2) = CHR '']''
          then call hdl EEndArray (tl (parseWhitespace s2)) h2
          else parseElements mem n hdl (parseWhitespace s2) h2) \<noteq> PFuel"
        using Suc.IH(3) by simp
    qed simp_all
  next
    case 3
    show ?case
      unfolding parse_unfold
    proof (intro pbind_not_fuel)
      show "parseValue mem n hdl s h \<noteq> PFuel"
        using 3 by (intro Suc.IH(1)) simp
      fix s1 h1
      assume "parseValue mem n hdl s h = POk s1 h1"
      then have "length s1 < length s" by (rule shrinksD [OF parse_shrinks(1)])
      moreover obtain c s2 where cs: "next_char (parseWhitespace s1) = (c, s2)"
        by (cases "next_char (parseWhitespace s1)")
      moreover from cs have "length s2 \<le> length s1" by (rule ws_next_length)
      ultimately have "3 * length (parseWhitespace s2) + 2 \<le> n"
        using 3 ws [of s2] by linarith
      then show "(let (c, s) = next_char (parseWhitespace s1)
          in if c = CHR '','' then parseElements mem n hdl (parseWhitespace s) h1
             else if c = CHR '']'' then call hdl EEndArray s h1
             else PThrow PARSE_MISS_COMMA_OR_SQUARE_BRACKET h1) \<noteq> PFuel"
        using Suc.IH(3) cs by simp
    qed
  next
    case 4
    show ?case
      unfolding parse_unfold Let_def
    proof (intro pbind_not_fuel)
      fix s1 h1 s2 h2
      assume "call hdl EStartObject s h = POk s1 h1" "assertNext (CHR ''{'') s1 h1 = POk s2 h2"
      then have "s2 = tl s" by simp
      then have "3 * length (parseWhitespace s2) + 2 \<le> n"
        using 4 ws [of s2] by (cases s) auto
      then show "(if peek (parseWhitespace s2) = CHR ''}''
          then call hdl EEndObject (tl (parseWhitespace s2)) h2
          else parseMembers mem n hdl (parseWhitespace s2) h2) \<noteq> PFuel"
        using Suc.IH(5) by simp
    qed simp_all
  next
    case 5
    have key: "pbind (parseString hdl True s h) f \<noteq> PFuel"
      if "\<And>s1 h1. length s1 < length s \<Longrightarrow> f s1 h1 \<noteq> PFuel" for f
      using that by (intro pbind_not_fuel) (auto dest: parseString_length)
    have rest: "pbind (parseValue mem n hdl (parseWhitespace s2) h1) f \<noteq> PFuel"
      if "length s2 < length s" and "\<And>s3 h3. length s3 < length s \<Longrightarrow> f s3 h3 \<noteq> PFuel" for s2 h1 f
    proof (intro pbind_not_fuel)
      show "parseValue mem n hdl (parseWhitespace s2) h1 \<noteq> PFuel"
        using 5 ws [of s2] that(1) by (intro Suc.IH(1)) linarith
      fix s3 h3
      assume "parseValue mem n hdl (parseWhitespace s2) h1 = POk s3 h3"
      then have "length s3 < length s2"
        by (rule shrinks_step [OF parse_shrinks(1) _ ws])
      then show "f s3 h3 \<noteq> PFuel" using that by simp
    qed
    have loop: "parseMembers mem n hdl (parseWhitespace s4) h3 \<noteq> PFuel" if "length s4 < length s" for s4 h3
      using 5 ws [of s4] that by (intro Suc.IH(5)) linarith
    have tail: "(let (c, s) = next_char (parseWhitespace s3) in
          if c = CHR '','' then parseMembers mem n hdl (parseWhitespace s) h3
          else if c = CHR ''}'' then call hdl EEndObject s h3
          else PThrow PARSE_MISS_COMMA_OR_CURLY_BRACKET h3) \<noteq> PFuel"
      if "length s3 < length s" for s3 h3
    proof -
      obtain d s4 where d: "next_char (parseWhitespace s3) = (d, s4)"
        by (cases "next_char (parseWhitespace s3)")
      with that have "length s4 < length s"
        by (auto dest: ws_next_length)
      with d loop show ?thesis by simp
    qed
    show ?case
      unfolding parse_unfold
    proof (split if_split, intro conjI impI key)
      fix s1 :: string and h1
      assume s1: "length s1 < length s"
      obtain c s2 where c: "next_char (parseWhitespace s1) = (c, s2)"
        by (cases "next_char (parseWhitespace s1)")
      with s1 have "length s2 < length s"
        by (auto dest: ws_next_length)
      then have F: "pbind (parseValue mem n hdl (parseWhitespace s2) h1) (\<lambda>s h.
               let (c, s) = next_char (parseWhitespace s) in
               if c = CHR '','' then parseMembers mem n hdl (parseWhitespace s) h
               else if c = CHR ''}'' then call hdl EEndObject s h
               else PThrow PARSE_MISS_COMMA_OR_CURLY_BRACKET h) \<noteq> PFuel"
        by (rule rest) (rule tail)
      show "(let (c, s) = next_char (parseWhitespace s1)
          in if c \<noteq> CHR '':'' then PThrow PARSE_MISS_COLON h1
             else pbind (parseValue mem n hdl (parseWhitespace s) h1) (\<lambda>s h.
               let (c, s) = next_char (parseWhitespace s) in
               if c = CHR '','' then parseMembers mem n hdl (parseWhitespace s) h
               else if c = CHR ''}'' then call hdl EEndObject s h
               else PThrow PARSE_MISS_COMMA_OR_CURLY_BRACKET h)) \<noteq> PFuel"
        using F unfolding c Let_def prod.case by (cases "c = CHR '':''") (simp_all only: simp_thms if_True if_False presult.distinct)
    qed simp
  }
qed simp_all

text \<open>\<open>Reader::parse\<close> always returns or aborts: its fuel never runs out.\<close>

lemma reader_run_not_fuel: "reader_run mem (fuel_of s) hdl s h \<noteq> PFuel"
proof -
  have "parseValue mem (fuel_of s) hdl (parseWhitespace s) h \<noteq> PFuel"
    using parseWhitespace_length [of s] by (intro fuel_suffices) (simp add: fuel_of_def)
  then show ?thesis
    by (auto simp: reader_run_def Let_def pbind_PFuel split: if_splits)
qed

text \<open>A run that ends with some fuel ends the same way with the fuel \<open>reader_parse\<close> gives.\<close>

lemma reader_run_any_fuel:
  assumes "reader_run mem n hdl s h = r" "r \<noteq> PFuel"
  shows "reader_run mem (fuel_of s) hdl s h = r"
proof -
  have le: "fuel_le (reader_run mem m hdl s h) (reader_run mem k hdl s h)" if "m \<le> k" for m k
    using that by (auto simp: reader_run_def Let_def intro!: fuel_le_pbind fuel_mono)
  show ?thesis
    using le [of n "max n (fuel_of s)"] le [of "fuel_of s" "max n (fuel_of s)"]
      reader_run_not_fuel [of mem s hdl h] assms
    by (auto simp: fuel_le_def)
qed

section \<open>What is behind the view\<close>

text \<open>
  \<open>number_stop mem\<close>: the memory behind the view does not go on with a number. It is so for the NUL
  of a string. Then \<open>strtod\<close> and \<open>strtol\<close> stop where the scan stopped; they also do when the scan
  stopped before the end of the view.
\<close>

definition number_stop :: "string \<Rightarrow> bool" where
  "number_stop mem \<longleftrightarrow> \<not> is_digit (peek mem) \<and> peek mem \<notin> {CHR ''.'', CHR ''e'', CHR ''E''}"

lemma number_stop_Nil [simp]: "number_stop []"
  by (simp add: number_stop_def is_digit_def byte_of_def)

lemma peek_behind: "s \<noteq> [] \<or> number_stop mem \<Longrightarrow> c \<in> {CHR ''.'', CHR ''e'', CHR ''E''} \<Longrightarrow>
    peek (s @ mem) = c \<longleftrightarrow> peek s = c"
  by (cases s) (auto simp: number_stop_def)

lemma peek_before [simp]: "is_digit (peek s) \<Longrightarrow> s \<noteq> []"
  by (auto simp: is_digit_def byte_of_def)

lemma digits_behind:
  assumes "dropWhile is_digit s \<noteq> [] \<or> number_stop mem"
  shows "dropWhile is_digit (s @ mem) = dropWhile is_digit s @ mem"
  using assms by (induction s) (cases mem; auto simp: number_stop_def)+

lemma scan_int_behind:
  assumes "scan_int s = Some s1" "s1 \<noteq> [] \<or> number_stop mem"
  shows "dropWhile is_digit (s @ mem) = s1 @ mem"
proof (cases s)
  case (Cons c s')
  then show ?thesis
    using assms digits_behind [of s' mem]
    by (cases s'; cases mem) (auto simp: scan_int_def number_stop_def isDigit19_def is_digit_def byte_of_def split: if_splits)
qed (use assms in \<open>simp add: scan_int_def isDigit19_def byte_of_def\<close>)

lemma scan_frac_behind:
  assumes "scan_frac (t, s) = Some (t', s')" "s' \<noteq> [] \<or> number_stop mem"
  shows "strtod_frac (s @ mem) = s' @ mem"
    and "s \<noteq> [] \<or> number_stop mem"
proof -
  show s: "s \<noteq> [] \<or> number_stop mem"
    using assms by (auto simp: scan_frac_def split: if_splits)
  show "strtod_frac (s @ mem) = s' @ mem"
  proof (cases "peek s = CHR ''.''")
    case True
    with assms(1) obtain c s2 where c: "s = CHR ''.'' # c # s2" "is_digit c" "s' = dropWhile is_digit s2"
      by (cases s; cases "tl s") (auto simp: scan_frac_def is_digit_def byte_of_def split: if_splits)
    with digits_behind [of s2 mem] assms(2) show ?thesis by (simp add: strtod_frac_def)
  next
    case False
    with assms(1) peek_behind [OF s] show ?thesis by (auto simp: scan_frac_def strtod_frac_def)
  qed
qed

lemma scan_exp_behind:
  assumes "scan_exp (t, s) = Some (t', s')" "s' \<noteq> [] \<or> number_stop mem"
  shows "strtod_exp (s @ mem) = s' @ mem"
    and "s \<noteq> [] \<or> number_stop mem"
proof -
  show s: "s \<noteq> [] \<or> number_stop mem"
    using assms by (auto simp: scan_exp_def Let_def split: if_splits)
  show "strtod_exp (s @ mem) = s' @ mem"
  proof (cases "peek s = CHR ''e'' \<or> peek s = CHR ''E''")
    case True
    define e2 where "e2 = (if peek (tl s) = CHR ''+'' \<or> peek (tl s) = CHR ''-'' then tl (tl s) else tl s)"
    from True assms(1) have e: "is_digit (peek e2)" "s' = dropWhile is_digit (tl e2)"
      by (auto simp: scan_exp_def e2_def Let_def split: if_splits)
    obtain d e3 where d: "e2 = d # e3" using peek_before [OF e(1)] by (cases e2) auto
    then have "tl s \<noteq> []" "s \<noteq> []" by (auto simp: e2_def split: if_splits)
    then have "(if peek (tl (s @ mem)) = CHR ''+'' \<or> peek (tl (s @ mem)) = CHR ''-''
        then tl (tl (s @ mem)) else tl (s @ mem)) = e2 @ mem" "peek (s @ mem) = peek s"
      by (cases s; cases "tl s"; simp add: e2_def)+
    moreover have "dropWhile is_digit (e2 @ mem) = s' @ mem"
      using e d digits_behind [of e3 mem] assms(2) by simp
    ultimately show ?thesis using True e(1) d by (simp add: strtod_exp_def Let_def)
  next
    case False
    with assms(1) peek_behind [OF s] show ?thesis by (auto simp: scan_exp_def strtod_exp_def Let_def)
  qed
qed

lemma scan_suffix_nonempty:
  assumes "scan_suffix (t, s) = Some (t', s')" "s' \<noteq> [] \<or> number_stop mem"
  shows "s \<noteq> [] \<or> number_stop mem" and "t' = TYPE_DOUBLE \<Longrightarrow> s' = s"
  using assms by (auto simp: scan_suffix_def Let_def split: if_splits prod.splits)

lemma scan_int_nonempty: "scan_int s = Some s1 \<Longrightarrow> s \<noteq> []"
  by (auto simp: scan_int_def isDigit19_def byte_of_def)

lemma digits_taken:
  assumes "dropWhile is_digit (s @ mem) = s1 @ mem" "dropWhile is_digit s = s1"
  shows "takeWhile is_digit (s @ mem) = takeWhile is_digit s"
proof -
  have "takeWhile is_digit (s @ mem) @ s1 @ mem = takeWhile is_digit s @ s1 @ mem"
    using takeWhile_dropWhile_id [of is_digit "s @ mem"] takeWhile_dropWhile_id [of is_digit s] assms
    by (metis append_assoc)
  then show ?thesis by simp
qed

lemma scanNumber_behind:
  assumes "scanNumber start = Some (t, s')" "s' \<noteq> [] \<or> number_stop mem"
  shows "t = TYPE_DOUBLE \<Longrightarrow> strtod_rest (start @ mem) = s' @ mem"
    and "strtol (start @ mem) = strtol start"
proof -
  let ?s = "if peek start = CHR ''-'' then tl start else start"
  from assms(1) obtain s1 t2 s2 t3 s3 where
    1: "scan_int ?s = Some s1" and 2: "scan_frac (TYPE_NULL, s1) = Some (t2, s2)" and
    3: "scan_exp (t2, s2) = Some (t3, s3)" and 4: "scan_suffix (t3, s3) = Some (t, s')"
    by (auto simp: scanNumber_def split: Option.bind_splits if_splits)
  note n3 = scan_suffix_nonempty [OF 4 assms(2)]
  note n2 = scan_exp_behind [OF 3 n3(1)]
  note n1 = scan_frac_behind [OF 2 n2(2)]
  note n0 = scan_int_behind [OF 1 n1(2)]
  have "start \<noteq> []" using scan_int_nonempty [OF 1] by auto
  then have sgn: "(if peek (start @ mem) = CHR ''-'' then tl (start @ mem) else start @ mem) = ?s @ mem"
    "peek (start @ mem) = peek start"
    by (cases start; simp)+
  show "strtod_rest (start @ mem) = s' @ mem" if "t = TYPE_DOUBLE"
    by (simp only: strtod_rest_def sgn(1) n0 n1(1) n2(1) n3(2) [OF that])
  have "takeWhile is_digit (?s @ mem) = takeWhile is_digit ?s"
    by (rule digits_taken [OF n0 scan_int_behind [OF 1, of "[]", simplified]])
  then show "strtol (start @ mem) = strtol start"
    using \<open>start \<noteq> []\<close> by (cases start) (simp_all add: strtol_def Let_def split: if_split_asm)
qed

lemma number_event_behind:
  assumes "scanNumber start = Some (t, s')" "s' \<noteq> [] \<or> number_stop mem"
  shows "number_event mem start t s' = number_event [] start t s'"
proof -
  note b = scanNumber_behind [OF assms] scanNumber_behind [OF assms(1), of "[]"]
  have "t = TYPE_DOUBLE \<Longrightarrow> strtod_extent (start @ mem) = length start - length s' \<and>
      strtod_extent start = length start - length s'"
    using b by (simp add: strtod_extent_def)
  then show ?thesis using b by (simp add: number_event_def)
qed

text \<open>So \<open>strtod\<close> reads exactly the lexeme, and the assert holds.\<close>

lemma number_event_lexeme:
  assumes "scanNumber start = Some (TYPE_DOUBLE, s')"
  shows "number_event [] start TYPE_DOUBLE s' =
    (let (d, erange) = strtod (take (length start - length s') start)
     in if erange then Throw PARSE_NUMBER_TOO_BIG else Done (EDouble d))"
  using scanNumber_behind [OF assms, of "[]"]
  by (simp add: number_event_def strtod_extent_def split: prod.splits)

lemma number_event_not_Abort:
  assumes "scanNumber start = Some (t, s')"
  shows "number_event [] start t s' \<noteq> Abort"
  using assms number_event_lexeme [of start s']
  by (cases "t = TYPE_DOUBLE") (auto simp: number_event_def Let_def split: prod.splits)

lemma number_event_not_ok: "number_event mem start t s' \<noteq> Throw PARSE_OK"
  by (auto simp: number_event_def Let_def split: prod.splits)

text \<open>
  \<open>number_ends mem s\<close>: no number at the end of the view \<open>s\<close> goes on behind it, because the memory
  does not continue it or because the view ends in a line feed. What is left of a view while it is
  parsed keeps the property.
\<close>

definition number_ends :: "string \<Rightarrow> string \<Rightarrow> bool" where
  "number_ends mem s \<longleftrightarrow> number_stop mem \<or> s = [] \<or> last s = lf_char"

lemma number_ends_tl [simp, intro]: "number_ends mem s \<Longrightarrow> number_ends mem (tl s)"
  by (cases s) (auto simp: number_ends_def split: if_splits)

lemma number_ends_dropWhile [simp, intro]: "number_ends mem s \<Longrightarrow> number_ends mem (dropWhile P s)"
  by (induction s) (auto simp: number_ends_def split: if_splits)

lemma number_ends_ws [simp, intro]: "number_ends mem s \<Longrightarrow> number_ends mem (parseWhitespace s)"
  by (induction s) (auto simp: number_ends_def split: if_splits)

lemma number_ends_next: "next_char s = (c, s') \<Longrightarrow> number_ends mem s \<Longrightarrow> number_ends mem s'"
  by (auto simp: next_char_eq)

lemma parseHex_ends: "parseHex n u s = Done (v, s') \<Longrightarrow> number_ends mem s \<Longrightarrow> number_ends mem s'"
  by (induction n u s rule: parseHex.induct) (fastforce simp: next_char_eq split: option.splits)+

lemma parseEscape_ends: "parseEscape s = Done (bs, s') \<Longrightarrow> number_ends mem s \<Longrightarrow> number_ends mem s'"
  by (fastforce simp: parseEscape_def parseUnicode_def parseHex4_def next_char_eq split: if_splits
      dest: parseHex_ends)

lemma scanString_ends: "scanString buf s = Done (r, s') \<Longrightarrow> number_ends mem s \<Longrightarrow> number_ends mem s'"
proof (induction buf s rule: scanString.induct)
  case (2 buf c s)
  from number_ends_tl [OF "2.prems"(2)] have "number_ends mem s" by simp
  with 2 show ?case
    by (fastforce split: if_splits outcome.splits dest: parseEscape_ends)
qed simp

lemma scanNumber_ends:
  assumes "scanNumber start = Some (t, s')" "number_ends mem start"
  shows "number_ends mem s'"
proof -
  from assms(1) obtain s1 t2 s2 t3 s3 where
    1: "scan_int (if peek start = CHR ''-'' then tl start else start) = Some s1" and
    2: "scan_frac (TYPE_NULL, s1) = Some (t2, s2)" and
    3: "scan_exp (t2, s2) = Some (t3, s3)" and 4: "scan_suffix (t3, s3) = Some (t, s')"
    by (auto simp: scanNumber_def split: Option.bind_splits if_splits)
  from 1 assms(2) have "number_ends mem s1" by (auto simp: scan_int_def split: if_splits)
  with 2 have "number_ends mem s2" by (auto simp: scan_frac_def split: if_splits)
  with 3 have "number_ends mem s3" by (auto simp: scan_exp_def Let_def split: if_splits)
  with 4 show ?thesis by (auto simp: scan_suffix_def Let_def next_char_eq split: if_splits)
qed

lemma match_literal_ends:
  "match_literal l s = (l', s') \<Longrightarrow> number_ends mem s \<Longrightarrow> number_ends mem s'"
proof (induction l s rule: match_literal.induct)
  case (1 l ls c s)
  from number_ends_tl [OF "1.prems"(2)] have "number_ends mem s" by simp
  with 1 show ?case by (auto split: if_splits)
qed auto

lemma lexer_ends:
  "parseLiteral hdl l t s h = POk s' h' \<Longrightarrow> number_ends mem s \<Longrightarrow> number_ends mem s'"
  "parseString hdl k s h = POk s' h' \<Longrightarrow> number_ends mem s \<Longrightarrow> number_ends mem s'"
  "parseNumber mem' hdl s h = POk s' h' \<Longrightarrow> number_ends mem s \<Longrightarrow> number_ends mem s'"
proof -
  show lit: "parseLiteral hdl l t s h = POk s' h' \<Longrightarrow> number_ends mem s \<Longrightarrow> number_ends mem s'" for l t
    by (auto simp: parseLiteral_def Let_def elim!: pbind_cases split: prod.splits if_splits value_type.splits
        dest: match_literal_ends [OF _ number_ends_tl])
  show "parseString hdl k s h = POk s' h' \<Longrightarrow> number_ends mem s \<Longrightarrow> number_ends mem s'"
    using scanString_ends [of "[]" "tl s" _ s' mem]
    by (auto simp: parseString_def elim!: pbind_cases split: outcome.splits)
  show "parseNumber mem' hdl s h = POk s' h' \<Longrightarrow> number_ends mem s \<Longrightarrow> number_ends mem s'"
    by (auto simp: parseNumber_def split: if_splits option.splits outcome.splits dest: lit scanNumber_ends)
qed

lemma parse_ends:
  "parseValue mem' n hdl s h = POk s' h' \<Longrightarrow> number_ends mem s \<Longrightarrow> number_ends mem s'"
  "parseArray mem' n hdl s h = POk s' h' \<Longrightarrow> number_ends mem s \<Longrightarrow> number_ends mem s'"
  "parseElements mem' n hdl s h = POk s' h' \<Longrightarrow> number_ends mem s \<Longrightarrow> number_ends mem s'"
  "parseObject mem' n hdl s h = POk s' h' \<Longrightarrow> number_ends mem s \<Longrightarrow> number_ends mem s'"
  "parseMembers mem' n hdl s h = POk s' h' \<Longrightarrow> number_ends mem s \<Longrightarrow> number_ends mem s'"
proof (induction n arbitrary: s h s' h')
  case (Suc n)
  {
    case 1 then show ?case
      by (auto simp: parse_unfold split: if_splits dest: lexer_ends Suc.IH(2) Suc.IH(4))
  next
    case 2 then show ?case
      by (elim parseArray_POk) (auto dest: Suc.IH(3))
  next
    case 3 then show ?case
      by (elim parseElements_POk) (auto dest!: Suc.IH(1) number_ends_next dest: Suc.IH(3))
  next
    case 4 then show ?case
      by (elim parseObject_POk) (auto dest: Suc.IH(5))
  next
    case 5 then show ?case
      by (elim parseMembers_POk) (auto dest!: Suc.IH(1) lexer_ends(2) number_ends_next dest: Suc.IH(5))
  }
qed simp_all

text \<open>Then the number lexed last did not reach the end of the view, or the memory does not go on with it.\<close>

definition lf_ended :: "string \<Rightarrow> bool" where
  "lf_ended s \<longleftrightarrow> s \<noteq> [] \<and> last s = lf_char"

lemma lf_ended_tl: "lf_ended s \<Longrightarrow> peek s \<noteq> lf_char \<Longrightarrow> lf_ended (tl s)"
  by (cases s) (auto simp: lf_ended_def split: if_split_asm)

lemma lf_ended_digits: "lf_ended s \<Longrightarrow> lf_ended (dropWhile is_digit s)"
  by (induction s) (auto simp: lf_ended_def is_digit_def byte_of_def split: if_split_asm)

lemma digit_not_lf: "is_digit c \<Longrightarrow> c \<noteq> lf_char" "isDigit19 c \<Longrightarrow> c \<noteq> lf_char"
  by (auto simp: is_digit_def isDigit19_def byte_of_def)

lemma scanNumber_lf:
  assumes "scanNumber start = Some (t, s')" "number_ends mem start"
  shows "s' \<noteq> [] \<or> number_stop mem"
proof (rule ccontr)
  assume c: "\<not> ?thesis"
  from assms(1) obtain s1 t2 s2 t3 s3 where
    1: "scan_int (if peek start = CHR ''-'' then tl start else start) = Some s1" and
    2: "scan_frac (TYPE_NULL, s1) = Some (t2, s2)" and
    3: "scan_exp (t2, s2) = Some (t3, s3)" and 4: "scan_suffix (t3, s3) = Some (t, s')"
    by (auto simp: scanNumber_def split: Option.bind_splits if_splits)
  have "start \<noteq> []" using scan_int_nonempty [OF 1] by auto
  with c assms(2) have "lf_ended start" by (auto simp: number_ends_def lf_ended_def)
  then have "lf_ended (if peek start = CHR ''-'' then tl start else start)"
    using lf_ended_tl [of start] by auto
  then have "lf_ended s1"
    using 1 by (auto simp: scan_int_def dest: digit_not_lf intro!: lf_ended_tl lf_ended_digits split: if_split_asm)
  then have "lf_ended s2"
    using 2 by (auto simp: scan_frac_def dest: digit_not_lf intro!: lf_ended_tl lf_ended_digits split: if_split_asm)
  then have "lf_ended s3"
    using 3 by (auto simp: scan_exp_def Let_def dest: digit_not_lf intro!: lf_ended_tl lf_ended_digits split: if_split_asm)
  then have "lf_ended s'"
    using 4 by (auto simp: scan_suffix_def Let_def next_char_eq intro!: lf_ended_tl split: if_split_asm)
  with c show False by (simp add: lf_ended_def)
qed

lemma number_event_ends:
  "scanNumber s = Some (t, s') \<Longrightarrow> number_ends mem s \<Longrightarrow> number_event mem s t s' = number_event [] s t s'"
  using number_event_behind scanNumber_lf by blast

lemma pbind_behind:
  "m = m' \<Longrightarrow> (\<And>s h. m' = POk s h \<Longrightarrow> f s h = f' s h) \<Longrightarrow> pbind m f = pbind m' f'"
  by (cases m') auto

lemma parseNumber_behind: "number_ends mem s \<Longrightarrow> parseNumber mem hdl s h = parseNumber [] hdl s h"
  by (cases "scanNumber s") (auto simp: parseNumber_def number_event_ends [of s _ _ mem])

lemma parse_behind:
  "number_ends mem s \<Longrightarrow> parseValue mem n hdl s h = parseValue [] n hdl s h"
  "number_ends mem s \<Longrightarrow> parseArray mem n hdl s h = parseArray [] n hdl s h"
  "number_ends mem s \<Longrightarrow> parseElements mem n hdl s h = parseElements [] n hdl s h"
  "number_ends mem s \<Longrightarrow> parseObject mem n hdl s h = parseObject [] n hdl s h"
  "number_ends mem s \<Longrightarrow> parseMembers mem n hdl s h = parseMembers [] n hdl s h"
proof (induction n arbitrary: s h)
  case (Suc n)
  have nxt: "number_ends mem (snd (next_char (parseWhitespace s)))" if "number_ends mem s" for s
    using that by (simp add: next_char_eq)
  {
    case 1 then show ?case
      by (simp add: parse_unfold parseNumber_behind [of mem] Suc.IH)
  next
    case 2 then show ?case
      by (auto simp: parse_unfold Let_def Suc.IH intro!: pbind_behind)
  next
    case 3 then show ?case
      by (auto simp: parse_unfold Let_def next_char_eq Suc.IH parse_ends(1) intro!: pbind_behind)
  next
    case 4 then show ?case
      by (auto simp: parse_unfold Let_def Suc.IH intro!: pbind_behind)
  next
    case 5 then show ?case
      by (auto simp: parse_unfold Let_def next_char_eq Suc.IH parse_ends(1) lexer_ends(2) intro!: pbind_behind)
  }
qed simp_all

lemma reader_behind:
  assumes "number_ends mem s"
  shows "reader_run mem n hdl s h = reader_run [] n hdl s h"
    and "reader_parse mem hdl s h = reader_parse [] hdl s h"
  using assms by (simp_all add: reader_parse_def reader_run_def parse_behind(1) [of mem])

section \<open>The reader's asserts\<close>

text \<open>
  The asserts of the reader itself never fail: \<open>assertNext\<close> is called where \<open>peek\<close> was just
  tested, and the code points it encodes are within Unicode.
\<close>

lemma parseHex_bound: "parseHex n u s = Done (v, s') \<Longrightarrow> v < (u + 1) * 16 ^ n"
proof (induction n u s rule: parseHex.induct)
  case (2 n u s)
  obtain c s1 where c: "next_char s = (c, s1)" by (cases "next_char s")
  with 2 obtain d where d: "hex_value c = Some d" "parseHex n (16 * u + d) s1 = Done (v, s')"
    by (auto split: option.splits)
  from d(1) have "d < 16" by (auto simp: hex_value_def Let_def split: if_splits)
  then have "16 * u + d + 1 \<le> (u + 1) * 16" by simp
  then have "(16 * u + d + 1) * 16 ^ n \<le> (u + 1) * 16 * 16 ^ n" by (rule mult_right_mono) simp
  then have "(16 * u + d + 1) * 16 ^ n \<le> (u + 1) * 16 ^ Suc n" by (simp only: power_Suc mult.assoc)
  moreover have "v < (16 * u + d + 1) * 16 ^ n"
    using "2.IH" [OF c [symmetric] refl d] by simp
  ultimately show ?case by linarith
qed simp

lemma parseHex_not_Abort: "parseHex n u s \<noteq> Abort"
  by (induction n u s rule: parseHex.induct) (auto simp: next_char_eq split: option.splits)

lemma obind_Abort: "obind m f = Abort \<longleftrightarrow> m = Abort \<or> (\<exists>x. m = Done x \<and> f x = Abort)"
  by (cases m) auto

lemma parseUnicode_bound: "parseUnicode s = Done (u, s') \<Longrightarrow> u \<le> 0x10FFFF"
  by (auto simp: parseUnicode_def parseHex4_def Let_def next_char_eq split: if_splits
      dest!: parseHex_bound)

lemma parseUnicode_not_Abort: "parseUnicode s \<noteq> Abort"
  using parseHex_not_Abort
  by (auto simp: parseUnicode_def parseHex4_def Let_def next_char_eq obind_Abort split: if_splits)

lemma parseEscape_not_Abort: "parseEscape s \<noteq> Abort"
  using parseUnicode_not_Abort
  by (auto simp: parseEscape_def next_char_eq obind_Abort encodeUtf8_def dest: parseUnicode_bound)

lemma scanString_not_Abort: "scanString buf s \<noteq> Abort"
  using parseEscape_not_Abort
  by (induction buf s rule: scanString.induct) (auto split: outcome.splits)

lemma pbind_PAbort: "pbind m f = PAbort \<longleftrightarrow> m = PAbort \<or> (\<exists>s h. m = POk s h \<and> f s h = PAbort)"
  by (cases m) auto

lemma next_peek: "next_char s = (c, s') \<Longrightarrow> c = peek s"
  by (simp add: next_char_eq)

lemma lexer_not_abort:
  assumes no_abort: "\<And>e h. hdl e h \<noteq> HAbort"
  shows "call hdl e s h \<noteq> PAbort"
    "peek s = hd l \<Longrightarrow> t \<in> {TYPE_NULL, TYPE_BOOL, TYPE_DOUBLE} \<Longrightarrow> parseLiteral hdl l t s h \<noteq> PAbort"
    "peek s = quote_char \<Longrightarrow> parseString hdl k s h \<noteq> PAbort"
    "parseNumber [] hdl s h \<noteq> PAbort"
proof -
  show call: "call hdl e s h \<noteq> PAbort" for e s h
    using no_abort [of e h] by (auto simp: call_def split: answer.splits)
  show lit: "peek s = hd l \<Longrightarrow> t \<in> {TYPE_NULL, TYPE_BOOL, TYPE_DOUBLE} \<Longrightarrow>
      parseLiteral hdl l t s h \<noteq> PAbort" for l t
    using call by (auto simp: parseLiteral_def Let_def assertNext_def split: prod.splits)
  show "peek s = quote_char \<Longrightarrow> parseString hdl k s h \<noteq> PAbort"
    using call scanString_not_Abort [of "[]"]
    by (auto simp: parseString_def assertNext_def split: outcome.splits)
  show "parseNumber [] hdl s h \<noteq> PAbort"
    using call lit [of "''NaN''" TYPE_DOUBLE] lit [of "''Infinity''" TYPE_DOUBLE]
    by (auto simp: parseNumber_def number_event_not_Abort split: option.splits outcome.splits)
qed

lemma parse_not_abort:
  assumes no_abort: "\<And>e h. hdl e h \<noteq> HAbort"
  shows "parseValue [] n hdl s h \<noteq> PAbort"
    "peek s = CHR ''['' \<Longrightarrow> parseArray [] n hdl s h \<noteq> PAbort"
    "parseElements [] n hdl s h \<noteq> PAbort"
    "peek s = CHR ''{'' \<Longrightarrow> parseObject [] n hdl s h \<noteq> PAbort"
    "parseMembers [] n hdl s h \<noteq> PAbort"
proof (induction n arbitrary: s h)
  case (Suc n)
  note lex = lexer_not_abort [of hdl, OF no_abort]
  {
    case 1 show ?case
      using lex(2) [of s "''null''"] lex(2) [of s "''true''"] lex(2) [of s "''false''"]
      by (auto simp: parse_unfold lex Suc.IH)
  next
    case 2 then show ?case
      by (auto simp: parse_unfold Let_def pbind_PAbort lex Suc.IH assertNext_def)
  next
    case 3 show ?case
      by (auto simp: parse_unfold Let_def pbind_PAbort lex Suc.IH split: prod.splits)
  next
    case 4 then show ?case
      by (auto simp: parse_unfold Let_def pbind_PAbort lex Suc.IH assertNext_def)
  next
    case 5 show ?case
      by (auto simp: parse_unfold Let_def pbind_PAbort lex Suc.IH split: prod.splits if_splits)
  }
qed simp_all

section \<open>Errors\<close>

text \<open>What is thrown is never \<open>PARSE_OK\<close>, so the code \<open>PARSE_OK\<close> means that the parse returned.\<close>

lemma obind_Throw: "obind m f = Throw e \<longleftrightarrow> m = Throw e \<or> (\<exists>x. m = Done x \<and> f x = Throw e)"
  by (cases m) auto

lemma pbind_PThrow: "pbind m f = PThrow e h' \<longleftrightarrow> m = PThrow e h' \<or> (\<exists>s h. m = POk s h \<and> f s h = PThrow e h')"
  by (cases m) auto

lemma scanString_not_ok: "scanString buf s \<noteq> Throw PARSE_OK"
proof -
  have hex: "parseHex n u s \<noteq> Throw PARSE_OK" for n u s
    by (induction n u s rule: parseHex.induct) (auto simp: next_char_eq split: option.splits)
  then have "parseUnicode s \<noteq> Throw PARSE_OK" for s
    by (auto simp: parseUnicode_def parseHex4_def Let_def next_char_eq obind_Throw split: if_splits)
  then have "parseEscape s \<noteq> Throw PARSE_OK" for s
    by (auto simp: parseEscape_def next_char_eq obind_Throw encodeUtf8_def)
  then show ?thesis
    by (induction buf s rule: scanString.induct) (auto split: outcome.splits)
qed

lemma lexer_not_ok [simp]:
  "call hdl e s h \<noteq> PThrow PARSE_OK h'" "assertNext c s h \<noteq> PThrow PARSE_OK h'"
  "parseLiteral hdl l t s h \<noteq> PThrow PARSE_OK h'"
  "parseString hdl k s h \<noteq> PThrow PARSE_OK h'" "parseNumber mem hdl s h \<noteq> PThrow PARSE_OK h'"
proof -
  show call: "call hdl e s h \<noteq> PThrow PARSE_OK h'" for e s h
    by (auto simp: call_def split: answer.splits)
  show nxt: "assertNext c s h \<noteq> PThrow PARSE_OK h'" for c s h
    by (simp add: assertNext_def)
  show lit: "parseLiteral hdl l t s h \<noteq> PThrow PARSE_OK h'" for l t s h
    by (auto simp: parseLiteral_def Let_def pbind_PThrow call nxt split: prod.splits value_type.splits if_splits)
  show "parseString hdl k s h \<noteq> PThrow PARSE_OK h'"
    using scanString_not_ok [of "[]"]
    by (auto simp: parseString_def pbind_PThrow call nxt split: outcome.splits)
  show "parseNumber mem hdl s h \<noteq> PThrow PARSE_OK h'"
    by (auto simp: parseNumber_def number_event_not_ok lit call split: option.splits outcome.splits)
qed

lemma parse_not_ok:
  "parseValue mem n hdl s h \<noteq> PThrow PARSE_OK h'"
  "parseArray mem n hdl s h \<noteq> PThrow PARSE_OK h'"
  "parseElements mem n hdl s h \<noteq> PThrow PARSE_OK h'"
  "parseObject mem n hdl s h \<noteq> PThrow PARSE_OK h'"
  "parseMembers mem n hdl s h \<noteq> PThrow PARSE_OK h'"
proof (induction n arbitrary: s h)
  case (Suc n)
  {
    case 1 show ?case by (auto simp: parse_unfold Suc.IH)
  next
    case 2 show ?case by (auto simp: parse_unfold Let_def pbind_PThrow Suc.IH)
  next
    case 3 show ?case by (auto simp: parse_unfold Let_def pbind_PThrow Suc.IH split: prod.splits)
  next
    case 4 show ?case by (auto simp: parse_unfold Let_def pbind_PThrow Suc.IH)
  next
    case 5 show ?case by (auto simp: parse_unfold Let_def pbind_PThrow Suc.IH split: prod.splits if_splits)
  }
qed simp_all

lemma reader_parse_OK:
  "reader_parse mem hdl s h = Some (PARSE_OK, h') \<longleftrightarrow> (\<exists>s'. reader_run mem (fuel_of s) hdl s h = POk s' h')"
proof -
  have "reader_run mem (fuel_of s) hdl s h \<noteq> PThrow PARSE_OK h'"
    by (auto simp: reader_run_def Let_def pbind_PThrow parse_not_ok split: if_splits)
  then show ?thesis
    by (auto simp: reader_parse_def split: presult.splits)
qed

section \<open>What a successful parse sends to its handler\<close>

lemma parseLiteral_events:
  assumes "parseLiteral hdl l t s h = POk s' h'"
  shows "\<exists>v. run_events hdl (events v) h = HGo h'"
proof -
  from assms have "hdl ENull h = HGo h' \<or> (\<exists>b. hdl (EBool b) h = HGo h') \<or> (\<exists>d. hdl (EDouble d) h = HGo h')"
    by (auto simp: parseLiteral_def Let_def elim!: pbind_cases split: prod.splits if_splits value_type.splits)
  then show ?thesis
    by (metis events.simps(1) events.simps(2) events.simps(5) run_events_single)
qed

lemma parseNumber_events:
  assumes "parseNumber mem hdl s h = POk s' h'"
  shows "\<exists>v. run_events hdl (events v) h = HGo h'"
proof -
  have "\<exists>v. events v = [e]" if "number_event mem s t s'' = Done e" for t s'' e
  proof -
    from that consider d where "e = EDouble d" | i where "e = EInt32 i" | i where "e = EInt64 i"
      by (auto simp: number_event_def Let_def split: if_splits prod.splits)
    then show ?thesis by cases (metis events.simps)+
  qed
  note num = this
  from assms show ?thesis
  proof (cases "peek s = CHR ''N'' \<or> peek s = CHR ''I''")
    case True
    with assms show ?thesis
      by (auto simp: parseNumber_def dest: parseLiteral_events split: if_splits)
  next
    case False
    with assms obtain t s'' e where "number_event mem s t s'' = Done e" "hdl e h = HGo h'"
      by (auto simp: parseNumber_def split: option.splits outcome.splits)
    with num show ?thesis by (metis run_events_single)
  qed
qed

lemma parseString_sends:
  assumes "parseString hdl k s h = POk s' h'"
  obtains b where "hdl (if k then EKey b else EString b) h = HGo h'"
  using assms by (auto simp: parseString_def elim!: pbind_cases split: outcome.splits)

lemma parseString_events:
  "parseString hdl False s h = POk s' h' \<Longrightarrow> \<exists>b. run_events hdl (events (JString b)) h = HGo h'"
  "parseString hdl True s h = POk s' h' \<Longrightarrow> \<exists>b. hdl (EKey b) h = HGo h'"
  by (elim parseString_sends, simp, blast)+

text \<open>
  Soundness: whatever the handler and the fuel, a parsing function that succeeds has sent the
  events of one value (of a sequence of elements or members, closed).
\<close>

lemma parse_events:
  "parseValue mem n hdl s h = POk s' h' \<Longrightarrow> \<exists>v. run_events hdl (events v) h = HGo h'"
  "parseArray mem n hdl s h = POk s' h' \<Longrightarrow> \<exists>v. run_events hdl (events v) h = HGo h'"
  "parseElements mem n hdl s h = POk s' h' \<Longrightarrow>
     \<exists>vs. run_events hdl (concat (map events vs) @ [EEndArray]) h = HGo h'"
  "parseObject mem n hdl s h = POk s' h' \<Longrightarrow> \<exists>v. run_events hdl (events v) h = HGo h'"
  "parseMembers mem n hdl s h = POk s' h' \<Longrightarrow>
     \<exists>ms. run_events hdl (member_events ms @ [EEndObject]) h = HGo h'"
proof (induction n arbitrary: s h s' h')
  case (Suc n)
  {
    case 1 then show ?case
      by (auto simp: parse_unfold split: if_splits
          dest: parseLiteral_events parseNumber_events parseString_events(1) Suc.IH(2) Suc.IH(4))
  next
    case 2 then show ?case
    proof (rule parseArray_POk)
      fix h1
      assume h1: "hdl EStartArray h = HGo h1"
        and "(peek (parseWhitespace (tl s)) = CHR '']'' \<and> s' = tl (parseWhitespace (tl s)) \<and>
            hdl EEndArray h1 = HGo h') \<or> parseElements mem n hdl (parseWhitespace (tl s)) h1 = POk s' h'"
      then obtain vs where "run_events hdl (concat (map events vs) @ [EEndArray]) h1 = HGo h'"
        by (auto dest: Suc.IH(3) intro: that [of "[]"])
      with h1 have "run_events hdl (events (JArray vs)) h = HGo h'" by simp
      then show ?thesis by blast
    qed
  next
    case 3 then show ?case
    proof (rule parseElements_POk)
      fix s1 h1 c s2
      assume v: "parseValue mem n hdl s h = POk s1 h1"
        and r: "parseElements mem n hdl (parseWhitespace s2) h1 = POk s' h' \<or> s' = s2 \<and> hdl EEndArray h1 = HGo h'"
      from v obtain v where "run_events hdl (events v) h = HGo h1"
        by (blast dest: Suc.IH(1))
      moreover from r have "\<exists>vs. run_events hdl (concat (map events vs) @ [EEndArray]) h1 = HGo h'"
        by (auto dest: Suc.IH(3) intro: exI [of _ "[]"])
      ultimately obtain vs where "run_events hdl (concat (map events (v # vs)) @ [EEndArray]) h = HGo h'"
        by (auto simp: run_events_append)
      then show ?thesis by blast
    qed
  next
    case 4 then show ?case
    proof (rule parseObject_POk)
      fix h1
      assume h1: "hdl EStartObject h = HGo h1"
        and "(peek (parseWhitespace (tl s)) = CHR ''}'' \<and> s' = tl (parseWhitespace (tl s)) \<and>
            hdl EEndObject h1 = HGo h') \<or> parseMembers mem n hdl (parseWhitespace (tl s)) h1 = POk s' h'"
      then obtain ms where "run_events hdl (member_events ms @ [EEndObject]) h1 = HGo h'"
        by (auto dest: Suc.IH(5) intro: that [of "[]"])
      with h1 have "run_events hdl (events (JObject ms)) h = HGo h'" by simp
      then show ?thesis by blast
    qed
  next
    case 5 then show ?case
    proof (rule parseMembers_POk)
      fix s1 h1 c s2 s3 h3 d s4
      assume k: "parseString hdl True s h = POk s1 h1"
        and v: "parseValue mem n hdl (parseWhitespace s2) h1 = POk s3 h3"
        and r: "parseMembers mem n hdl (parseWhitespace s4) h3 = POk s' h' \<or> s' = s4 \<and> hdl EEndObject h3 = HGo h'"
      from k obtain key where "hdl (EKey key) h = HGo h1"
        by (blast dest: parseString_events(2))
      moreover from v obtain v where "run_events hdl (events v) h1 = HGo h3"
        by (blast dest: Suc.IH(1))
      moreover from r have "\<exists>ms. run_events hdl (member_events ms @ [EEndObject]) h3 = HGo h'"
        by (auto dest: Suc.IH(5) intro: exI [of _ "[]"])
      ultimately obtain ms where
        "run_events hdl (member_events ((key, v) # ms) @ [EEndObject]) h = HGo h'"
        by (auto simp: run_events_append)
      then show ?thesis by blast
    qed
  }
qed simp_all

lemma reader_run_events:
  "reader_run mem n hdl s h = POk s' h' \<Longrightarrow> \<exists>v. run_events hdl (events v) h = HGo h'"
  by (auto simp: reader_run_def Let_def elim!: pbind_cases split: if_splits dest: parse_events(1))

end
