(* ===== verification/JsonDocument.thy ===== *)
theory JsonDocument
  imports JsonReader
begin

text \<open>
  \<open>jackson/Document.h\<close>: the handler that builds a value tree. The class is the root value
  itself plus a stack of levels, each a raw pointer into the tree and a count of what was
  added there. A pointer is a path of child indices from the root; \<open>deref\<close> reads through it
  and \<open>store\<close> writes through it.
\<close>

section \<open>Pointers into the tree\<close>

type_synonym path = "nat list"

fun deref :: "path \<Rightarrow> jvalue \<Rightarrow> jvalue option" where
  "deref [] v = Some v"
| "deref (i # p) (JArray vs) = (if i < length vs then deref p (vs ! i) else None)"
| "deref (i # p) (JObject ms) = (if i < length ms then deref p (snd (ms ! i)) else None)"
| "deref (i # p) v = None"

fun store :: "path \<Rightarrow> jvalue \<Rightarrow> jvalue \<Rightarrow> jvalue" where
  "store [] x v = x"
| "store (i # p) x (JArray vs) =
     (if i < length vs then JArray (vs[i := store p x (vs ! i)]) else JArray vs)"
| "store (i # p) x (JObject ms) =
     (if i < length ms then JObject (ms[i := (fst (ms ! i), store p x (snd (ms ! i)))]) else JObject ms)"
| "store (i # p) x v = v"

lemma deref_store: "deref p r = Some v \<Longrightarrow> deref p (store p x r) = Some x"
  by (induction p x r rule: store.induct) (auto split: if_splits)

lemma store_store: "deref p r = Some v \<Longrightarrow> store p x (store p y r) = store p x r"
  by (induction p y r rule: store.induct) (auto split: if_splits)

lemma deref_append: "deref p r = Some v \<Longrightarrow> deref (p @ q) r = deref q v"
  by (induction p r rule: deref.induct) (auto split: if_splits)

lemma store_append: "deref p r = Some v \<Longrightarrow> store (p @ q) x r = store p (store q x v) r"
  by (induction p r rule: deref.induct) (auto split: if_splits)

lemma store_same: "deref p r = Some v \<Longrightarrow> store p v r = r"
  by (induction p r rule: deref.induct) (auto split: if_splits)

section \<open>The document\<close>

record level =
  lv_value :: path
  lv_count :: nat

record document =
  doc_root :: jvalue
  doc_stack :: "level list"
  doc_key :: jvalue
  doc_seen :: bool

datatype node = NKey | NNode path

definition doc_init :: document where
  "doc_init = \<lparr>doc_root = JNull, doc_stack = [], doc_key = JNull, doc_seen = False\<rparr>"

text \<open>\<open>Level::lastValue\<close>: the last element, or the value of the last member.\<close>

fun lastValue :: "path \<Rightarrow> jvalue \<Rightarrow> path" where
  "lastValue p (JArray vs) = p @ [length vs - 1]"
| "lastValue p (JObject ms) = p @ [length ms - 1]"
| "lastValue p v = p"

text \<open>
  \<open>Document::addValue\<close>. The stack's back is the list's head. The root is taken over by the
  first value; later ones go to the level on top: appended to an array, kept as the pending
  key or added as a member under it (which moves the key out).
\<close>

definition doc_addValue :: "jvalue \<Rightarrow> document \<Rightarrow> ('e, document \<times> node) outcome" where
  "doc_addValue v d =
     (if doc_seen d then
        (case doc_stack d of
           [] \<Rightarrow> Abort
         | lvl # st \<Rightarrow>
             (case deref (lv_value lvl) (doc_root d) of
                None \<Rightarrow> Abort
              | Some c \<Rightarrow>
                  let lvl' = lvl\<lparr>lv_count := Suc (lv_count lvl)\<rparr>; d' = d\<lparr>doc_stack := lvl' # st\<rparr> in
                  if getType c = TYPE_ARRAY then
                    obind (addValue c v) (\<lambda>c'.
                      Done (d'\<lparr>doc_root := store (lv_value lvl) c' (doc_root d)\<rparr>,
                            NNode (lastValue (lv_value lvl) c')))
                  else require (getType c = TYPE_OBJECT)
                    (if even (lv_count lvl) then
                       require (getType v = TYPE_STRING) (Done (d'\<lparr>doc_key := v\<rparr>, NKey))
                     else
                       obind (addMember c (doc_key d) v) (\<lambda>c'.
                         Done (d'\<lparr>doc_root := store (lv_value lvl) c' (doc_root d), doc_key := JNull\<rparr>,
                               NNode (lastValue (lv_value lvl) c'))))))
      else require (getType (doc_root d) = TYPE_NULL)
        (Done (d\<lparr>doc_seen := True, doc_root := v\<rparr>, NNode [])))"

text \<open>The handler methods that add a value, open a level and close one.\<close>

definition doc_put :: "jvalue \<Rightarrow> document \<Rightarrow> document answer" where
  "doc_put v d =
     (case doc_addValue v d of Done (d', n) \<Rightarrow> HGo d' | Throw (e :: unit) \<Rightarrow> HAbort | Abort \<Rightarrow> HAbort)"

definition doc_open :: "value_type \<Rightarrow> document \<Rightarrow> document answer" where
  "doc_open t d =
     (case doc_addValue (value_of_type t) d of
        Done (d', NNode p) \<Rightarrow> HGo (d'\<lparr>doc_stack := \<lparr>lv_value = p, lv_count = 0\<rparr> # doc_stack d'\<rparr>)
      | Done (d', NKey) \<Rightarrow> HAbort
      | Throw (e :: unit) \<Rightarrow> HAbort
      | Abort \<Rightarrow> HAbort)"

definition doc_close :: "value_type \<Rightarrow> document \<Rightarrow> document answer" where
  "doc_close t d =
     (case doc_stack d of
        [] \<Rightarrow> HAbort
      | lvl # st \<Rightarrow>
          if map_option getType (deref (lv_value lvl) (doc_root d)) = Some t
          then HGo (d\<lparr>doc_stack := st\<rparr>) else HAbort)"

fun doc_handler :: "document handler" where
  "doc_handler ENull d = doc_put JNull d"
| "doc_handler (EBool b) d = doc_put (JBool b) d"
| "doc_handler (EInt32 i) d = doc_put (JInt32 i) d"
| "doc_handler (EInt64 i) d = doc_put (JInt64 i) d"
| "doc_handler (EDouble x) d = doc_put (JDouble x) d"
| "doc_handler (EString s) d = doc_put (JString s) d"
| "doc_handler EStartObject d = doc_open TYPE_OBJECT d"
| "doc_handler (EKey s) d = doc_put (JString s) d"
| "doc_handler EEndObject d = doc_close TYPE_OBJECT d"
| "doc_handler EStartArray d = doc_open TYPE_ARRAY d"
| "doc_handler EEndArray d = doc_close TYPE_ARRAY d"

text \<open>\<open>Document::parse\<close> on a fresh document: the error code and the root; None is an abort.\<close>

definition doc_parse_in :: "string \<Rightarrow> string \<Rightarrow> (parse_error \<times> jvalue) option" where
  "doc_parse_in mem s = map_option (\<lambda>(e, d). (e, doc_root d)) (reader_parse mem doc_handler s doc_init)"

text \<open>A document parsed from a \<open>std::string\<close>: behind it is its NUL.\<close>

abbreviation doc_parse :: "string \<Rightarrow> (parse_error \<times> jvalue) option" where
  "doc_parse \<equiv> doc_parse_in []"

lemma doc_put_not_stop: "doc_put v d \<noteq> HStop d'"
  by (simp add: doc_put_def split: outcome.split prod.split)

text \<open>The document never stops a parse: every method returns true.\<close>

lemma doc_handler_not_stop: "doc_handler e d \<noteq> HStop d'"
  by (cases e) (auto simp: doc_put_not_stop doc_open_def doc_close_def
      split: outcome.splits node.splits list.splits)

interpretation doc: key_handler doc_handler
  by unfold_locales (rule doc_handler_not_stop)

section \<open>Building a value\<close>

text \<open>Equality of documents but for the pending key, which nested objects overwrite.\<close>

definition same_doc :: "document \<Rightarrow> document \<Rightarrow> bool" where
  "same_doc d d' \<longleftrightarrow> doc_root d = doc_root d' \<and> doc_stack d = doc_stack d' \<and> doc_seen d = doc_seen d'"

text \<open>
  \<open>adds d v d' p\<close>: at \<open>d\<close> the next value goes into the tree (not into the key), and adding
  \<open>v\<close> there gives \<open>d'\<close> with the value at \<open>p\<close>.
\<close>

definition adds :: "document \<Rightarrow> jvalue \<Rightarrow> document \<Rightarrow> path \<Rightarrow> bool" where
  "adds d v d' p \<longleftrightarrow> doc_addValue v d = (Done (d', NNode p) :: (unit, _) outcome)"

lemma addValue_type: "getType c = TYPE_ARRAY \<Longrightarrow> \<exists>vs. c = JArray vs"
  "getType c = TYPE_OBJECT \<Longrightarrow> \<exists>ms. c = JObject ms"
  "getType c = TYPE_STRING \<Longrightarrow> \<exists>s. c = JString s"
  by (cases c; simp)+

lemma deref_last:
  "deref (p @ [length vs]) (store p (JArray (vs @ [v])) r) = Some v"
  "deref (p @ [length ms]) (store p (JObject (ms @ [(k, v)])) r) = Some v"
  if "deref p r = Some c"
  by (simp_all add: deref_append [OF deref_store [OF that]])

lemma store_last:
  "store (p @ [length vs]) y (store p (JArray (vs @ [v])) r) = store p (JArray (vs @ [y])) r"
  "store (p @ [length ms]) y (store p (JObject (ms @ [(k, v)])) r) = store p (JObject (ms @ [(k, y)])) r"
  if "deref p r = Some c"
  by (simp_all add: store_append [OF deref_store [OF that]] store_store [OF that])

text \<open>
  What \<open>addValue\<close> does is the same for every value: the value added can be read back at the
  node, and storing another value there is as if that one had been added.
\<close>

lemma adds_param:
  assumes "adds d v d' p"
  shows "deref p (doc_root d') = Some v" and "doc_seen d'"
    and "adds d y (d'\<lparr>doc_root := store p y (doc_root d')\<rparr>) p"
proof -
  have "deref p (doc_root d') = Some v \<and> doc_seen d' \<and>
      adds d y (d'\<lparr>doc_root := store p y (doc_root d')\<rparr>) p"
  proof (cases "doc_seen d")
    case False
    with assms show ?thesis
      by (auto simp: adds_def doc_addValue_def require_def split: if_splits)
  next
    case True
    with assms obtain lvl st c where st: "doc_stack d = lvl # st"
      and c: "deref (lv_value lvl) (doc_root d) = Some c"
      by (auto simp: adds_def doc_addValue_def split: list.splits option.splits)
    show ?thesis
    proof (cases "getType c = TYPE_ARRAY")
      case arr: True
      then obtain vs where "c = JArray vs" by (auto dest: addValue_type)
      with assms True st c show ?thesis
        by (auto simp: adds_def doc_addValue_def deref_last [OF c] store_last [OF c])
    next
      case False
      with assms True st c have obj: "getType c = TYPE_OBJECT" "odd (lv_count lvl)"
        by (auto simp: adds_def doc_addValue_def require_def Let_def split: if_splits)
      then obtain ms where ms: "c = JObject ms" by (auto dest: addValue_type)
      from assms True st c obj ms False obtain k where k: "doc_key d = JString k" "k \<notin> fst ` set ms"
        by (cases "doc_key d") (auto simp: adds_def doc_addValue_def find_key_None split: if_splits)
      with assms True st c obj ms False show ?thesis
        by (auto simp: adds_def doc_addValue_def deref_last [OF c] store_last [OF c])
    qed
  qed
  then show "deref p (doc_root d') = Some v" "doc_seen d'"
    "adds d y (d'\<lparr>doc_root := store p y (doc_root d')\<rparr>) p"
    by auto
qed

text \<open>\<open>builds v\<close>: wherever \<open>v\<close> can be added, the events of \<open>v\<close> add it.\<close>

definition builds :: "jvalue \<Rightarrow> bool" where
  "builds v \<longleftrightarrow> (\<forall>d d' p. adds d v d' p \<longrightarrow>
     (\<exists>d2. run_events doc_handler (events v) d = HGo d2 \<and> same_doc d2 d'))"

lemma buildsE:
  assumes "builds v" "adds d v d' p"
  obtains d2 where "run_events doc_handler (events v) d = HGo d2" "same_doc d2 d'"
  using assms unfolding builds_def by blast

text \<open>An open level: the document is inside the container \<open>c\<close> at \<open>p\<close>, after \<open>n\<close> additions.\<close>

definition inside :: "document \<Rightarrow> path \<Rightarrow> nat \<Rightarrow> level list \<Rightarrow> jvalue \<Rightarrow> bool" where
  "inside d p n st c \<longleftrightarrow>
     doc_seen d \<and> doc_stack d = \<lparr>lv_value = p, lv_count = n\<rparr> # st \<and> deref p (doc_root d) = Some c"

lemma inside_same: "same_doc d d' \<Longrightarrow> inside d' p n st c \<Longrightarrow> inside d p n st c"
  by (simp add: inside_def same_doc_def)

lemma inside_array_adds:
  assumes "inside d p n st (JArray pre)"
  shows "\<exists>d'. adds d v d' (p @ [length pre]) \<and> inside d' p (Suc n) st (JArray (pre @ [v])) \<and>
    doc_root d' = store p (JArray (pre @ [v])) (doc_root d)"
  using assms by (auto simp: inside_def adds_def doc_addValue_def deref_store)

lemma inside_object_adds:
  assumes "inside d p n st (JObject pre)" "even n" "k \<notin> fst ` set pre"
  shows "\<exists>d0 d'. doc_handler (EKey k) d = HGo d0 \<and> adds d0 v d' (p @ [length pre]) \<and>
    inside d' p (Suc (Suc n)) st (JObject (pre @ [(k, v)])) \<and>
    doc_root d' = store p (JObject (pre @ [(k, v)])) (doc_root d)"
proof -
  from assms(3) have "find (\<lambda>m. fst m = k) pre = None"
    by (simp add: find_key_None)
  with assms show ?thesis
    by (auto simp: inside_def adds_def doc_put_def doc_addValue_def deref_store)
qed

lemma build_elements:
  assumes "\<forall>v\<in>set vs. builds v" and "inside d p n st (JArray pre)"
  shows "\<exists>d2. run_events doc_handler (concat (map events vs)) d = HGo d2 \<and>
    inside d2 p (n + length vs) st (JArray (pre @ vs)) \<and>
    doc_root d2 = store p (JArray (pre @ vs)) (doc_root d)"
  using assms
proof (induction vs arbitrary: d n pre)
  case Nil
  then show ?case by (simp add: inside_def store_same)
next
  case (Cons v vs)
  from inside_array_adds [OF Cons.prems(2)] obtain d' where
    d': "adds d v d' (p @ [length pre])" "inside d' p (Suc n) st (JArray (pre @ [v]))"
      "doc_root d' = store p (JArray (pre @ [v])) (doc_root d)" by blast
  from Cons.prems(1) d'(1) obtain d1 where
    d1: "run_events doc_handler (events v) d = HGo d1" "same_doc d1 d'"
    by (auto elim: buildsE)
  from Cons.IH [OF _ inside_same [OF d1(2) d'(2)]] Cons.prems(1) obtain d2 where
    d2: "run_events doc_handler (concat (map events vs)) d1 = HGo d2"
      "inside d2 p (Suc n + length vs) st (JArray ((pre @ [v]) @ vs))"
      "doc_root d2 = store p (JArray ((pre @ [v]) @ vs)) (doc_root d1)" by auto
  moreover have "doc_root d1 = doc_root d'"
    using d1(2) by (simp add: same_doc_def)
  moreover have "deref p (doc_root d) = Some (JArray pre)"
    using Cons.prems(2) by (simp add: inside_def)
  ultimately show ?case
    using d1(1) d'(3) by (simp add: run_events_append store_store)
qed

lemma build_members:
  assumes "\<forall>m\<in>set ms. builds (snd m)" and "inside d p n st (JObject pre)" and "even n"
    and "distinct (map fst (pre @ ms))"
  shows "\<exists>d2. run_events doc_handler (member_events ms) d = HGo d2 \<and>
    inside d2 p (n + 2 * length ms) st (JObject (pre @ ms)) \<and>
    doc_root d2 = store p (JObject (pre @ ms)) (doc_root d)"
  using assms
proof (induction ms arbitrary: d n pre)
  case Nil
  then show ?case by (simp add: inside_def store_same)
next
  case (Cons m ms)
  obtain k v where m: "m = (k, v)" by (cases m)
  with Cons.prems(4) have "k \<notin> fst ` set pre" by auto
  from inside_object_adds [OF Cons.prems(2,3) this] obtain d0 d' where
    d': "doc_handler (EKey k) d = HGo d0" "adds d0 v d' (p @ [length pre])"
      "inside d' p (Suc (Suc n)) st (JObject (pre @ [(k, v)]))"
      "doc_root d' = store p (JObject (pre @ [(k, v)])) (doc_root d)" by blast
  from Cons.prems(1) d'(2) m obtain d1 where
    d1: "run_events doc_handler (events v) d0 = HGo d1" "same_doc d1 d'"
    by (auto elim: buildsE)
  from Cons.IH [OF _ inside_same [OF d1(2) d'(3)]] Cons.prems m obtain d2 where
    d2: "run_events doc_handler (member_events ms) d1 = HGo d2"
      "inside d2 p (Suc (Suc n) + 2 * length ms) st (JObject ((pre @ [(k, v)]) @ ms))"
      "doc_root d2 = store p (JObject ((pre @ [(k, v)]) @ ms)) (doc_root d1)" by auto
  moreover have "doc_root d1 = doc_root d'"
    using d1(2) by (simp add: same_doc_def)
  moreover have "deref p (doc_root d) = Some (JObject pre)"
    using Cons.prems(2) by (simp add: inside_def)
  ultimately show ?case
    using d1(1) d'(1,4) m by (simp add: run_events_append store_store)
qed

text \<open>Opening a container, filling it and closing it leaves the document as adding it would.\<close>

lemma build_container:
  assumes "adds d c d' p" and "getType c = t" and "t = TYPE_ARRAY \<or> t = TYPE_OBJECT"
    and fill: "\<And>d1 st. inside d1 p 0 st (value_of_type t) \<Longrightarrow>
      \<exists>d2 n. run_events doc_handler es d1 = HGo d2 \<and> inside d2 p n st c \<and>
        doc_root d2 = store p c (doc_root d1)"
  shows "\<exists>d2. hbind (doc_open t d) (\<lambda>d1. hbind (run_events doc_handler es d1) (doc_close t)) = HGo d2 \<and>
    same_doc d2 d'"
proof -
  let ?d1 = "d'\<lparr>doc_root := store p (value_of_type t) (doc_root d')\<rparr>"
  let ?d1' = "?d1\<lparr>doc_stack := \<lparr>lv_value = p, lv_count = 0\<rparr> # doc_stack ?d1\<rparr>"
  have "adds d (value_of_type t) ?d1 p"
    by (rule adds_param(3) [OF assms(1)])
  then have 1: "doc_open t d = HGo ?d1'"
    by (simp add: doc_open_def adds_def)
  have "inside ?d1' p 0 (doc_stack d') (value_of_type t)"
    using adds_param(1,2) [OF assms(1)] by (auto simp: inside_def intro: deref_store)
  from fill [OF this] obtain d2 n where 2: "run_events doc_handler es ?d1' = HGo d2"
    "inside d2 p n (doc_stack d') c" "doc_root d2 = store p c (doc_root ?d1')" by blast
  have 3: "doc_close t d2 = HGo (d2\<lparr>doc_stack := doc_stack d'\<rparr>)"
    using 2(2) assms(2) by (simp add: doc_close_def inside_def)
  have "doc_root d2 = doc_root d'"
    using 2(3) adds_param(1) [OF assms(1)] by (simp add: store_store store_same)
  then have "same_doc (d2\<lparr>doc_stack := doc_stack d'\<rparr>) d'"
    using 2(2) adds_param(2) [OF assms(1)] by (simp add: same_doc_def inside_def)
  with 1 2(1) 3 show ?thesis by simp
qed

lemma builds_distinct: "distinct_keys v \<Longrightarrow> builds v"
proof (induction v)
  case (JArray vs)
  then have vs: "\<forall>v\<in>set vs. builds v" by simp
  show ?case
    unfolding builds_def
  proof (intro allI impI)
    fix d d' p
    assume "adds d (JArray vs) d' p"
    then have "\<exists>d2. hbind (doc_open TYPE_ARRAY d) (\<lambda>d1. hbind (run_events doc_handler (concat (map events vs)) d1)
        (doc_close TYPE_ARRAY)) = HGo d2 \<and> same_doc d2 d'"
      by (rule build_container, simp_all) (use build_elements [OF vs, of _ p 0 _ "[]"] in \<open>fastforce\<close>)
    then show "\<exists>d2. run_events doc_handler (events (JArray vs)) d = HGo d2 \<and> same_doc d2 d'"
      by (simp add: run_events_append_fun comp_def)
  qed
next
  case (JObject ms)
  then have ms: "\<forall>m\<in>set ms. builds (snd m)" "distinct (map fst ([] @ ms))" by force+
  show ?case
    unfolding builds_def
  proof (intro allI impI)
    fix d d' p
    assume "adds d (JObject ms) d' p"
    then have "\<exists>d2. hbind (doc_open TYPE_OBJECT d) (\<lambda>d1. hbind (run_events doc_handler (member_events ms) d1)
        (doc_close TYPE_OBJECT)) = HGo d2 \<and> same_doc d2 d'"
      by (rule build_container, simp_all) (use build_members [OF ms(1) _ _ ms(2), of _ p 0] in \<open>fastforce\<close>)
    then show "\<exists>d2. run_events doc_handler (events (JObject ms)) d = HGo d2 \<and> same_doc d2 d'"
      by (simp add: run_events_append_fun comp_def)
  qed
qed (auto simp: builds_def adds_def doc_put_def same_doc_def)

lemma doc_build:
  assumes "distinct_keys v"
  shows "\<exists>d. run_events doc_handler (events v) doc_init = HGo d \<and> doc_root d = v \<and> doc_stack d = []"
proof -
  have "adds doc_init v (doc_init\<lparr>doc_seen := True, doc_root := v\<rparr>) []"
    by (simp add: adds_def doc_addValue_def doc_init_def)
  with builds_distinct [OF assms] obtain d where
    "run_events doc_handler (events v) doc_init = HGo d"
    "same_doc d (doc_init\<lparr>doc_seen := True, doc_root := v\<rparr>)"
    unfolding builds_def by blast
  then show ?thesis by (auto simp: same_doc_def doc_init_def)
qed

section \<open>Duplicate keys\<close>

text \<open>
  The assert of \<open>addMember\<close> is the only thing that ends a parse of well-nested events: a
  value with a duplicate key somewhere aborts, wherever it is added.
\<close>

definition rejects :: "jvalue \<Rightarrow> bool" where
  "rejects v \<longleftrightarrow> (\<forall>d d' p. adds d v d' p \<longrightarrow> run_events doc_handler (events v) d = HAbort)"

lemma rejectsD: "rejects v \<Longrightarrow> adds d v d' p \<Longrightarrow> run_events doc_handler (events v) d = HAbort"
  by (auto simp: rejects_def)

lemma doc_addValue_abort_run:
  assumes "\<And>x. doc_addValue x d = (Abort :: (unit, _) outcome)"
  shows "run_events doc_handler (events v) d = HAbort"
  by (cases v) (simp_all add: doc_put_def doc_open_def assms)

lemma inside_object_dup:
  assumes "inside d p n st (JObject pre)" "even n" "k \<in> fst ` set pre"
  shows "\<exists>d0. doc_handler (EKey k) d = HGo d0 \<and> run_events doc_handler (events v) d0 = HAbort"
proof -
  let ?d0 = "d\<lparr>doc_stack := \<lparr>lv_value = p, lv_count = Suc n\<rparr> # st, doc_key := JString k\<rparr>"
  have 1: "doc_handler (EKey k) d = HGo ?d0"
    using assms(1,2) by (simp add: inside_def doc_put_def doc_addValue_def)
  have "doc_addValue x ?d0 = (Abort :: (unit, _) outcome)" for x
    using assms by (simp add: inside_def doc_addValue_def find_key_None)
  then have "run_events doc_handler (events v) ?d0 = HAbort"
    by (rule doc_addValue_abort_run)
  with 1 show ?thesis by blast
qed

lemma reject_elements:
  assumes "\<forall>v\<in>set vs. builds v \<or> rejects v" "\<exists>v\<in>set vs. rejects v" "inside d p n st (JArray pre)"
  shows "run_events doc_handler (concat (map events vs)) d = HAbort"
  using assms
proof (induction vs arbitrary: d n pre)
  case (Cons v vs)
  from inside_array_adds [OF Cons.prems(3)] obtain d' where
    d': "adds d v d' (p @ [length pre])" "inside d' p (Suc n) st (JArray (pre @ [v]))" by blast
  show ?case
  proof (cases "rejects v")
    case True
    with d' show ?thesis by (simp add: rejectsD run_events_append)
  next
    case False
    with Cons.prems(1) have "builds v" by auto
    with d'(1) obtain d1 where
      d1: "run_events doc_handler (events v) d = HGo d1" "same_doc d1 d'" by (auto elim: buildsE)
    with Cons.IH [OF _ _ inside_same [OF d1(2) d'(2)]] Cons.prems False show ?thesis
      by (simp add: run_events_append)
  qed
qed simp

lemma reject_members:
  assumes "\<forall>m\<in>set ms. builds (snd m) \<or> rejects (snd m)" and "inside d p n st (JObject pre)" and "even n"
    and "(\<exists>m\<in>set ms. rejects (snd m)) \<or> \<not> distinct (map fst (pre @ ms))" and "distinct (map fst pre)"
  shows "run_events doc_handler (member_events ms) d = HAbort"
  using assms
proof (induction ms arbitrary: d n pre)
  case (Cons m ms)
  obtain k v where m: "m = (k, v)" by (cases m)
  show ?case
  proof (cases "k \<in> fst ` set pre")
    case True
    from inside_object_dup [OF Cons.prems(2,3) this, of v] m show ?thesis
      by (auto simp: run_events_append)
  next
    case fresh: False
    from inside_object_adds [OF Cons.prems(2,3) this] obtain d0 d' where
      d': "doc_handler (EKey k) d = HGo d0" "adds d0 v d' (p @ [length pre])"
        "inside d' p (Suc (Suc n)) st (JObject (pre @ [(k, v)]))" by blast
    show ?thesis
    proof (cases "rejects v")
      case True
      with d' m show ?thesis by (simp add: rejectsD run_events_append)
    next
      case False
      with Cons.prems(1) m have "builds v" by auto
      with d'(2) obtain d1 where
        d1: "run_events doc_handler (events v) d0 = HGo d1" "same_doc d1 d'" by (auto elim: buildsE)
      with Cons.IH [OF _ inside_same [OF d1(2) d'(3)]] Cons.prems False fresh d'(1) m show ?thesis
        by (auto simp: run_events_append)
    qed
  qed
qed simp

lemma reject_container:
  assumes "adds d c d' p" and "t = TYPE_ARRAY \<or> t = TYPE_OBJECT"
    and fill: "\<And>d1 st. inside d1 p 0 st (value_of_type t) \<Longrightarrow> run_events doc_handler es d1 = HAbort"
  shows "hbind (doc_open t d) (\<lambda>d1. hbind (run_events doc_handler es d1) (doc_close t)) = HAbort"
proof -
  let ?d1 = "d'\<lparr>doc_root := store p (value_of_type t) (doc_root d')\<rparr>"
  let ?d1' = "?d1\<lparr>doc_stack := \<lparr>lv_value = p, lv_count = 0\<rparr> # doc_stack ?d1\<rparr>"
  have "adds d (value_of_type t) ?d1 p"
    by (rule adds_param(3) [OF assms(1)])
  then have 1: "doc_open t d = HGo ?d1'"
    by (simp add: doc_open_def adds_def)
  have "inside ?d1' p 0 (doc_stack d') (value_of_type t)"
    using adds_param(1,2) [OF assms(1)] by (auto simp: inside_def intro: deref_store)
  from fill [OF this] 1 show ?thesis by simp
qed

lemma rejects_duplicate: "\<not> distinct_keys v \<Longrightarrow> rejects v"
proof (induction v)
  case (JArray vs)
  then have vs: "\<forall>v\<in>set vs. builds v \<or> rejects v" "\<exists>v\<in>set vs. rejects v"
    using builds_distinct by auto
  show ?case
    unfolding rejects_def
  proof (intro allI impI)
    fix d d' p
    assume "adds d (JArray vs) d' p"
    then have "hbind (doc_open TYPE_ARRAY d) (\<lambda>d1. hbind (run_events doc_handler (concat (map events vs)) d1)
        (doc_close TYPE_ARRAY)) = HAbort"
      by (rule reject_container, simp_all) (rule reject_elements [OF vs])
    then show "run_events doc_handler (events (JArray vs)) d = HAbort"
      by (simp add: run_events_append_fun comp_def)
  qed
next
  case (JObject ms)
  then have IH: "\<not> distinct_keys (snd m) \<Longrightarrow> rejects (snd m)" if "m \<in> set ms" for m
    using that by (cases m) force
  have ms: "\<forall>m\<in>set ms. builds (snd m) \<or> rejects (snd m)"
    "(\<exists>m\<in>set ms. rejects (snd m)) \<or> \<not> distinct (map fst ([] @ ms))"
    using IH builds_distinct JObject.prems by force+
  show ?case
    unfolding rejects_def
  proof (intro allI impI)
    fix d d' p
    assume "adds d (JObject ms) d' p"
    then have "hbind (doc_open TYPE_OBJECT d) (\<lambda>d1. hbind (run_events doc_handler (member_events ms) d1)
        (doc_close TYPE_OBJECT)) = HAbort"
      by (rule reject_container, simp_all) (rule reject_members [OF ms(1) _ _ ms(2)], auto)
    then show "run_events doc_handler (events (JObject ms)) d = HAbort"
      by (simp add: run_events_append_fun comp_def)
  qed
qed simp_all

lemma doc_init_adds: "\<exists>d'. adds doc_init v d' []"
  by (simp add: adds_def doc_addValue_def doc_init_def)

lemma doc_run_events:
  assumes "run_events doc_handler (events v) doc_init = HGo d"
  shows "distinct_keys v \<and> doc_root d = v"
proof (cases "distinct_keys v")
  case True
  then show ?thesis using doc_build [of v] assms by auto
next
  case False
  then have "rejects v" by (rule rejects_duplicate)
  with doc_init_adds assms show ?thesis by (metis answer.distinct(3) rejectsD)
qed

text \<open>What is in memory behind the text matters only to a number that ends the text.\<close>

lemma doc_parse_behind: "number_ends mem s \<Longrightarrow> doc_parse_in mem s = doc_parse s"
  by (simp only: doc_parse_in_def reader_behind(2) [of mem])

text \<open>
  To such a number it does: a view of the first three bytes of 1.57 makes the assert of
  \<open>parseNumber\<close> fail, because \<open>strtod\<close> reads a fourth digit, and a view of the first two bytes of 123
  is parsed as 123.
\<close>

lemma number_overread: "doc_parse_in ''7'' ''1.5'' = None" "doc_parse_in ''3'' ''12'' = Some (PARSE_OK, JInt32 123)"
proof -
  have lex: "\<not> is_ws (CHR ''1'')" "fuel_of ''1.5'' = Suc (fuel_of ''1.5'' - 1)" "fuel_of ''12'' = Suc (fuel_of ''12'' - 1)"
    by (simp_all add: is_ws_def fuel_of_def)
  obtain d where double: "strtod ''1.57'' = (d, False)" by (rule strtod_example)
  have scan: "scanNumber ''1.5'' = Some (TYPE_DOUBLE, [])" "scanNumber ''12'' = Some (TYPE_NULL, [])"
    "strtod_extent ''1.57'' = 4" "strtol ''123'' = 123"
    by code_simp+
  show "doc_parse_in ''7'' ''1.5'' = None"
    unfolding doc_parse_in_def reader_parse_def reader_run_def
    by (subst lex(2)) (simp add: lex(1) parse_unfold parseNumber_def number_event_def scan double)
  show "doc_parse_in ''3'' ''12'' = Some (PARSE_OK, JInt32 123)"
    unfolding doc_parse_in_def reader_parse_def reader_run_def
    by (subst lex(3)) (simp add: lex(1) parse_unfold parseNumber_def number_event_def scan in_int64_def in_int32_def
        call_def doc_put_def doc_addValue_def doc_init_def)
qed

text \<open>A parse that succeeds gives a value with distinct keys, the one whose events were sent.\<close>

lemma doc_parse_ok: "doc_parse_in mem s = Some (PARSE_OK, v) \<Longrightarrow> distinct_keys v"
  by (auto simp: doc_parse_in_def reader_parse_OK dest!: reader_run_events doc_run_events)

end
