(* ===== verification/JsonWriter.thy ===== *)
theory JsonWriter
  imports JsonValue
begin

unbundle bit_operations_syntax

text \<open>
  \<open>jackson/Writer.h\<close>, \<open>Writer.cc\<close> and \<open>PrettyWriter.h\<close> over \<open>StringWriteStream.h\<close>: the
  integer printer with its digit table, the writer as a handler that keeps a stack of levels
  and appends to its stream, and the pretty writer around it. \<open>render\<close> is the text a value
  should give; \<open>writer_render\<close> shows that replaying a value into a writer gives it.
\<close>

section \<open>Counting digits\<close>

text \<open>The GCC builtins count the leading zero bits of a non-zero word.\<close>

definition clz :: "'a::len word \<Rightarrow> nat" where
  "clz n = LENGTH('a) - bitlen (unat n)"

definition powers_of_10_32 :: "nat list" where
  "powers_of_10_32 = [0, 10, 100, 1000, 10000, 100000, 1000000, 10000000, 100000000, 1000000000]"

definition countDigits32 :: "i32 \<Rightarrow> nat" where
  "countDigits32 n =
     (let t = drop_bit 12 ((32 - clz (n OR 1)) * 1233)
      in t - (if unat n < powers_of_10_32 ! t then 1 else 0) + 1)"

definition powers_of_10_64 :: "nat list" where
  "powers_of_10_64 =
     [0, 10, 100, 1000, 10000, 100000, 1000000, 10000000, 100000000, 1000000000,
      10000000000, 100000000000, 1000000000000, 10000000000000, 100000000000000,
      1000000000000000, 10000000000000000, 100000000000000000, 1000000000000000000,
      10000000000000000000]"

definition countDigits64 :: "i64 \<Rightarrow> nat" where
  "countDigits64 n =
     (let t = drop_bit 12 ((64 - clz (n OR 1)) * 1233)
      in t - (if unat n < powers_of_10_64 ! t then 1 else 0) + 1)"

lemma dec_length_gt: "10 ^ k \<le> n \<Longrightarrow> k < length (dec n)"
proof (induction n arbitrary: k rule: dec.induct)
  case (1 n)
  show ?case
  proof (cases "n < 10")
    case True
    have "k = 0"
    proof (rule ccontr)
      assume "k \<noteq> 0"
      then have "(10::nat) \<le> 10 ^ k" by (simp add: self_le_power)
      with "1.prems" True show False by linarith
    qed
    then show ?thesis using True by (simp add: dec_induct_cases)
  next
    case False
    show ?thesis
    proof (cases k)
      case 0
      then show ?thesis by simp
    next
      case (Suc j)
      with "1.prems" have "10 ^ j \<le> n div 10"
        by (simp add: less_eq_div_iff_mult_less_eq mult.commute)
      with "1.IH" False Suc show ?thesis by (simp add: dec_induct_cases)
    qed
  qed
qed

lemma length_dec_eq: "10 ^ k \<le> n \<Longrightarrow> n < 10 ^ Suc k \<Longrightarrow> length (dec n) = Suc k"
  using dec_length_gt [of k n] length_dec_le [of n "Suc k"] by simp

text \<open>The magic product approximates the logarithm: one below it or exact, up to 64 bits.\<close>

lemma magic_log:
  assumes "1 \<le> b" "b \<le> 64"
  shows "2 ^ b \<le> (10::nat) ^ Suc (b * 1233 div 4096)"
    and "0 < b * 1233 div 4096 \<Longrightarrow> (10::nat) ^ (b * 1233 div 4096 - 1) \<le> 2 ^ (b - 1)"
proof -
  have "\<forall>b\<in>set [1..<65]. 2 ^ b \<le> (10::nat) ^ Suc (b * 1233 div 4096) \<and>
      (0 < b * 1233 div 4096 \<longrightarrow> (10::nat) ^ (b * 1233 div 4096 - 1) \<le> 2 ^ (b - 1))"
    by (simp add: upt_rec)
  moreover have "b \<in> set [1..<65]" using assms by simp
  ultimately show "2 ^ b \<le> (10::nat) ^ Suc (b * 1233 div 4096)"
    "0 < b * 1233 div 4096 \<Longrightarrow> (10::nat) ^ (b * 1233 div 4096 - 1) \<le> 2 ^ (b - 1)"
    by blast+
qed

lemma bitlen_le: "n < 2 ^ k \<Longrightarrow> bitlen n \<le> k"
proof (cases "n = 0")
  case False
  assume "n < 2 ^ k"
  with bitlen_bounds [of n] False have "(2::nat) ^ (bitlen n - 1) < 2 ^ k"
    by (meson not_gr_zero order_le_less_trans)
  then have "bitlen n - 1 < k"
    by (rule power_less_imp_less_exp [rotated]) simp
  then show ?thesis by linarith
qed (simp add: bitlen_eval)

lemma count_digits_eq:
  assumes m: "m = n \<or> (even n \<and> m = Suc n)" "odd m" "m < 2 ^ 64"
    and t: "t = bitlen m * 1233 div 4096"
  shows "t - (if n < (if t = 0 then 0 else 10 ^ t) then 1 else 0) + 1 = length (dec n)"
proof -
  let ?b = "bitlen m"
  have m0: "0 < m" using m(2) by (auto intro: odd_pos)
  then have b1: "1 \<le> ?b" by (subst bitlen.simps) simp
  have b64: "?b \<le> 64" using m(3) by (rule bitlen_le)
  have lo: "2 ^ (?b - 1) \<le> m" and hi: "m < 2 ^ ?b"
    using bitlen_bounds [OF m0] by auto
  have n_hi: "n < 10 ^ Suc t"
    using magic_log(1) [OF b1 b64] hi m(1) unfolding t by linarith
  show ?thesis
  proof (cases "t = 0")
    case True
    with n_hi have "n < 10" by simp
    with True show ?thesis by (simp add: dec_induct_cases)
  next
    case False
    have b2: "2 \<le> ?b"
    proof (rule ccontr)
      assume "\<not> 2 \<le> ?b"
      with b1 have "?b = 1" by linarith
      with False t show False by simp
    qed
    then have "even ((2::nat) ^ (?b - 1))" by simp
    with lo m(1,2) have n_lo: "2 ^ (?b - 1) \<le> n"
      by (metis Suc_leI even_Suc le_neq_implies_less less_Suc_eq_le)
    have "10 ^ (t - 1) \<le> n"
      using magic_log(2) [OF b1 b64] False n_lo unfolding t by linarith
    show ?thesis
    proof (cases "n < 10 ^ t")
      case True
      with \<open>10 ^ (t - 1) \<le> n\<close> False show ?thesis
        using length_dec_eq [of "t - 1" n] by simp
    next
      case False
      with n_hi \<open>t \<noteq> 0\<close> show ?thesis
        using length_dec_eq [of t n] by simp
    qed
  qed
qed

lemma or_one_nat: "m = (n::nat) OR 1 \<Longrightarrow> (m = n \<or> (even n \<and> m = Suc n)) \<and> odd m"
  unfolding or_one_eq by (cases "even n") auto

lemma nth_powers:
  "t < 10 \<Longrightarrow> powers_of_10_32 ! t = (if t = 0 then 0 else 10 ^ t)"
  "t < 20 \<Longrightarrow> powers_of_10_64 ! t = (if t = 0 then 0 else 10 ^ t)"
proof -
  have "\<forall>t\<in>set [0..<10]. powers_of_10_32 ! t = (if t = 0 then 0 else 10 ^ t)"
    by (simp add: upt_rec powers_of_10_32_def)
  then show "t < 10 \<Longrightarrow> powers_of_10_32 ! t = (if t = 0 then 0 else 10 ^ t)" by simp
  have "\<forall>t\<in>set [0..<20]. powers_of_10_64 ! t = (if t = 0 then 0 else 10 ^ t)"
    by (simp add: upt_rec powers_of_10_64_def)
  then show "t < 20 \<Longrightarrow> powers_of_10_64 ! t = (if t = 0 then 0 else 10 ^ t)" by simp
qed

lemma countDigits32_dec: "countDigits32 n = length (dec (unat n))"
proof -
  define m where "m = unat (n OR 1)"
  have m: "m = unat n OR 1"
    by (simp add: m_def unsigned_or_eq)
  have lt: "m < 2 ^ 32"
    unfolding m_def by (rule order_less_le_trans [OF unsigned_less]) simp
  have b: "bitlen m \<le> 32" using lt by (rule bitlen_le)
  define t where "t = bitlen m * 1233 div 4096"
  have "t < 10" using b unfolding t_def by (intro div_less_iff_less_mult [THEN iffD2]) linarith+
  have "32 - clz (n OR 1) = bitlen m"
    using b by (simp add: clz_def m_def)
  then have "countDigits32 n = t - (if unat n < powers_of_10_32 ! t then 1 else 0) + 1"
    by (simp add: countDigits32_def Let_def t_def drop_bit_eq_div)
  then show ?thesis
    using count_digits_eq [of m "unat n" t] or_one_nat [OF m] lt nth_powers(1) [OF \<open>t < 10\<close>]
    by (simp add: t_def)
qed

lemma countDigits64_dec: "countDigits64 n = length (dec (unat n))"
proof -
  define m where "m = unat (n OR 1)"
  have m: "m = unat n OR 1"
    by (simp add: m_def unsigned_or_eq)
  have lt: "m < 2 ^ 64"
    unfolding m_def by (rule order_less_le_trans [OF unsigned_less]) simp
  have b: "bitlen m \<le> 64" using lt by (rule bitlen_le)
  define t where "t = bitlen m * 1233 div 4096"
  have "t < 20" using b unfolding t_def by (intro div_less_iff_less_mult [THEN iffD2]) linarith+
  have "64 - clz (n OR 1) = bitlen m"
    using b by (simp add: clz_def m_def)
  then have "countDigits64 n = t - (if unat n < powers_of_10_64 ! t then 1 else 0) + 1"
    by (simp add: countDigits64_def Let_def t_def drop_bit_eq_div)
  then show ?thesis
    using count_digits_eq [of m "unat n" t] or_one_nat [OF m] lt nth_powers(2) [OF \<open>t < 20\<close>]
    by (simp add: t_def)
qed

section \<open>Printing integers\<close>

text \<open>\<open>buf[i] = c\<close>; None when the index is outside the buffer, where C++ is undefined.\<close>

definition buf_put :: "string \<Rightarrow> int \<Rightarrow> char \<Rightarrow> string option" where
  "buf_put buf i c = (if 0 \<le> i \<and> i < int (length buf) then Some (buf[nat i := c]) else None)"

definition digits :: string where
  "digits =
     ''0001020304050607080910111213141516171819'' @
     ''2021222324252627282930313233343536373839'' @
     ''4041424344454647484950515253545556575859'' @
     ''6061626364656667686970717273747576777879'' @
     ''8081828384858687888990919293949596979899''"

text \<open>
  The loop of \<open>itoa_\<close>, two digits at a time from the back. \<open>T\<close> is unsigned, so \<open>val\<close> is a
  natural; \<open>next\<close> may only go below zero where the code would leave the buffer.
\<close>

fun itoa_loop :: "nat \<Rightarrow> int \<Rightarrow> string \<Rightarrow> string option" where
  "itoa_loop val nxt buf =
     (if 100 \<le> val then
        let i = val mod 100 * 2 in
        Option.bind (buf_put buf nxt (digits ! (i + 1))) (\<lambda>buf.
        Option.bind (buf_put buf (nxt - 1) (digits ! i)) (\<lambda>buf.
          itoa_loop (val div 100) (nxt - 2) buf))
      else if val < 10 then buf_put buf nxt (char_of (48 + val))
      else
        let i = val * 2 in
        Option.bind (buf_put buf nxt (digits ! (i + 1))) (\<lambda>buf.
          buf_put buf (nxt - 1) (digits ! i)))"

declare itoa_loop.simps [simp del]

definition itoa_32 :: "i32 \<Rightarrow> string \<Rightarrow> (nat \<times> string) option" where
  "itoa_32 val buf =
     (let count = countDigits32 val
      in map_option (Pair count) (itoa_loop (unat val) (int count - 1) buf))"

definition itoa_64 :: "i64 \<Rightarrow> string \<Rightarrow> (nat \<times> string) option" where
  "itoa_64 val buf =
     (let count = countDigits64 val
      in map_option (Pair count) (itoa_loop (unat val) (int count - 1) buf))"

text \<open>\<open>*buf++ = '-'\<close>: the sign, and what the rest of the buffer becomes.\<close>

definition after_sign :: "string \<Rightarrow> (string \<Rightarrow> (nat \<times> string) option) \<Rightarrow> (nat \<times> string) option" where
  "after_sign buf f =
     Option.bind (buf_put buf 0 (CHR ''-'')) (\<lambda>buf.
       map_option (\<lambda>(n, rest). (1 + n, hd buf # rest)) (f (tl buf)))"

definition itoa32 :: "i32 \<Rightarrow> string \<Rightarrow> (nat \<times> string) option" where
  "itoa32 val buf =
     (if val <s 0 then after_sign buf (itoa_32 (NOT val + 1)) else itoa_32 val buf)"

definition itoa64 :: "i64 \<Rightarrow> string \<Rightarrow> (nat \<times> string) option" where
  "itoa64 val buf =
     (if val <s 0 then after_sign buf (itoa_64 (NOT val + 1)) else itoa_64 val buf)"

lemma digits_nth:
  assumes "i < 100"
  shows "digits ! (i * 2) = digit_char (i div 10)" "digits ! (i * 2 + 1) = digit_char (i mod 10)"
proof -
  have "\<forall>i\<in>set [0..<100]. digits ! (i * 2) = digit_char (i div 10) \<and>
      digits ! (i * 2 + 1) = digit_char (i mod 10)"
    by code_simp
  with assms show "digits ! (i * 2) = digit_char (i div 10)"
    "digits ! (i * 2 + 1) = digit_char (i mod 10)" by simp_all
qed

lemma buf_put_at:
  "i = int (length xs) \<Longrightarrow> buf_put (xs @ c # ys) i d = Some (xs @ d # ys)"
  by (simp add: buf_put_def)

lemma dec_two_digits:
  assumes "100 \<le> n"
  shows "dec n = dec (n div 100) @ [digit_char (n mod 100 div 10), digit_char (n mod 10)]"
proof -
  from assms have "dec n = dec (n div 10) @ [digit_char (n mod 10)]"
    and "dec (n div 10) = dec (n div 10 div 10) @ [digit_char (n div 10 mod 10)]"
    by (intro dec_induct_cases(2), linarith)+
  moreover have "n div 10 mod 10 = n mod 100 div 10"
    using mod_mult2_eq [of n 10 10] by simp
  moreover have "n div 10 div 10 = n div 100"
    by (simp only: div_mult2_eq [symmetric]) simp
  ultimately show ?thesis
    by (simp only: append_assoc append_Cons append_Nil)
qed

lemma dec_two_digits_only:
  "10 \<le> n \<Longrightarrow> n < 100 \<Longrightarrow> dec n = [digit_char (n div 10), digit_char (n mod 10)]"
  using dec_induct_cases(2) [of n] dec_induct_cases(1) [of "n div 10"] by simp

lemma last_two: "length xs = n + 2 \<Longrightarrow> \<exists>zs c d. xs = zs @ [c, d] \<and> length zs = n"
proof (cases xs rule: rev_cases)
  case (snoc ys d)
  assume "length xs = n + 2"
  with snoc show ?thesis by (cases ys rule: rev_cases) auto
qed simp

text \<open>The loop overwrites exactly the first digits of the buffer.\<close>

lemma itoa_loop_dec:
  "length xs = length (dec n) \<Longrightarrow>
     itoa_loop n (int (length (dec n)) - 1) (xs @ ys) = Some (dec n @ ys)"
proof (induction n arbitrary: xs ys rule: less_induct)
  case (less n)
  consider "100 \<le> n" | "10 \<le> n" "n < 100" | "n < 10" by linarith
  then show ?case
  proof cases
    case 1
    let ?q = "n div 100" and ?a = "digit_char (n mod 100 div 10)" and ?b = "digit_char (n mod 10)"
    have dn: "dec n = dec ?q @ [?a, ?b]" using 1 by (rule dec_two_digits)
    with less.prems have "length xs = length (dec ?q) + 2" by simp
    then obtain zs c d where xs: "xs = zs @ [c, d]" "length zs = length (dec ?q)"
      using last_two by blast
    have b: "digits ! (n mod 100 * 2 + 1) = ?b" "digits ! (n mod 100 * 2) = ?a"
      using digits_nth [of "n mod 100"] by (simp_all add: mod_mod_cancel)
    have "buf_put (zs @ c # d # ys) (int (length (dec n)) - 1) ?b = Some (zs @ c # ?b # ys)"
      using buf_put_at [of _ "zs @ [c]" d ys ?b] dn xs(2) by simp
    moreover have "buf_put (zs @ c # ?b # ys) (int (length (dec n)) - 1 - 1) ?a = Some (zs @ ?a # ?b # ys)"
      using buf_put_at [of _ zs c "?b # ys" ?a] dn xs(2) by simp
    moreover have "itoa_loop ?q (int (length (dec ?q)) - 1) (zs @ ?a # ?b # ys) = Some (dec ?q @ ?a # ?b # ys)"
      using less.IH [of ?q zs "?a # ?b # ys"] 1 xs(2) by simp
    moreover have "int (length (dec n)) - 1 - 2 = int (length (dec ?q)) - 1"
      using dn by simp
    ultimately show ?thesis
      using 1 xs(1) dn b by (subst itoa_loop.simps) (simp add: Let_def)
  next
    case 2
    then have dn: "dec n = [digit_char (n div 10), digit_char (n mod 10)]" by (rule dec_two_digits_only)
    with less.prems obtain c d where xs: "xs = [c, d]"
      by (auto simp: length_Suc_conv numeral_2_eq_2)
    show ?thesis
      using 2 dn xs digits_nth [of n] buf_put_at [of 1 "[c]" d ys] buf_put_at [of 0 "[]" c]
      by (subst itoa_loop.simps) (simp add: Let_def)
  next
    case 3
    then have "dec n = [digit_char n]" by (rule dec_induct_cases)
    moreover with less.prems obtain c where "xs = [c]"
      by (auto simp: length_Suc_conv)
    ultimately show ?thesis
      using 3 buf_put_at [of 0 "[]" c ys] by (subst itoa_loop.simps) (simp add: digit_char_def)
  qed
qed

text \<open>The signed decimal numeral, as \<open>printf("%d")\<close> prints it.\<close>

definition dec_int :: "int \<Rightarrow> string" where
  "dec_int i = (if i < 0 then ''-'' else []) @ dec (nat \<bar>i\<bar>)"

lemma uint_of_small:
  "0 \<le> i \<Longrightarrow> i \<le> 2 ^ (LENGTH('a) - 1) \<Longrightarrow> (w :: 'a::len word) = word_of_int i \<Longrightarrow> unat w = nat i"
proof -
  assume i: "0 \<le> i" "i \<le> 2 ^ (LENGTH('a) - 1)" and w: "w = word_of_int i"
  have "(2::int) ^ (LENGTH('a) - 1) < 2 ^ LENGTH('a)" by simp
  with i have "i mod 2 ^ LENGTH('a) = i" by (intro mod_pos_pos_trivial) linarith+
  then have "uint w = i" unfolding w by (simp only: uint_word_of_int)
  then show ?thesis by (simp only: unat_eq_nat_uint)
qed

lemma unat_abs: "unat (if w <s 0 then NOT w + 1 else (w :: 'a::len word)) = nat \<bar>sint w\<bar>"
proof (cases "w <s 0")
  case True
  then have neg: "sint w < 0" by (simp add: word_sless_alt)
  have "NOT w + 1 = - w" by (simp add: minus_eq_not_plus_1 [symmetric])
  moreover have "unat (- w) = nat (- sint w)"
    using neg sint_ge [of w] by (intro uint_of_small) simp_all
  ultimately show ?thesis using True neg by simp
next
  case False
  then have nonneg: "0 \<le> sint w" by (simp add: word_sless_alt)
  have "unat w = nat (sint w)"
    using nonneg sint_lt [of w] by (intro uint_of_small) simp_all
  with False nonneg show ?thesis by simp
qed

lemma itoa_unsigned:
  "length (dec (unat v)) \<le> length buf \<Longrightarrow>
     itoa_32 v buf = Some (length (dec (unat v)), dec (unat v) @ drop (length (dec (unat v))) buf)"
  "length (dec (unat w)) \<le> length buf \<Longrightarrow>
     itoa_64 w buf = Some (length (dec (unat w)), dec (unat w) @ drop (length (dec (unat w))) buf)"
proof -
  have loop: "itoa_loop n (int (length (dec n)) - 1) buf = Some (dec n @ drop (length (dec n)) buf)"
    if "length (dec n) \<le> length buf" for n
    using itoa_loop_dec [of "take (length (dec n)) buf" n "drop (length (dec n)) buf"] that by simp
  show "length (dec (unat v)) \<le> length buf \<Longrightarrow>
     itoa_32 v buf = Some (length (dec (unat v)), dec (unat v) @ drop (length (dec (unat v))) buf)"
    "length (dec (unat w)) \<le> length buf \<Longrightarrow>
     itoa_64 w buf = Some (length (dec (unat w)), dec (unat w) @ drop (length (dec (unat w))) buf)"
    using loop by (simp_all add: itoa_32_def itoa_64_def countDigits32_dec countDigits64_dec Let_def)
qed

lemma itoa_signed:
  assumes f: "\<And>b. length (dec n) \<le> length b \<Longrightarrow> f b = Some (length (dec n), dec n @ drop (length (dec n)) b)"
    and len: "Suc (length (dec n)) \<le> length buf"
  shows "after_sign buf f = Some (Suc (length (dec n)), CHR ''-'' # dec n @ drop (Suc (length (dec n))) buf)"
proof -
  from len obtain b bs where "buf = b # bs" by (cases buf) auto
  with f [of bs] len show ?thesis by (simp add: after_sign_def buf_put_def)
qed

lemma sless_zero: "w <s 0 \<longleftrightarrow> sint w < 0"
  by (simp add: word_sless_alt)

text \<open>Into a buffer that is long enough, \<open>itoa\<close> writes the decimal numeral and counts its bytes.\<close>

lemma itoa_dec:
  "length (dec_int (sint v)) \<le> length buf \<Longrightarrow> itoa32 v buf =
     Some (length (dec_int (sint v)), dec_int (sint v) @ drop (length (dec_int (sint v))) buf)"
  "length (dec_int (sint w)) \<le> length buf \<Longrightarrow> itoa64 w buf =
     Some (length (dec_int (sint w)), dec_int (sint w) @ drop (length (dec_int (sint w))) buf)"
proof -
  show "length (dec_int (sint v)) \<le> length buf \<Longrightarrow> itoa32 v buf =
     Some (length (dec_int (sint v)), dec_int (sint v) @ drop (length (dec_int (sint v))) buf)"
    using itoa_signed [of "nat \<bar>sint v\<bar>" "itoa_32 (NOT v + 1)" buf] itoa_unsigned(1) [of "NOT v + 1"]
      itoa_unsigned(1) [of v buf] unat_abs [of v]
    by (cases "v <s 0") (simp_all add: itoa32_def dec_int_def sless_zero)
  show "length (dec_int (sint w)) \<le> length buf \<Longrightarrow> itoa64 w buf =
     Some (length (dec_int (sint w)), dec_int (sint w) @ drop (length (dec_int (sint w))) buf)"
    using itoa_signed [of "nat \<bar>sint w\<bar>" "itoa_64 (NOT w + 1)" buf] itoa_unsigned(2) [of "NOT w + 1"]
      itoa_unsigned(2) [of w buf] unat_abs [of w]
    by (cases "w <s 0") (simp_all add: itoa64_def dec_int_def sless_zero)
qed

text \<open>The buffers of the writer, of 11 and 20 bytes, are long enough.\<close>

lemma dec_int_length:
  "length (dec_int (sint (v :: i32))) \<le> 11" "length (dec_int (sint (w :: i64))) \<le> 20"
proof -
  have "\<bar>sint v\<bar> \<le> 2 ^ 31" using sint_ge [of v] sint_lt [of v] by simp
  then have "length (dec (nat \<bar>sint v\<bar>)) \<le> 10"
    by (intro length_dec_le) simp_all
  then show "length (dec_int (sint v)) \<le> 11" by (auto simp: dec_int_def)
  have "\<bar>sint w\<bar> \<le> 2 ^ 63" using sint_ge [of w] sint_lt [of w] by simp
  then have "length (dec (nat \<bar>sint w\<bar>)) \<le> 19"
    by (intro length_dec_le) simp_all
  then show "length (dec_int (sint w)) \<le> 20" by (auto simp: dec_int_def)
qed

section \<open>The writer\<close>

text \<open>\<open>StringWriteStream::put\<close>, for a byte and for a view.\<close>

definition put_char :: "char \<Rightarrow> string \<Rightarrow> string" where
  "put_char c buffer = buffer @ [c]"

definition put_view :: "string \<Rightarrow> string \<Rightarrow> string" where
  "put_view str buffer = buffer @ str"

text \<open>
  \<open>FileWriteStream::put\<close> of a view goes through \<open>fprintf("%.*s")\<close>, which stops at a NUL byte.
\<close>

definition put_view_file :: "string \<Rightarrow> string \<Rightarrow> string" where
  "put_view_file str out = out @ takeWhile (\<lambda>c. c \<noteq> nul_char) str"

record wlevel =
  inArray :: bool
  valueCount :: nat

record writer =
  w_stack :: "wlevel list"
  w_os :: string
  w_seeValue :: bool

definition writer_init :: writer where
  "writer_init = \<lparr>w_stack = [], w_os = [], w_seeValue = False\<rparr>"

definition wput :: "string \<Rightarrow> writer \<Rightarrow> writer" where
  "wput s w = w\<lparr>w_os := put_view s (w_os w)\<rparr>"

text \<open>\<open>Writer::prefix\<close>; the stack's back is the list's head.\<close>

definition prefix :: "value_type \<Rightarrow> writer \<Rightarrow> writer answer" where
  "prefix type w =
     (if w_seeValue w \<and> w_stack w = [] then HAbort
      else let w = w\<lparr>w_seeValue := True\<rparr> in
        case w_stack w of
          [] \<Rightarrow> HGo w
        | lvl # st \<Rightarrow>
            let bump = (\<lambda>w. w\<lparr>w_stack := lvl\<lparr>valueCount := Suc (valueCount lvl)\<rparr> # st\<rparr>) in
            if inArray lvl then
              HGo (bump (if 0 < valueCount lvl then wput '','' w else w))
            else if valueCount lvl mod 2 = 1 then HGo (bump (wput '':'' w))
            else if type = TYPE_STRING then
              HGo (bump (if 0 < valueCount lvl then wput '','' w else w))
            else HAbort)"

text \<open>\<open>os_.put(std::string_view(buf, cnt))\<close> after \<open>itoa\<close> on an uninitialised buffer.\<close>

definition put_itoa :: "(nat \<times> string) option \<Rightarrow> writer \<Rightarrow> writer answer" where
  "put_itoa r w = (case r of None \<Rightarrow> HAbort | Some (cnt, buf) \<Rightarrow> HGo (wput (take cnt buf) w))"

text \<open>The text of a double, with the assert on its length.\<close>

definition format_double :: "double \<Rightarrow> string option" where
  "format_double d =
     (if isinf d then Some ''Infinity''
      else if isnan d then Some ''NaN''
      else let buf = fmt_g 17 d; n = length buf in
        if 0 < n \<and> n < 32 then Some (if list_all is_digit buf then buf @ ''.0'' else buf)
        else None)"

definition hex_upper :: "nat \<Rightarrow> char" where
  "hex_upper n = (if n < 10 then char_of (48 + n) else char_of (55 + n))"

text \<open>\<open>"\\u%04X"\<close> of a number below \<open>0x10000\<close>.\<close>

definition unicode_escape :: "nat \<Rightarrow> string" where
  "unicode_escape u =
     [backslash_char, CHR ''u'', hex_upper (u div 4096), hex_upper (u div 256 mod 16),
      hex_upper (u div 16 mod 16), hex_upper (u mod 16)]"

text \<open>One byte of \<open>String\<close>. \<open>static_cast<unsigned>\<close> of a byte above 127 is large, so it is put as it is.\<close>

definition escape_char :: "char \<Rightarrow> string" where
  "escape_char c =
     (if c = quote_char then [backslash_char, quote_char]
      else if c = CHR 0x08 then [backslash_char, CHR ''b'']
      else if c = CHR 0x0C then [backslash_char, CHR ''f'']
      else if c = lf_char then [backslash_char, CHR ''n'']
      else if c = cr_char then [backslash_char, CHR ''r'']
      else if c = tab_char then [backslash_char, CHR ''t'']
      else if c = backslash_char then [backslash_char, backslash_char]
      else if byte_of c < 0x20 then unicode_escape (byte_of c)
      else [c])"

definition escape :: "string \<Rightarrow> string" where
  "escape s = concat (map escape_char s)"

definition writer_open :: "bool \<Rightarrow> char \<Rightarrow> writer \<Rightarrow> writer answer" where
  "writer_open arr c w =
     hbind (prefix (if arr then TYPE_ARRAY else TYPE_OBJECT) w) (\<lambda>w.
       HGo (wput [c] (w\<lparr>w_stack := \<lparr>inArray = arr, valueCount = 0\<rparr> # w_stack w\<rparr>)))"

definition writer_close :: "bool \<Rightarrow> char \<Rightarrow> writer \<Rightarrow> writer answer" where
  "writer_close arr c w =
     (case w_stack w of
        [] \<Rightarrow> HAbort
      | lvl # st \<Rightarrow> if inArray lvl = arr then HGo (wput [c] (w\<lparr>w_stack := st\<rparr>)) else HAbort)"

fun writer_handler :: "writer handler" where
  "writer_handler ENull w = hbind (prefix TYPE_NULL w) (\<lambda>w. HGo (wput ''null'' w))"
| "writer_handler (EBool b) w =
     hbind (prefix TYPE_BOOL w) (\<lambda>w. HGo (wput (if b then ''true'' else ''false'') w))"
| "writer_handler (EInt32 i) w =
     hbind (prefix TYPE_INT32 w) (put_itoa (itoa32 i (replicate 11 nul_char)))"
| "writer_handler (EInt64 i) w =
     hbind (prefix TYPE_INT64 w) (put_itoa (itoa64 i (replicate 20 nul_char)))"
| "writer_handler (EDouble d) w =
     hbind (prefix TYPE_DOUBLE w) (\<lambda>w.
       case format_double d of None \<Rightarrow> HAbort | Some buf \<Rightarrow> HGo (wput buf w))"
| "writer_handler (EString s) w =
     hbind (prefix TYPE_STRING w) (\<lambda>w.
       HGo (wput [quote_char] (wput (escape s) (wput [quote_char] w))))"
| "writer_handler EStartObject w = writer_open False (CHR ''{'') w"
| "writer_handler (EKey s) w =
     hbind (prefix TYPE_STRING w) (\<lambda>w.
       HGo (wput [quote_char] (wput s (wput [quote_char] w))))"
| "writer_handler EEndObject w = writer_close False (CHR ''}'') w"
| "writer_handler EStartArray w = writer_open True (CHR ''['') w"
| "writer_handler EEndArray w = writer_close True (CHR '']'') w"

text \<open>\<open>value.writeTo(writer)\<close> on a fresh writer: the text in its stream.\<close>

definition write_value :: "jvalue \<Rightarrow> string option" where
  "write_value v =
     (case writeTo writer_handler v writer_init of HGo w \<Rightarrow> Some (w_os w) | _ \<Rightarrow> None)"

section \<open>What the text should be\<close>

fun separated :: "nat \<Rightarrow> string list \<Rightarrow> string" where
  "separated n [] = []"
| "separated n (t # ts) = (if 0 < n then '','' else []) @ t @ separated (Suc n) ts"

text \<open>The items with a comma between each two.\<close>

definition commas :: "string list \<Rightarrow> string" where
  "commas = separated 0"

definition double_text :: "double \<Rightarrow> string" where
  "double_text d = (case format_double d of Some t \<Rightarrow> t | None \<Rightarrow> [])"

fun render :: "jvalue \<Rightarrow> string" where
  "render JNull = ''null''"
| "render (JBool b) = (if b then ''true'' else ''false'')"
| "render (JInt32 i) = dec_int (sint i)"
| "render (JInt64 i) = dec_int (sint i)"
| "render (JDouble d) = double_text d"
| "render (JString s) = quote_char # escape s @ [quote_char]"
| "render (JArray vs) = CHR ''['' # commas (map render vs) @ '']''"
| "render (JObject ms) =
     CHR ''{'' # commas (map (\<lambda>(k, v). quote_char # k @ quote_char # CHR '':'' # render v) ms) @ ''}''"

definition member_text :: "string \<times> jvalue \<Rightarrow> string" where
  "member_text m = quote_char # fst m @ quote_char # CHR '':'' # render (snd m)"

lemma render_object [simp]: "render (JObject ms) = CHR ''{'' # commas (map member_text ms) @ ''}''"
  by (simp add: member_text_def [abs_def] case_prod_beta')

declare render.simps(8) [simp del]

text \<open>Values all of whose doubles pass the assert on the length of their text.\<close>

fun writable :: "jvalue \<Rightarrow> bool" where
  "writable (JDouble d) \<longleftrightarrow> format_double d \<noteq> None"
| "writable (JArray vs) \<longleftrightarrow> (\<forall>v\<in>set vs. writable v)"
| "writable (JObject ms) \<longleftrightarrow> (\<forall>(k, v)\<in>set ms. writable v)"
| "writable _ \<longleftrightarrow> True"

section \<open>Refinement\<close>

lemma wput_fields [simp]:
  "w_stack (wput s w) = w_stack w" "w_seeValue (wput s w) = w_seeValue w"
  "w_os (wput s w) = w_os w @ s"
  by (simp_all add: wput_def put_view_def)

lemma wput_wput [simp]: "wput t (wput s w) = wput (s @ t) w"
  by (simp add: wput_def put_view_def)

lemma wput_Nil [simp]: "wput [] w = w"
  by (simp add: wput_def put_view_def)

lemma wput_stack: "wput s w\<lparr>w_stack := st\<rparr> = wput s (w\<lparr>w_stack := st\<rparr>)"
  by (simp add: wput_def)

lemma put_itoa_dec [simp]:
  "put_itoa (itoa32 i (replicate 11 c)) w = HGo (wput (dec_int (sint i)) w)"
  "put_itoa (itoa64 j (replicate 20 c)) w = HGo (wput (dec_int (sint j)) w)"
  using dec_int_length(1) [of i] dec_int_length(2) [of j] by (simp_all add: put_itoa_def itoa_dec)

text \<open>\<open>at_level arr n st w\<close>: the writer is inside a container that was sent \<open>n\<close> values.\<close>

definition at_level :: "bool \<Rightarrow> nat \<Rightarrow> wlevel list \<Rightarrow> writer \<Rightarrow> bool" where
  "at_level arr n st w \<longleftrightarrow>
     w_stack w = \<lparr>inArray = arr, valueCount = n\<rparr> # st \<and> w_seeValue w"

text \<open>The writer after \<open>s\<close> was put and the count of its top level became \<open>n\<close>.\<close>

definition moved :: "bool \<Rightarrow> nat \<Rightarrow> wlevel list \<Rightarrow> string \<Rightarrow> writer \<Rightarrow> writer" where
  "moved arr n st s w = w\<lparr>w_stack := \<lparr>inArray = arr, valueCount = n\<rparr> # st, w_os := w_os w @ s\<rparr>"

lemma moved_simps [simp]:
  "at_level arr n st (moved arr n st s w) \<longleftrightarrow> w_seeValue w"
  "moved arr n st t (moved arr m st s w) = moved arr n st (s @ t) w"
  "wput t (moved arr n st s w) = moved arr n st (s @ t) w"
  by (simp_all add: moved_def at_level_def wput_def put_view_def)

lemma at_level_same: "at_level arr n st w \<Longrightarrow> moved arr n st [] w = w"
  by (simp add: at_level_def moved_def)

lemma prefix_array:
  "at_level True n st w \<Longrightarrow> prefix t w = HGo (moved True (Suc n) st (if 0 < n then '','' else []) w)"
  by (simp add: prefix_def at_level_def moved_def wput_def put_view_def)

lemma prefix_object:
  "at_level False n st w \<Longrightarrow> even n \<Longrightarrow>
     prefix TYPE_STRING w = HGo (moved False (Suc n) st (if 0 < n then '','' else []) w)"
  "at_level False n st w \<Longrightarrow> odd n \<Longrightarrow> prefix t w = HGo (moved False (Suc n) st '':'' w)"
  by (simp_all add: prefix_def at_level_def moved_def wput_def put_view_def odd_iff_mod_2_eq_one)

text \<open>A value is written right after its prefix.\<close>

definition writes :: "jvalue \<Rightarrow> bool" where
  "writes v \<longleftrightarrow> (\<forall>w w'. prefix (getType v) w = HGo w' \<longrightarrow>
     run_events writer_handler (events v) w = HGo (wput (render v) w'))"

lemma writesD:
  "writes v \<Longrightarrow> prefix (getType v) w = HGo w' \<Longrightarrow>
     run_events writer_handler (events v) w = HGo (wput (render v) w')"
  by (simp add: writes_def)

lemma writer_elements:
  "\<forall>v\<in>set vs. writes v \<Longrightarrow> at_level True n st w \<Longrightarrow>
     run_events writer_handler (concat (map events vs)) w =
       HGo (moved True (n + length vs) st (separated n (map render vs)) w)"
proof (induction vs arbitrary: n w)
  case Nil
  then show ?case by (simp add: at_level_same)
next
  case (Cons v vs)
  then have "w_seeValue w" by (simp add: at_level_def)
  moreover have "run_events writer_handler (events v) w =
      HGo (moved True (Suc n) st ((if 0 < n then '','' else []) @ render v) w)"
    using Cons.prems by (simp add: writesD [OF _ prefix_array])
  ultimately show ?case
    using Cons.IH [of "Suc n"] Cons.prems(1) by (simp add: run_events_append)
qed

lemma writer_members:
  "\<forall>m\<in>set ms. writes (snd m) \<Longrightarrow> at_level False (2 * n) st w \<Longrightarrow>
     run_events writer_handler (member_events ms) w =
       HGo (moved False (2 * (n + length ms)) st (separated n (map member_text ms)) w)"
proof (induction ms arbitrary: n w)
  case Nil
  then show ?case by (simp add: at_level_same)
next
  case (Cons m ms)
  then have seen: "w_seeValue w" by (simp add: at_level_def)
  let ?w1 = "moved False (Suc (2 * n)) st
    ((if 0 < n then '','' else []) @ quote_char # fst m @ [quote_char]) w"
  have "writer_handler (EKey (fst m)) w = HGo ?w1"
    using Cons.prems(2) by (simp add: prefix_object)
  moreover have "run_events writer_handler (events (snd m)) ?w1 =
      HGo (moved False (Suc (Suc (2 * n))) st ((if 0 < n then '','' else []) @ member_text m) w)"
    using Cons.prems(1) seen
    by (simp add: writesD [OF _ prefix_object(2) [where st = st and n = "Suc (2 * n)"]] member_text_def)
  ultimately show ?case
    using Cons.IH [of "Suc n"] Cons.prems(1) seen by (simp add: run_events_append)
qed

lemma writer_container:
  assumes opn: "prefix t w = HGo w'" "t = (if arr then TYPE_ARRAY else TYPE_OBJECT)"
    and body: "\<And>w1. at_level arr 0 (w_stack w') w1 \<Longrightarrow>
      run_events writer_handler es w1 = HGo (moved arr k (w_stack w') s w1)"
  shows "hbind (writer_open arr c w) (\<lambda>h. hbind (run_events writer_handler es h) (writer_close arr d)) =
    HGo (wput (c # s @ [d]) w')"
proof -
  have seen: "w_seeValue w'"
    using opn(1) by (auto simp: prefix_def Let_def split: if_splits list.splits)
  let ?w1 = "wput [c] (w'\<lparr>w_stack := \<lparr>inArray = arr, valueCount = 0\<rparr> # w_stack w'\<rparr>)"
  have "at_level arr 0 (w_stack w') ?w1"
    using seen by (simp add: at_level_def)
  from body [OF this] opn show ?thesis
    by (auto simp: writer_open_def writer_close_def moved_def wput_def put_view_def)
qed

lemma writable_writes: "writable v \<Longrightarrow> writes v"
proof (induction v)
  case (JArray vs)
  then have "\<forall>v\<in>set vs. writes v" by simp
  from writer_elements [OF this, of 0] show ?case
    using writer_container [of TYPE_ARRAY _ _ True "concat (map events vs)"]
    by (simp add: writes_def run_events_append_fun commas_def)
next
  case (JObject ms)
  then have "\<forall>m\<in>set ms. writes (snd m)" by fastforce
  from writer_members [OF this, of 0] show ?case
    using writer_container [of TYPE_OBJECT _ _ False "member_events ms"]
    by (simp add: writes_def run_events_append_fun commas_def)
qed (auto simp: writes_def double_text_def)

interpretation writer: key_handler writer_handler
proof
  fix k w w'
  have "prefix t w \<noteq> HStop w'" for t
    by (auto simp: prefix_def Let_def split: list.splits)
  then show "writer_handler (EKey k) w \<noteq> HStop w'"
    by (cases "prefix TYPE_STRING w") auto
qed

text \<open>Replaying a value into a fresh writer gives its text.\<close>

lemma writer_render: "writable v \<Longrightarrow> write_value v = Some (render v)"
proof -
  assume "writable v"
  then have "writes v" by (rule writable_writes)
  moreover have "prefix (getType v) writer_init = HGo (writer_init\<lparr>w_seeValue := True\<rparr>)"
    by (simp add: prefix_def writer_init_def)
  ultimately show ?thesis
    by (simp add: writesD write_value_def writer.writeTo_run writer_init_def)
qed

section \<open>The pretty writer\<close>

record pwriter =
  pw_indent :: string
  pw_depth :: nat
  pw_expect :: bool
  pw_writer :: writer

definition pretty_init :: "string \<Rightarrow> pwriter" where
  "pretty_init ind = \<lparr>pw_indent = ind, pw_depth = 0, pw_expect = False, pw_writer = writer_init\<rparr>"

text \<open>The two writers share the stream; the inner writer's answer is not looked at.\<close>

definition pput :: "string \<Rightarrow> pwriter \<Rightarrow> pwriter" where
  "pput s p = p\<lparr>pw_writer := wput s (pw_writer p)\<rparr>"

definition inner :: "event \<Rightarrow> pwriter \<Rightarrow> pwriter answer" where
  "inner e p =
     (case writer_handler e (pw_writer p) of
        HGo w \<Rightarrow> HGo (p\<lparr>pw_writer := w\<rparr>)
      | HStop w \<Rightarrow> HGo (p\<lparr>pw_writer := w\<rparr>)
      | HAbort \<Rightarrow> HAbort)"

definition putNewline :: "pwriter \<Rightarrow> pwriter" where
  "putNewline p = pput [lf_char] p"

definition putIndent :: "pwriter \<Rightarrow> pwriter" where
  "putIndent p = ((pput (pw_indent p)) ^^ pw_depth p) p"

definition keepIndent :: "pwriter \<Rightarrow> pwriter answer" where
  "keepIndent p =
     HGo ((if 0 < pw_depth p then putIndent (putNewline p) else p)\<lparr>pw_expect := False\<rparr>)"

definition incrIndent :: "pwriter \<Rightarrow> pwriter answer" where
  "incrIndent p =
     (let p = p\<lparr>pw_depth := Suc (pw_depth p)\<rparr>
      in HGo ((putIndent (putNewline p))\<lparr>pw_expect := False\<rparr>))"

definition decrIndent :: "pwriter \<Rightarrow> pwriter answer" where
  "decrIndent p =
     (if 0 < pw_depth p then
        let p = p\<lparr>pw_depth := pw_depth p - 1\<rparr>
        in HGo ((putIndent (putNewline p))\<lparr>pw_expect := False\<rparr>)
      else HAbort)"

fun pretty_handler :: "pwriter handler" where
  "pretty_handler EStartObject p = hbind (inner EStartObject p) incrIndent"
| "pretty_handler (EKey s) p = inner (EKey s) (p\<lparr>pw_expect := True\<rparr>)"
| "pretty_handler EEndObject p = hbind (decrIndent p) (inner EEndObject)"
| "pretty_handler EStartArray p = hbind (inner EStartArray p) incrIndent"
| "pretty_handler EEndArray p = hbind (decrIndent p) (inner EEndArray)"
| "pretty_handler e p = hbind (inner e p) keepIndent"

definition pretty_value :: "string \<Rightarrow> jvalue \<Rightarrow> string option" where
  "pretty_value ind v =
     (case writeTo pretty_handler v (pretty_init ind) of HGo p \<Rightarrow> Some (w_os (pw_writer p)) | _ \<Rightarrow> None)"

text \<open>The text expected of it: a line break with the indentation of the depth after each value
  inside a container, after an opening bracket and before a closing one.\<close>

definition line :: "string \<Rightarrow> nat \<Rightarrow> string" where
  "line ind n = lf_char # concat (replicate n ind)"

fun pretty :: "string \<Rightarrow> nat \<Rightarrow> jvalue \<Rightarrow> string" where
  "pretty ind n (JArray vs) =
     CHR ''['' # line ind (Suc n) @ commas (map (pretty ind (Suc n)) vs) @ line ind n @ '']''"
| "pretty ind n (JObject ms) =
     CHR ''{'' # line ind (Suc n) @
       commas (map (\<lambda>(k, v). quote_char # k @ quote_char # CHR '':'' # pretty ind (Suc n) v) ms) @
       line ind n @ ''}''"
| "pretty ind n v = render v @ (if 0 < n then line ind n else [])"

definition pretty_member :: "string \<Rightarrow> nat \<Rightarrow> string \<times> jvalue \<Rightarrow> string" where
  "pretty_member ind n m = quote_char # fst m @ quote_char # CHR '':'' # pretty ind n (snd m)"

lemma pretty_object [simp]:
  "pretty ind n (JObject ms) =
     CHR ''{'' # line ind (Suc n) @ commas (map (pretty_member ind (Suc n)) ms) @ line ind n @ ''}''"
  by (simp add: pretty_member_def [abs_def] case_prod_beta')

declare pretty.simps(2) [simp del]

lemma pput_power: "((pput s) ^^ n) p = pput (concat (replicate n s)) p"
  by (induction n) (simp_all add: pput_def replicate_append_same [symmetric])

lemma put_line: "putIndent (putNewline p) = pput (line (pw_indent p) (pw_depth p)) p"
  by (simp add: putIndent_def putNewline_def pput_power line_def) (simp add: pput_def pput_power)

definition pset :: "writer \<Rightarrow> pwriter \<Rightarrow> pwriter" where
  "pset w p = p\<lparr>pw_writer := w, pw_expect := False\<rparr>"

lemma pset_simps [simp]:
  "pw_writer (pset w p) = w" "pset w' (pset w p) = pset w' p" "pw_indent (pset w p) = pw_indent p"
  "pw_depth (pset w p) = pw_depth p" "\<not> pw_expect (pset w p)"
  by (simp_all add: pset_def)

lemma pset_same: "\<not> pw_expect p \<Longrightarrow> pset (pw_writer p) p = p"
  by (simp add: pset_def)

definition pwrites :: "jvalue \<Rightarrow> bool" where
  "pwrites v \<longleftrightarrow> (\<forall>p w'. prefix (getType v) (pw_writer p) = HGo w' \<longrightarrow>
     run_events pretty_handler (events v) p =
       HGo (pset (wput (pretty (pw_indent p) (pw_depth p) v) w') p))"

lemma pwritesD:
  "pwrites v \<Longrightarrow> prefix (getType v) (pw_writer p) = HGo w' \<Longrightarrow>
     run_events pretty_handler (events v) p =
       HGo (pset (wput (pretty (pw_indent p) (pw_depth p) v) w') p)"
  by (simp add: pwrites_def)

lemma pretty_elements:
  "\<forall>v\<in>set vs. pwrites v \<Longrightarrow> at_level True n st (pw_writer p) \<Longrightarrow> \<not> pw_expect p \<Longrightarrow>
     run_events pretty_handler (concat (map events vs)) p =
       HGo (pset (moved True (n + length vs) st
         (separated n (map (pretty (pw_indent p) (pw_depth p)) vs)) (pw_writer p)) p)"
proof (induction vs arbitrary: n p)
  case Nil
  then show ?case by (simp add: at_level_same pset_same)
next
  case (Cons v vs)
  then have "w_seeValue (pw_writer p)" by (simp add: at_level_def)
  moreover have "run_events pretty_handler (events v) p =
      HGo (pset (moved True (Suc n) st
        ((if 0 < n then '','' else []) @ pretty (pw_indent p) (pw_depth p) v) (pw_writer p)) p)"
    using Cons.prems by (simp add: pwritesD [OF _ prefix_array])
  ultimately show ?case
    using Cons.IH [where n = "Suc n"] Cons.prems(1) by (simp add: run_events_append)
qed

lemma pretty_members:
  "\<forall>m\<in>set ms. pwrites (snd m) \<Longrightarrow> at_level False (2 * n) st (pw_writer p) \<Longrightarrow> \<not> pw_expect p \<Longrightarrow>
     run_events pretty_handler (member_events ms) p =
       HGo (pset (moved False (2 * (n + length ms)) st
         (separated n (map (pretty_member (pw_indent p) (pw_depth p)) ms)) (pw_writer p)) p)"
proof (induction ms arbitrary: n p)
  case Nil
  then show ?case by (simp add: at_level_same pset_same)
next
  case (Cons m ms)
  then have seen: "w_seeValue (pw_writer p)" by (simp add: at_level_def)
  let ?w1 = "moved False (Suc (2 * n)) st
    ((if 0 < n then '','' else []) @ quote_char # fst m @ [quote_char]) (pw_writer p)"
  let ?p1 = "p\<lparr>pw_expect := True, pw_writer := ?w1\<rparr>"
  have "pretty_handler (EKey (fst m)) p = HGo ?p1"
    using Cons.prems(2) by (simp add: prefix_object inner_def)
  moreover have "run_events pretty_handler (events (snd m)) ?p1 =
      HGo (pset (moved False (Suc (Suc (2 * n))) st
        ((if 0 < n then '','' else []) @ pretty_member (pw_indent p) (pw_depth p) m) (pw_writer p)) p)"
    using Cons.prems(1) seen
    by (simp add: pwritesD [OF _ prefix_object(2) [where st = st and n = "Suc (2 * n)"]]
        pretty_member_def pset_def)
  ultimately show ?case
    using Cons.IH [where n = "Suc n"] Cons.prems(1) seen by (simp add: run_events_append)
qed

lemma pretty_container:
  fixes p
  assumes opn: "prefix (if arr then TYPE_ARRAY else TYPE_OBJECT) (pw_writer p) = HGo w'"
    and body: "\<And>p1. at_level arr 0 (w_stack w') (pw_writer p1) \<Longrightarrow> \<not> pw_expect p1 \<Longrightarrow>
      pw_indent p1 = pw_indent p \<Longrightarrow> pw_depth p1 = Suc (pw_depth p) \<Longrightarrow>
      run_events pretty_handler es p1 = HGo (pset (moved arr k (w_stack w') s (pw_writer p1)) p1)"
    and c: "\<And>w. writer_handler e w = writer_open arr c w" "\<And>w. writer_handler e' w = writer_close arr d w"
  shows "hbind (hbind (inner e p) incrIndent) (\<lambda>h.
      hbind (run_events pretty_handler es h) (\<lambda>h. hbind (decrIndent h) (inner e'))) =
    HGo (pset (wput (c # line (pw_indent p) (Suc (pw_depth p)) @ s @ line (pw_indent p) (pw_depth p) @ [d]) w') p)"
proof -
  have seen: "w_seeValue w'"
    using opn by (auto simp: prefix_def Let_def split: if_splits list.splits)
  let ?w1 = "w'\<lparr>w_stack := \<lparr>inArray = arr, valueCount = 0\<rparr> # w_stack w'\<rparr>"
  let ?p1 = "p\<lparr>pw_writer := wput (c # line (pw_indent p) (Suc (pw_depth p))) ?w1,
    pw_expect := False, pw_depth := Suc (pw_depth p)\<rparr>"
  have "hbind (inner e p) incrIndent = HGo ?p1"
    using opn by (simp add: inner_def c writer_open_def incrIndent_def put_line pput_def Let_def)
  moreover have "run_events pretty_handler es ?p1 = HGo (pset (moved arr k (w_stack w') s (pw_writer ?p1)) ?p1)"
    using seen by (intro body) (simp_all add: at_level_def)
  ultimately show ?thesis
    by (simp add: decrIndent_def put_line pput_def inner_def c writer_close_def moved_def wput_def
        put_view_def pset_def)
qed

lemma writable_pwrites: "writable v \<Longrightarrow> pwrites v"
proof (induction v)
  case (JArray vs)
  then have vs: "\<forall>v\<in>set vs. pwrites v" by simp
  show ?case
    unfolding pwrites_def
  proof (intro allI impI)
    fix p :: pwriter and w'
    assume "prefix (getType (JArray vs)) (pw_writer p) = HGo w'"
    then have "prefix (if True then TYPE_ARRAY else TYPE_OBJECT) (pw_writer p) = HGo w'" by simp
    from pretty_container [OF this, of "concat (map events vs)" "length vs"
        "commas (map (pretty (pw_indent p) (Suc (pw_depth p))) vs)" EStartArray _ EEndArray]
      pretty_elements [OF vs, of 0]
    show "run_events pretty_handler (events (JArray vs)) p =
        HGo (pset (wput (pretty (pw_indent p) (pw_depth p) (JArray vs)) w') p)"
      by (simp add: run_events_append_fun commas_def hbind_assoc)
  qed
next
  case (JObject ms)
  then have ms: "\<forall>m\<in>set ms. pwrites (snd m)" by fastforce
  show ?case
    unfolding pwrites_def
  proof (intro allI impI)
    fix p :: pwriter and w'
    assume "prefix (getType (JObject ms)) (pw_writer p) = HGo w'"
    then have "prefix (if False then TYPE_ARRAY else TYPE_OBJECT) (pw_writer p) = HGo w'" by simp
    from pretty_container [OF this, of "member_events ms" "2 * length ms"
        "commas (map (pretty_member (pw_indent p) (Suc (pw_depth p))) ms)" EStartObject _ EEndObject]
      pretty_members [OF ms, of 0]
    show "run_events pretty_handler (events (JObject ms)) p =
        HGo (pset (wput (pretty (pw_indent p) (pw_depth p) (JObject ms)) w') p)"
      by (simp add: run_events_append_fun commas_def hbind_assoc)
  qed
qed (auto simp: pwrites_def double_text_def inner_def keepIndent_def put_line pset_def pput_def)

interpretation pretty_writer: key_handler pretty_handler
  by unfold_locales (auto simp: inner_def split: answer.splits)

lemma pretty_writer_render: "writable v \<Longrightarrow> pretty_value ind v = Some (pretty ind 0 v)"
proof -
  assume "writable v"
  then have "pwrites v" by (rule writable_pwrites)
  moreover have "prefix (getType v) (pw_writer (pretty_init ind)) = HGo (writer_init\<lparr>w_seeValue := True\<rparr>)"
    by (simp add: prefix_def writer_init_def pretty_init_def)
  ultimately show ?thesis
    by (simp add: pwritesD pretty_value_def pretty_writer.writeTo_run)
      (simp add: writer_init_def pretty_init_def)
qed

section \<open>The text of -1.0\<close>

lemma ratio_one: "ratio2 (2 ^ 52) (- 52) = (4503599627370496, 4503599627370496)"
  by (simp add: ratio2_def)

lemma sig_digits_one: "sig_digits 17 4503599627370496 4503599627370496 = (10000000000000000, 0)"
proof -
  have "length (dec 4503599627370496) = 16"
    using length_dec_eq [of 15 4503599627370496] by simp
  then show ?thesis by (simp add: sig_digits_def floor_log10_def div_round_def Let_def)
qed

lemma fmt_g_one: "fmt_g 17 (DFin s (2 ^ 52) (- 52)) = (if s then ''-1'' else ''1'')"
proof -
  have "dec 10000000000000000 = ''10000000000000000''"
    by (simp add: run_simps)
  then show ?thesis
    by (simp add: fmt_g_def ratio_one [simplified] sig_digits_one with_fraction_def strip_zeros_def)
qed

end
