(* ===== verification/JsonRoundTrip.thy ===== *)
theory JsonRoundTrip
  imports JsonDocument JsonWriter
begin

text \<open>
  Reader and writer together. \<open>text_of v t\<close> is a grammar of texts, with white space between
  tokens as the writers put it; the reader, run on a text of \<open>v\<close> with any handler, sends the
  handler the events of \<open>v\<close>. Both writers print texts of the grammar, so what they print is
  read back, up to the tag of the integers that fit 32 bits and for doubles and keys whose
  printed form can be read back (\<open>readable\<close>).
\<close>

section \<open>Lexing what the writer prints\<close>

text \<open>What may follow a value: the end, a separator, a closing bracket or white space.\<close>

definition stop :: "string \<Rightarrow> bool" where
  "stop s \<longleftrightarrow> s = [] \<or> is_ws (hd s) \<or> hd s = CHR '','' \<or> hd s = CHR '']'' \<or> hd s = CHR ''}''"

lemma stop_peek:
  assumes "stop s"
  shows "\<not> is_digit (peek s)" "peek s \<noteq> CHR ''.''" "peek s \<noteq> CHR ''e''" "peek s \<noteq> CHR ''E''"
    "peek s \<noteq> CHR ''i''"
  using assms by (cases s; auto simp: stop_def is_ws_def is_digit_def byte_of_def)+

lemma stop_simps [simp]:
  "stop []" "stop (CHR '','' # s)" "stop (CHR '']'' # s)" "stop (CHR ''}'' # s)"
  by (simp_all add: stop_def)

definition ws :: "string \<Rightarrow> bool" where
  "ws w \<longleftrightarrow> list_all is_ws w"

lemma ws_stop: "ws w \<Longrightarrow> stop s \<Longrightarrow> stop (w @ s)"
  by (cases w) (auto simp: ws_def stop_def)

lemma parseWhitespace_ws: "ws w \<Longrightarrow> parseWhitespace (w @ s) = parseWhitespace s"
  by (induction w) (auto simp: ws_def)

subsection \<open>Numbers\<close>

definition int_part :: "string \<Rightarrow> bool" where
  "int_part ip \<longleftrightarrow> ip = ''0'' \<or> (ip \<noteq> [] \<and> isDigit19 (hd ip) \<and> list_all is_digit (tl ip))"

definition frac_part :: "string \<Rightarrow> bool" where
  "frac_part f \<longleftrightarrow> f \<noteq> [] \<and> hd f = CHR ''.'' \<and> tl f \<noteq> [] \<and> list_all is_digit (tl f)"

definition expo_part :: "string \<Rightarrow> bool" where
  "expo_part x \<longleftrightarrow> (\<exists>sg ds. x = CHR ''e'' # sg # ds \<and> (sg = CHR ''+'' \<or> sg = CHR ''-'') \<and>
     ds \<noteq> [] \<and> list_all is_digit ds)"

lemma dropWhile_digits:
  "list_all is_digit ds \<Longrightarrow> \<not> is_digit (peek r) \<Longrightarrow> dropWhile is_digit (ds @ r) = r"
  by (induction ds) (cases r, auto)

lemma takeWhile_digits:
  "list_all is_digit ds \<Longrightarrow> \<not> is_digit (peek r) \<Longrightarrow> takeWhile is_digit (ds @ r) = ds"
  by (induction ds) (cases r, auto)

lemma scan_int_part: "int_part ip \<Longrightarrow> \<not> is_digit (peek r) \<Longrightarrow> scan_int (ip @ r) = Some r"
  by (cases ip) (auto simp: int_part_def scan_int_def isDigit19_def byte_of_def dropWhile_digits)

lemma scan_frac_part:
  "frac_part f \<Longrightarrow> \<not> is_digit (peek r) \<Longrightarrow> scan_frac (t, f @ r) = Some (TYPE_DOUBLE, r)"
  "peek r \<noteq> CHR ''.'' \<Longrightarrow> scan_frac (t, r) = Some (t, r)"
proof -
  assume f: "frac_part f" "\<not> is_digit (peek r)"
  then obtain d ds where "f = CHR ''.'' # d # ds" "list_all is_digit (d # ds)"
    by (cases f; cases "tl f") (auto simp: frac_part_def)
  with f(2) show "scan_frac (t, f @ r) = Some (TYPE_DOUBLE, r)"
    by (simp add: scan_frac_def dropWhile_digits)
qed (simp add: scan_frac_def)

lemma scan_exp_part:
  "expo_part x \<Longrightarrow> \<not> is_digit (peek r) \<Longrightarrow> scan_exp (t, x @ r) = Some (TYPE_DOUBLE, r)"
  "peek r \<noteq> CHR ''e'' \<Longrightarrow> peek r \<noteq> CHR ''E'' \<Longrightarrow> scan_exp (t, r) = Some (t, r)"
proof -
  assume x: "expo_part x" "\<not> is_digit (peek r)"
  then obtain sg d ds where "x = CHR ''e'' # sg # d # ds" "sg = CHR ''+'' \<or> sg = CHR ''-''"
    "list_all is_digit (d # ds)"
    by (auto simp: expo_part_def neq_Nil_conv)
  with x(2) show "scan_exp (t, x @ r) = Some (TYPE_DOUBLE, r)"
    by (auto simp: scan_exp_def dropWhile_digits)
qed (simp add: scan_exp_def)

lemma int_part_peek: "int_part ip \<Longrightarrow> peek (ip @ r) \<noteq> CHR ''-''"
  by (cases ip) (auto simp: int_part_def isDigit19_def byte_of_def)

lemma part_peek:
  "frac_part f \<Longrightarrow> \<not> is_digit (peek (f @ r))" "expo_part x \<Longrightarrow> \<not> is_digit (peek (x @ r))"
  "expo_part x \<Longrightarrow> peek (x @ r) \<noteq> CHR ''.''" "frac_part f \<Longrightarrow> peek (f @ r) \<noteq> CHR ''e''"
  by (cases f; auto simp: frac_part_def expo_part_def is_digit_def byte_of_def)+

text \<open>The texts that are read as a double: a fraction or an exponent, or both.\<close>

definition double_lexeme :: "string \<Rightarrow> bool" where
  "double_lexeme t \<longleftrightarrow> (\<exists>neg ip f x. t = neg @ ip @ f @ x \<and> (neg = [] \<or> neg = ''-'') \<and> int_part ip \<and>
     (f = [] \<or> frac_part f) \<and> (x = [] \<or> expo_part x) \<and> (f \<noteq> [] \<or> x \<noteq> []))"

lemma scanNumber_parts:
  assumes "neg = [] \<or> neg = ''-''" "int_part ip" "f = [] \<or> frac_part f" "x = [] \<or> expo_part x" "stop r"
  shows "scanNumber (neg @ ip @ f @ x @ r) = Some (if f = [] \<and> x = [] then TYPE_NULL else TYPE_DOUBLE, r)"
proof -
  let ?s = "ip @ f @ x @ r" and ?start = "neg @ ip @ f @ x @ r"
  note r = stop_peek [OF assms(5)]
  have start: "(if peek ?start = CHR ''-'' then tl ?start else ?start) = ?s"
    using assms(1) int_part_peek [OF assms(2), of "f @ x @ r"] by auto
  have x: "\<not> is_digit (peek (x @ r))" "peek (x @ r) \<noteq> CHR ''.''"
    using assms(4) r part_peek(2,3) by auto
  have f: "\<not> is_digit (peek (f @ x @ r))"
    using assms(3) x part_peek(1) by auto
  have 1: "scan_int ?s = Some (f @ x @ r)"
    using assms(2) f by (rule scan_int_part)
  have 2: "scan_frac (TYPE_NULL, f @ x @ r) = Some (if f = [] then TYPE_NULL else TYPE_DOUBLE, x @ r)"
    using assms(3) x scan_frac_part by (auto simp: frac_part_def)
  have 3: "scan_exp (t, x @ r) = Some (if x = [] then t else TYPE_DOUBLE, r)" for t
    using assms(4) r scan_exp_part(1) [of x r t] scan_exp_part(2) [of r t] by (cases "x = []") auto
  have 4: "scan_suffix (t, r) = Some (t, r)" for t
    using r by (simp add: scan_suffix_def)
  have "r \<noteq> ?start"
  proof
    assume "r = ?start"
    then have "length r = length ?start" by simp
    with assms(2) show False by (auto simp: int_part_def)
  qed
  then show ?thesis
    unfolding scanNumber_def start by (simp add: 1 2 3 4)
qed

lemma int_part_take_dec: "int_part (take (Suc k) (dec n))"
proof -
  obtain c cs where dn: "dec n = c # cs" by (cases "dec n") auto
  show ?thesis
  proof (cases "n = 0")
    case True
    then show ?thesis by (simp add: dec_eval int_part_def)
  next
    case False
    with hd_dec_zero [of n] dn have c: "c \<noteq> CHR ''0''" by simp
    have digits: "\<forall>d\<in>set (c # cs). is_digit d" using dec_digits [of _ n] dn by auto
    have "byte_of c \<noteq> 48"
    proof
      assume "byte_of c = 48"
      then have "byte_of c = byte_of CHR ''0''" by (simp add: byte_of_def)
      with c show False by (simp only: byte_of_inj)
    qed
    with digits have "isDigit19 c" by (auto simp: isDigit19_def is_digit_def)
    with digits dn show ?thesis
      by (auto simp: int_part_def list_all_iff dest: in_set_takeD)
  qed
qed

lemma int_part_dec: "int_part (dec n)"
  using int_part_take_dec [of "length (dec n)" n] by simp

lemma scanNumber_dec_int: "stop r \<Longrightarrow> scanNumber (dec_int i @ r) = Some (TYPE_NULL, r)"
  using scanNumber_parts [of "if i < 0 then ''-'' else []" "dec (nat \<bar>i\<bar>)" "[]" "[]" r] int_part_dec
  by (simp add: dec_int_def)

lemma strtol_dec_int: "stop r \<Longrightarrow> strtol (dec_int i @ r) = i"
proof -
  assume r: "stop r"
  have "takeWhile is_digit (dec (nat \<bar>i\<bar>) @ r) = dec (nat \<bar>i\<bar>)"
    using stop_peek(1) [OF r] dec_digits by (intro takeWhile_digits) (auto simp: list_all_iff)
  then show ?thesis
    using int_part_peek [OF int_part_dec, of "nat \<bar>i\<bar>" r]
    by (auto simp: strtol_def dec_int_def Let_def)
qed

lemma number_head:
  assumes "neg = [] \<or> neg = ''-''" "int_part ip"
  shows "peek (neg @ ip @ s) \<notin> {CHR ''n'', CHR ''t'', CHR ''f'', quote_char, CHR ''['', CHR ''{'',
    CHR ''N'', CHR ''I''}" "hasNext (neg @ ip @ s)" "parseWhitespace (neg @ ip @ s) = neg @ ip @ s"
proof -
  show "peek (neg @ ip @ s) \<notin> {CHR ''n'', CHR ''t'', CHR ''f'', quote_char, CHR ''['', CHR ''{'',
    CHR ''N'', CHR ''I''}" "hasNext (neg @ ip @ s)"
    using assms by (cases ip; auto simp: int_part_def isDigit19_def byte_of_def)+
  show "parseWhitespace (neg @ ip @ s) = neg @ ip @ s"
    using assms by (intro parseWhitespace_stop; cases ip)
      (auto simp: int_part_def isDigit19_def byte_of_def is_ws_def)
qed

subsection \<open>Strings\<close>

lemma hex_upper_value: "n < 16 \<Longrightarrow> hex_value (hex_upper n) = Some n"
  by (simp add: hex_value_def hex_upper_def byte_of_char_of Let_def)

lemma parseHex4_digits:
  assumes "hex_value a = Some i" "hex_value b = Some j" "hex_value c = Some k" "hex_value d = Some l"
  shows "parseHex4 (a # b # c # d # r) = Done (16 * (16 * (16 * i + j) + k) + l, r)"
proof -
  have four: "(4::nat) = Suc (Suc (Suc (Suc 0)))" by simp
  show ?thesis unfolding parseHex4_def four using assms by simp
qed

lemma hex_digits_value: "16 * (16 * (16 * (u div 4096) + u div 256 mod 16) + u div 16 mod 16) + u mod 16 = (u::nat)"
proof -
  have "16 * (u div 4096) + u div 256 mod 16 = u div 256"
    using mult_div_mod_eq [of 16 "u div 256"] by (simp add: div_mult2_eq [symmetric])
  moreover have "16 * (u div 256) + u div 16 mod 16 = u div 16"
    using mult_div_mod_eq [of 16 "u div 16"] by (simp add: div_mult2_eq [symmetric])
  ultimately show ?thesis by simp
qed

lemma parseHex4_escape:
  assumes "u < 0x10000"
  shows "parseHex4 (hex_upper (u div 4096) # hex_upper (u div 256 mod 16) # hex_upper (u div 16 mod 16) #
       hex_upper (u mod 16) # r) = Done (u, r)"
proof -
  from assms have "u div 4096 < 16" by (simp add: div_less_iff_less_mult)
  then show ?thesis
    using parseHex4_digits [of "hex_upper (u div 4096)" "u div 4096" "hex_upper (u div 256 mod 16)"
        "u div 256 mod 16" "hex_upper (u div 16 mod 16)" "u div 16 mod 16" "hex_upper (u mod 16)" "u mod 16" r]
    by (simp only: hex_digits_value hex_upper_value mod_less_divisor zero_less_numeral)
qed

lemma unicode_escape_read:
  assumes "u < 0x80"
  shows "parseEscape (tl (unicode_escape u) @ r) = Done ([char_of u], r)"
proof -
  have "parseHex4 (drop 2 (unicode_escape u) @ r) = Done (u, r)"
    using parseHex4_escape [of u r] assms by (simp add: unicode_escape_def)
  moreover have "encodeUtf8 u = Done [char_of u]"
  proof -
    have "u AND 0xFF = u"
      using assms take_bit_nat_eq_self [of u 8] by (simp add: take_bit_eq_mask mask_eq_exp_minus_1)
    with assms show ?thesis by (simp add: encodeUtf8_def)
  qed
  ultimately show ?thesis
    using assms by (simp add: parseEscape_def unicode_escape_def parseUnicode_def)
qed

lemma scanString_step:
  "parseEscape s = Done (bs, s') \<Longrightarrow> scanString buf (backslash_char # s) = scanString (buf @ bs) s'"
  "c \<noteq> quote_char \<Longrightarrow> c \<noteq> backslash_char \<Longrightarrow> \<not> (1 \<le> byte_of c \<and> byte_of c \<le> 31) \<Longrightarrow>
     scanString buf (c # s) = scanString (buf @ [c]) s"
  by (simp add: byte_of_def) (simp del: not_le One_nat_def de_Morgan_conj)

declare scanString.simps(2) [simp del]

lemma scanString_quote [simp]: "scanString buf (quote_char # s) = Done (buf, s)"
  by (simp add: scanString.simps)

lemma scanString_escape_char: "scanString buf (escape_char c @ r) = scanString (buf @ [c]) r"
proof -
  consider "c \<in> {quote_char, CHR 0x08, CHR 0x0C, lf_char, cr_char, tab_char, backslash_char}"
    | "c \<notin> {quote_char, CHR 0x08, CHR 0x0C, lf_char, cr_char, tab_char, backslash_char}"
      "byte_of c < 0x20"
    | "c \<notin> {quote_char, CHR 0x08, CHR 0x0C, lf_char, cr_char, tab_char, backslash_char}"
      "\<not> byte_of c < 0x20"
    by blast
  then show ?thesis
  proof cases
    case 1
    then show ?thesis
      by (auto simp: escape_char_def scanString_step(1) parseEscape_def)
  next
    case 2
    then have "escape_char c = backslash_char # tl (unicode_escape (byte_of c))"
      by (auto simp: escape_char_def unicode_escape_def)
    then show ?thesis
      using unicode_escape_read [of "byte_of c" r] 2(2) by (simp add: scanString_step(1))
  next
    case 3
    then show ?thesis by (simp add: escape_char_def scanString_step(2))
  qed
qed

text \<open>An escaped string is read back as it was, whatever its bytes.\<close>

lemma scanString_escape: "scanString buf (escape s @ quote_char # r) = Done (buf @ s, r)"
proof (induction s arbitrary: buf)
  case (Cons c s)
  then show ?case
    using scanString_escape_char [of buf c "escape s @ quote_char # r"] by (simp add: escape_def)
qed (simp add: escape_def)

text \<open>A key is printed as it is: it is read back when no byte of it needs an escape.\<close>

definition plain_key :: "string \<Rightarrow> bool" where
  "plain_key k \<longleftrightarrow> list_all (\<lambda>c. c \<noteq> quote_char \<and> c \<noteq> backslash_char \<and> (byte_of c = 0 \<or> 32 \<le> byte_of c)) k"

lemma scanString_plain: "plain_key k \<Longrightarrow> scanString buf (k @ quote_char # r) = Done (buf @ k, r)"
  by (induction k arbitrary: buf) (auto simp: plain_key_def scanString_step(2))

section \<open>A grammar of texts\<close>

inductive text_of :: "jvalue \<Rightarrow> string \<Rightarrow> bool"
  and elements_text :: "jvalue list \<Rightarrow> string \<Rightarrow> bool"
  and members_text :: "members \<Rightarrow> string \<Rightarrow> bool" where
  text_null: "text_of JNull ''null''"
| text_true: "text_of (JBool True) ''true''"
| text_false: "text_of (JBool False) ''false''"
| text_nan: "text_of (JDouble DNaN) ''NaN''"
| text_infinity: "text_of (JDouble (DInf False)) ''Infinity''"
| text_int32: "in_int32 i \<Longrightarrow> text_of (JInt32 (word_of_int i)) (dec_int i)"
| text_int64: "in_int64 i \<Longrightarrow> \<not> in_int32 i \<Longrightarrow> text_of (JInt64 (word_of_int i)) (dec_int i)"
| text_double: "double_lexeme t \<Longrightarrow> strtod t = (d, False) \<Longrightarrow> text_of (JDouble d) t"
| text_string: "text_of (JString s) (quote_char # escape s @ [quote_char])"
| text_empty_array: "ws w \<Longrightarrow> text_of (JArray []) (CHR ''['' # w @ '']'')"
| text_array: "ws w \<Longrightarrow> elements_text vs t \<Longrightarrow> text_of (JArray vs) (CHR ''['' # w @ t)"
| text_empty_object: "ws w \<Longrightarrow> text_of (JObject []) (CHR ''{'' # w @ ''}'')"
| text_object: "ws w \<Longrightarrow> members_text ms t \<Longrightarrow> text_of (JObject ms) (CHR ''{'' # w @ t)"
| last_element: "text_of v t \<Longrightarrow> ws w \<Longrightarrow> elements_text [v] (t @ w @ '']'')"
| more_elements:
    "text_of v t \<Longrightarrow> ws w \<Longrightarrow> ws w' \<Longrightarrow> elements_text vs u \<Longrightarrow>
     elements_text (v # vs) (t @ w @ CHR '','' # w' @ u)"
| last_member:
    "plain_key key \<Longrightarrow> text_of v t \<Longrightarrow> ws w \<Longrightarrow>
     members_text [(key, v)] (quote_char # key @ quote_char # CHR '':'' # t @ w @ ''}'')"
| more_members:
    "plain_key key \<Longrightarrow> text_of v t \<Longrightarrow> ws w \<Longrightarrow> ws w' \<Longrightarrow> members_text ms u \<Longrightarrow>
     members_text ((key, v) # ms) (quote_char # key @ quote_char # CHR '':'' # t @ w @ CHR '','' # w' @ u)"

text \<open>The outcome of a parsing function whose handler answered.\<close>

fun after_answer :: "string \<Rightarrow> 'h answer \<Rightarrow> 'h presult" where
  "after_answer r (HGo h) = POk r h"
| "after_answer r (HStop h) = PThrow PARSE_USER_STOPPED h"
| "after_answer r HAbort = PAbort"

lemma call_answer [simp]: "call hdl e s h = after_answer s (hdl e h)"
  by (simp add: call_def split: answer.split)

lemma pbind_answer:
  "(\<And>h. f s h = after_answer r (g h)) \<Longrightarrow> pbind (after_answer s a) f = after_answer r (hbind a g)"
  by (cases a) auto

definition reads :: "'h handler \<Rightarrow> jvalue \<Rightarrow> string \<Rightarrow> bool" where
  "reads hdl v t \<longleftrightarrow> (\<forall>r. stop r \<longrightarrow> (\<exists>n. \<forall>k\<ge>n. \<forall>h.
     parseValue [] k hdl (t @ r) h = after_answer r (run_events hdl (events v) h)))"

definition reads_elements :: "'h handler \<Rightarrow> jvalue list \<Rightarrow> string \<Rightarrow> bool" where
  "reads_elements hdl vs t \<longleftrightarrow> (\<forall>r. \<exists>n. \<forall>k\<ge>n. \<forall>h.
     parseElements [] k hdl (t @ r) h =
       after_answer r (run_events hdl (concat (map events vs) @ [EEndArray]) h))"

definition reads_members :: "'h handler \<Rightarrow> members \<Rightarrow> string \<Rightarrow> bool" where
  "reads_members hdl ms t \<longleftrightarrow> (\<forall>r. \<exists>n. \<forall>k\<ge>n. \<forall>h.
     parseMembers [] k hdl (t @ r) h =
       after_answer r (run_events hdl (member_events ms @ [EEndObject]) h))"

lemma reads_by_step:
  assumes "\<And>n r h. stop r \<Longrightarrow> parseValue [] (Suc n) hdl (t @ r) h = after_answer r (run_events hdl (events v) h)"
  shows "reads hdl v t"
  unfolding reads_def
proof (intro allI impI)
  fix r assume r: "stop r"
  have "parseValue [] k hdl (t @ r) h = after_answer r (run_events hdl (events v) h)" if "1 \<le> k" for k h
    using assms [OF r, of "k - 1"] that by simp
  then show "\<exists>n. \<forall>k\<ge>n. \<forall>h. parseValue [] k hdl (t @ r) h = after_answer r (run_events hdl (events v) h)"
    by blast
qed

lemma reads_literals:
  "reads hdl JNull ''null''" "reads hdl (JBool True) ''true''" "reads hdl (JBool False) ''false''"
  "reads hdl (JDouble DNaN) ''NaN''" "reads hdl (JDouble (DInf False)) ''Infinity''"
  by (rule reads_by_step, simp add: parse_unfold parseNumber_def parseLiteral_def assertNext_def)+

lemma reads_number:
  assumes "t = neg @ ip @ s" "neg = [] \<or> neg = ''-''" "int_part ip"
    and "\<And>r. stop r \<Longrightarrow> scanNumber (t @ r) = Some (type, r)"
    and "\<And>r. stop r \<Longrightarrow> number_event [] (t @ r) type r = Done e" and "events v = [e]"
  shows "reads hdl v t"
proof (rule reads_by_step)
  fix n r h
  assume "stop r"
  with number_head [OF assms(2,3), of "s @ r"] assms
  show "parseValue [] (Suc n) hdl (t @ r) h = after_answer r (run_events hdl (events v) h)"
    by (simp add: parse_unfold parseNumber_def)
qed

lemma reads_int:
  assumes "in_int64 i"
  shows "reads hdl (if in_int32 i then JInt32 (word_of_int i) else JInt64 (word_of_int i)) (dec_int i)"
  using assms int_part_dec [of "nat \<bar>i\<bar>"]
  by (intro reads_number [where neg = "if i < 0 then ''-'' else []" and ip = "dec (nat \<bar>i\<bar>)" and s = "[]"
        and type = TYPE_NULL and e = "if in_int32 i then EInt32 (word_of_int i) else EInt64 (word_of_int i)"],
      simp add: dec_int_def)
    (simp_all add: scanNumber_dec_int number_event_def strtol_dec_int)

lemma reads_double:
  assumes "double_lexeme t" "strtod t = (d, False)"
  shows "reads hdl (JDouble d) t"
proof -
  from assms(1) obtain neg ip f x where t: "t = neg @ ip @ f @ x" "neg = [] \<or> neg = ''-''" "int_part ip"
    "f = [] \<or> frac_part f" "x = [] \<or> expo_part x" "f \<noteq> [] \<or> x \<noteq> []"
    by (auto simp: double_lexeme_def)
  have scan: "scanNumber (t @ r) = Some (TYPE_DOUBLE, r)" if "stop r" for r
    using scanNumber_parts [OF t(2-5) that] t(1,6) by auto
  show ?thesis
    using assms(2) by (intro reads_number [OF t(1-3) scan]) (simp_all add: number_event_lexeme scan)
qed

lemma parseString_text:
  "parseString hdl False (quote_char # escape s @ quote_char # r) h = after_answer r (hdl (EString s) h)"
  "plain_key k \<Longrightarrow>
     parseString hdl True (quote_char # k @ quote_char # r) h = after_answer r (hdl (EKey k) h)"
  by (simp_all add: parseString_def assertNext_def scanString_escape scanString_plain)

lemma reads_string: "reads hdl (JString s) (quote_char # escape s @ [quote_char])"
  by (rule reads_by_step) (simp add: parse_unfold parseString_text)

section \<open>The reader on the grammar\<close>

definition token_start :: "string \<Rightarrow> bool" where
  "token_start t \<longleftrightarrow> t \<noteq> [] \<and> \<not> is_ws (hd t) \<and> hd t \<noteq> CHR '']'' \<and> hd t \<noteq> CHR ''}''"

lemma token_start_append: "token_start t \<Longrightarrow> token_start (t @ s)"
  by (cases t) (auto simp: token_start_def)

lemma token_start_ws: "token_start t \<Longrightarrow> parseWhitespace t = t"
  by (rule parseWhitespace_stop) (simp add: token_start_def)

lemma token_start_peek: "token_start t \<Longrightarrow> peek t \<noteq> CHR '']''" "token_start t \<Longrightarrow> peek t \<noteq> CHR ''}''"
  by (cases t; simp add: token_start_def)+

lemma number_start: "neg = [] \<or> neg = ''-'' \<Longrightarrow> int_part ip \<Longrightarrow> token_start (neg @ ip @ s)"
  by (cases ip) (auto simp: token_start_def int_part_def isDigit19_def byte_of_def is_ws_def)

lemma text_start:
  "text_of v t \<Longrightarrow> token_start t" "elements_text vs t \<Longrightarrow> token_start t" "members_text ms t \<Longrightarrow> token_start t"
proof (induction rule: text_of_elements_text_members_text.inducts)
  case (text_int32 i)
  show ?case using number_start [of "if i < 0 then ''-'' else []" "dec (nat \<bar>i\<bar>)" "[]"] int_part_dec
    by (simp add: dec_int_def)
next
  case (text_int64 i)
  show ?case using number_start [of "if i < 0 then ''-'' else []" "dec (nat \<bar>i\<bar>)" "[]"] int_part_dec
    by (simp add: dec_int_def)
next
  case (text_double t d)
  then obtain neg ip s where "t = neg @ ip @ s" "neg = [] \<or> neg = ''-''" "int_part ip"
    by (auto simp: double_lexeme_def)
  then show ?case by (simp only: number_start)
qed (simp_all add: token_start_append, simp_all add: token_start_def is_ws_def)

lemma max_fuel:
  assumes "\<exists>n. \<forall>k\<ge>n. P k" "\<exists>n. \<forall>k\<ge>n. Q k"
  shows "\<exists>n::nat. \<forall>k\<ge>n. P k \<and> Q k"
proof -
  from assms obtain m n where "\<forall>k\<ge>m. P k" "\<forall>k\<ge>n. Q k" by blast
  then have "\<forall>k\<ge>max m n. P k \<and> Q k" by simp
  then show ?thesis by blast
qed

lemma step_fuel:
  assumes "\<exists>n. \<forall>k\<ge>n. P k" "\<And>k. P k \<Longrightarrow> R (Suc k)"
  shows "\<exists>n. \<forall>k\<ge>n. R k"
proof -
  from assms(1) obtain n where n: "\<forall>k\<ge>n. P k" by blast
  have "R k" if "Suc n \<le> k" for k
    using that n assms(2) by (cases k) auto
  then show ?thesis by blast
qed

lemma two_steps:
  assumes "\<And>k. R (Suc (Suc k))"
  shows "\<exists>n. \<forall>k\<ge>n. R k"
  by (rule step_fuel, rule step_fuel [where P = "\<lambda>_. True"]) (simp, rule assms)

lemma ws_comma: "parseWhitespace (w @ c # s) = c # s" if "ws w" "\<not> is_ws c"
  using that by (simp add: parseWhitespace_ws)

lemma ws_token: "parseWhitespace (w @ t @ s) = t @ s" if "ws w" "token_start t"
  using that by (simp add: parseWhitespace_ws token_start_ws token_start_append)

lemma not_ws [simp]:
  "\<not> is_ws (CHR '','')" "\<not> is_ws (CHR '':'')" "\<not> is_ws (CHR ''['')" "\<not> is_ws (CHR '']'')"
  "\<not> is_ws (CHR ''{'')" "\<not> is_ws (CHR ''}'')" "\<not> is_ws quote_char"
  by (simp_all add: is_ws_def)

lemma reads_last_element:
  assumes "reads hdl v t" "ws w"
  shows "reads_elements hdl [v] (t @ w @ '']'')"
  unfolding reads_elements_def
proof
  fix r
  let ?r = "w @ CHR '']'' # r"
  have "stop ?r" by (rule ws_stop [OF assms(2)]) simp
  with assms(1) have "\<exists>n. \<forall>k\<ge>n. \<forall>h. parseValue [] k hdl (t @ ?r) h = after_answer ?r (run_events hdl (events v) h)"
    by (simp add: reads_def)
  then show "\<exists>n. \<forall>k\<ge>n. \<forall>h. parseElements [] k hdl ((t @ w @ '']'') @ r) h =
      after_answer r (run_events hdl (concat (map events [v]) @ [EEndArray]) h)"
    by (rule step_fuel)
      (simp add: parse_unfold run_events_append ws_comma [OF assms(2)] pbind_answer [where r = r])
qed

lemma reads_more_elements:
  assumes v: "reads hdl v t" and w: "ws w" "ws w'" and vs: "reads_elements hdl vs u" "token_start u"
  shows "reads_elements hdl (v # vs) (t @ w @ CHR '','' # w' @ u)"
  unfolding reads_elements_def
proof
  fix r
  let ?r = "w @ CHR '','' # w' @ u @ r"
  have "stop ?r" by (rule ws_stop [OF w(1)]) simp
  with v have "\<exists>n. \<forall>k\<ge>n. \<forall>h. parseValue [] k hdl (t @ ?r) h = after_answer ?r (run_events hdl (events v) h)"
    by (simp add: reads_def)
  moreover from vs(1) have "\<exists>n. \<forall>k\<ge>n. \<forall>h. parseElements [] k hdl (u @ r) h =
      after_answer r (run_events hdl (concat (map events vs) @ [EEndArray]) h)"
    by (simp add: reads_elements_def)
  ultimately show "\<exists>n. \<forall>k\<ge>n. \<forall>h. parseElements [] k hdl ((t @ w @ CHR '','' # w' @ u) @ r) h =
      after_answer r (run_events hdl (concat (map events (v # vs)) @ [EEndArray]) h)"
    by (rule step_fuel [OF max_fuel])
      (simp add: parse_unfold run_events_append_fun ws_comma [OF w(1)] ws_token [OF w(2) vs(2)]
        pbind_answer [where r = r])
qed

lemma reads_array:
  assumes "ws w" "reads_elements hdl vs t" "token_start t"
  shows "reads hdl (JArray vs) (CHR ''['' # w @ t)"
  unfolding reads_def
proof (intro allI impI)
  fix r
  let ?ts = "\<lambda>k h. parseElements [] k hdl (t @ r) h =
      after_answer r (run_events hdl (concat (map events vs) @ [EEndArray]) h)"
  from assms(2) have "\<exists>n. \<forall>k\<ge>n. \<forall>h. ?ts k h"
    by (simp add: reads_elements_def)
  moreover have "\<forall>h. parseArray [] (Suc k) hdl (CHR ''['' # w @ t @ r) h =
      after_answer r (run_events hdl (events (JArray vs)) h)" if "\<forall>h. ?ts k h" for k
    using that token_start_peek [OF token_start_append [OF assms(3), of r]]
    by (simp add: parse_unfold assertNext_def ws_token [OF assms(1,3)] pbind_answer [where r = r])
  ultimately have "\<exists>n. \<forall>k\<ge>n. \<forall>h. parseArray [] k hdl (CHR ''['' # w @ t @ r) h =
      after_answer r (run_events hdl (events (JArray vs)) h)"
    by (rule step_fuel)
  then show "\<exists>n. \<forall>k\<ge>n. \<forall>h. parseValue [] k hdl ((CHR ''['' # w @ t) @ r) h =
      after_answer r (run_events hdl (events (JArray vs)) h)"
    by (rule step_fuel) (simp add: parse_unfold)
qed

lemma reads_empty:
  assumes "ws w"
  shows "reads hdl (JArray []) (CHR ''['' # w @ '']'')" "reads hdl (JObject []) (CHR ''{'' # w @ ''}'')"
  unfolding reads_def
  by (intro allI impI two_steps;
      simp add: parse_unfold assertNext_def ws_comma [OF assms] pbind_answer [where r = "r :: string" for r])+

lemma reads_last_member:
  assumes "plain_key key" "reads hdl v t" "token_start t" "ws w"
  shows "reads_members hdl [(key, v)] (quote_char # key @ quote_char # CHR '':'' # t @ w @ ''}'')"
  unfolding reads_members_def
proof
  fix r
  let ?r = "w @ CHR ''}'' # r"
  have "stop ?r" by (rule ws_stop [OF assms(4)]) simp
  with assms(2) have "\<exists>n. \<forall>k\<ge>n. \<forall>h. parseValue [] k hdl (t @ ?r) h = after_answer ?r (run_events hdl (events v) h)"
    by (simp add: reads_def)
  then show "\<exists>n. \<forall>k\<ge>n. \<forall>h.
      parseMembers [] k hdl ((quote_char # key @ quote_char # CHR '':'' # t @ w @ ''}'') @ r) h =
      after_answer r (run_events hdl (member_events [(key, v)] @ [EEndObject]) h)"
    by (rule step_fuel)
      (simp add: parse_unfold run_events_append_fun parseString_text assms(1) ws_comma [OF assms(4)]
        token_start_ws [OF token_start_append [OF assms(3)]] pbind_answer [where r = r])
qed

lemma reads_more_members:
  assumes k: "plain_key key" and v: "reads hdl v t" "token_start t" and w: "ws w" "ws w'"
    and ms: "reads_members hdl ms u" "token_start u"
  shows "reads_members hdl ((key, v) # ms)
    (quote_char # key @ quote_char # CHR '':'' # t @ w @ CHR '','' # w' @ u)"
  unfolding reads_members_def
proof
  fix r
  let ?r = "w @ CHR '','' # w' @ u @ r"
  have "stop ?r" by (rule ws_stop [OF w(1)]) simp
  with v have "\<exists>n. \<forall>k\<ge>n. \<forall>h. parseValue [] k hdl (t @ ?r) h = after_answer ?r (run_events hdl (events v) h)"
    by (simp add: reads_def)
  moreover from ms(1) have "\<exists>n. \<forall>k\<ge>n. \<forall>h. parseMembers [] k hdl (u @ r) h =
      after_answer r (run_events hdl (member_events ms @ [EEndObject]) h)"
    by (simp add: reads_members_def)
  ultimately show "\<exists>n. \<forall>k\<ge>n. \<forall>h. parseMembers [] k hdl
        ((quote_char # key @ quote_char # CHR '':'' # t @ w @ CHR '','' # w' @ u) @ r) h =
      after_answer r (run_events hdl (member_events ((key, v) # ms) @ [EEndObject]) h)"
    by (rule step_fuel [OF max_fuel])
      (simp add: parse_unfold run_events_append_fun parseString_text k ws_comma [OF w(1)]
        ws_token [OF w(2) ms(2)] token_start_ws [OF token_start_append [OF v(2)]]
        pbind_answer [where r = r])
qed

lemma reads_object:
  assumes "ws w" "reads_members hdl ms t" "token_start t"
  shows "reads hdl (JObject ms) (CHR ''{'' # w @ t)"
  unfolding reads_def
proof (intro allI impI)
  fix r
  let ?ts = "\<lambda>k h. parseMembers [] k hdl (t @ r) h =
      after_answer r (run_events hdl (member_events ms @ [EEndObject]) h)"
  from assms(2) have "\<exists>n. \<forall>k\<ge>n. \<forall>h. ?ts k h"
    by (simp add: reads_members_def)
  moreover have "\<forall>h. parseObject [] (Suc k) hdl (CHR ''{'' # w @ t @ r) h =
      after_answer r (run_events hdl (events (JObject ms)) h)" if "\<forall>h. ?ts k h" for k
    using that token_start_peek [OF token_start_append [OF assms(3), of r]]
    by (simp add: parse_unfold assertNext_def ws_token [OF assms(1,3)] pbind_answer [where r = r])
  ultimately have "\<exists>n. \<forall>k\<ge>n. \<forall>h. parseObject [] k hdl (CHR ''{'' # w @ t @ r) h =
      after_answer r (run_events hdl (events (JObject ms)) h)"
    by (rule step_fuel)
  then show "\<exists>n. \<forall>k\<ge>n. \<forall>h. parseValue [] k hdl ((CHR ''{'' # w @ t) @ r) h =
      after_answer r (run_events hdl (events (JObject ms)) h)"
    by (rule step_fuel) (simp add: parse_unfold)
qed

text \<open>Every text of the grammar is read, whatever the handler.\<close>

lemma text_reads:
  "text_of v t \<Longrightarrow> reads hdl v t"
  "elements_text vs t \<Longrightarrow> reads_elements hdl vs t"
  "members_text ms t \<Longrightarrow> reads_members hdl ms t"
proof (induction rule: text_of_elements_text_members_text.inducts)
  case (text_int32 i)
  then show ?case using reads_int [of i hdl] by (simp add: in_int32_def in_int64_def)
next
  case (text_int64 i)
  then show ?case using reads_int [of i hdl] by simp
qed (simp_all add: reads_literals reads_double reads_string reads_empty reads_array reads_object
    reads_last_element reads_more_elements reads_last_member reads_more_members text_start)

lemma reader_run_text:
  assumes "text_of v t" "ws w" "ws w'"
  shows "reader_run [] (fuel_of (w @ t @ w')) hdl (w @ t @ w') h = after_answer [] (run_events hdl (events v) h)"
proof -
  have "stop w'" using ws_stop [OF assms(3), of "[]"] by simp
  with text_reads(1) [OF assms(1), of hdl] obtain n where
    n: "parseValue [] n hdl (t @ w') h = after_answer w' (run_events hdl (events v) h)"
    unfolding reads_def by blast
  have "parseWhitespace w' = []"
    using parseWhitespace_ws [OF assms(3), of "[]"] by simp
  then have "reader_run [] n hdl (w @ t @ w') h = after_answer [] (run_events hdl (events v) h)"
    using ws_token [OF assms(2) text_start(1) [OF assms(1)]]
    by (simp add: reader_run_def n pbind_answer [where r = "[]" and g = HGo])
  then show ?thesis
    by (rule reader_run_any_fuel) (cases "run_events hdl (events v) h", simp_all)
qed

text \<open>
  The assert on the end of a double fails when the view is cut inside its digits: with digits behind
  the view \<open>strtod\<close> reads on. The handler has seen nothing by then.
\<close>

lemma double_lexeme_digits:
  assumes "double_lexeme t" "list_all is_digit ds"
  shows "double_lexeme (t @ ds)"
proof -
  from assms(1) obtain neg ip f x where t: "t = neg @ ip @ f @ x" "neg = [] \<or> neg = ''-''" "int_part ip"
    "f = [] \<or> frac_part f" "x = [] \<or> expo_part x" "f \<noteq> [] \<or> x \<noteq> []"
    by (auto simp: double_lexeme_def)
  show ?thesis
  proof (cases "x = []")
    case True
    with t(4,6) assms(2) have "frac_part (f @ ds)" by (cases f) (auto simp: frac_part_def)
    with t True show ?thesis
      unfolding double_lexeme_def by (intro exI [of _ neg] exI [of _ ip] exI [of _ "f @ ds"] exI [of _ "[]"]) auto
  next
    case False
    with t(5) assms(2) have "expo_part (x @ ds)" by (auto simp: expo_part_def)
    with t False show ?thesis
      unfolding double_lexeme_def by (intro exI [of _ neg] exI [of _ ip] exI [of _ f] exI [of _ "x @ ds"]) auto
  qed
qed

lemma scanNumber_double: "double_lexeme t \<Longrightarrow> scanNumber t = Some (TYPE_DOUBLE, [])"
proof -
  assume "double_lexeme t"
  then obtain neg ip f x where t: "t = neg @ ip @ f @ x" "neg = [] \<or> neg = ''-''" "int_part ip"
    "f = [] \<or> frac_part f" "x = [] \<or> expo_part x" "f \<noteq> [] \<or> x \<noteq> []"
    by (auto simp: double_lexeme_def)
  then show ?thesis using scanNumber_parts [OF t(2-5), of "[]"] by auto
qed

lemma lexeme_overread:
  assumes "double_lexeme t" "ds \<noteq> []" "list_all is_digit ds" "number_stop m" "strtod (t @ ds) = (d, False)"
  shows "reader_parse (ds @ m) hdl t h = None"
proof -
  have "strtod_rest ((t @ ds) @ m) = [] @ m"
    using scanNumber_behind(1) [OF scanNumber_double [OF double_lexeme_digits [OF assms(1,3)]]] assms(4) by blast
  then have "strtod_extent (t @ ds @ m) = length t + length ds"
    by (simp add: strtod_extent_def)
  with assms(2,5) have num: "number_event (ds @ m) t TYPE_DOUBLE [] = Abort"
    by (simp add: number_event_def)
  from assms(1) obtain neg ip s where t: "t = neg @ ip @ s" "neg = [] \<or> neg = ''-''" "int_part ip"
    by (auto simp: double_lexeme_def)
  note head = number_head [OF t(2,3), of s, folded t(1)]
  have "parseValue (ds @ m) (Suc n) hdl t h = PAbort" for n
    using head num scanNumber_double [OF assms(1)] by (simp add: parse_unfold parseNumber_def)
  from this [of "fuel_of t - 1"] show ?thesis
    by (simp add: reader_parse_def reader_run_def head(3) fuel_of_def numeral_3_eq_3)
qed

text \<open>The document parsed from a text of \<open>v\<close> is \<open>v\<close>, unless some object repeats a key.\<close>

lemma doc_parse_text:
  assumes "text_of v t" "ws w" "ws w'"
  shows "doc_parse (w @ t @ w') = (if distinct_keys v then Some (PARSE_OK, v) else None)"
proof (cases "distinct_keys v")
  case True
  with doc_build obtain d where "run_events doc_handler (events v) doc_init = HGo d" "doc_root d = v"
    by blast
  then show ?thesis
    using True by (simp add: doc_parse_in_def reader_parse_def reader_run_text [OF assms])
next
  case False
  then have "rejects v" by (rule rejects_duplicate)
  then have "run_events doc_handler (events v) doc_init = HAbort"
    using doc_init_adds by (metis rejectsD)
  then show ?thesis
    using False by (simp add: doc_parse_in_def reader_parse_def reader_run_text [OF assms])
qed

section \<open>Reading back what the writers print\<close>

text \<open>The integer tag a reader gives: 64 bits only when 32 do not hold the number.\<close>

fun norm :: "jvalue \<Rightarrow> jvalue" where
  "norm (JInt64 i) = (if in_int32 (sint i) then JInt32 (scast i) else JInt64 i)"
| "norm (JArray vs) = JArray (map norm vs)"
| "norm (JObject ms) = JObject (map (\<lambda>(k, v). (k, norm v)) ms)"
| "norm v = v"

text \<open>
  A double is read back when its text shows that it is one and \<open>strtod\<close> finds it again:
  the writer adds \<open>.0\<close> only to a text of digits alone, prints the negative infinity without
  its sign, and a subnormal's 17 digits make \<open>strtod\<close> report a range error.
\<close>

fun double_readable :: "double \<Rightarrow> bool" where
  "double_readable (DFin s m e) \<longleftrightarrow>
     (let t = double_text (DFin s m e)
      in (CHR ''.'' \<in> set t \<or> CHR ''e'' \<in> set t) \<and> strtod t = (DFin s m e, False))"
| "double_readable (DInf s) \<longleftrightarrow> \<not> s"
| "double_readable DNaN \<longleftrightarrow> True"

fun readable :: "jvalue \<Rightarrow> bool" where
  "readable (JDouble d) \<longleftrightarrow> format_double d \<noteq> None \<and> double_readable d"
| "readable (JArray vs) \<longleftrightarrow> (\<forall>v\<in>set vs. readable v)"
| "readable (JObject ms) \<longleftrightarrow> (\<forall>(k, v)\<in>set ms. plain_key k \<and> readable v)"
| "readable _ \<longleftrightarrow> True"

lemma readable_writable: "readable v \<Longrightarrow> writable v"
  by (induction v) fastforce+

lemma list_all_digits_dec: "list_all is_digit (dec n)"
  using dec_digits by (auto simp: list_all_iff)

lemma strip_zeros_digits: "list_all is_digit fp \<Longrightarrow> list_all is_digit (strip_zeros fp)"
  by (auto simp: strip_zeros_def list_all_iff dest: set_dropWhileD)

text \<open>The shape of \<open>printf("%.17g")\<close> of a finite number.\<close>

definition number_parts :: "string \<Rightarrow> string \<Rightarrow> string \<Rightarrow> string \<Rightarrow> bool" where
  "number_parts neg ip f x \<longleftrightarrow> (neg = [] \<or> neg = ''-'') \<and> int_part ip \<and> (f = [] \<or> frac_part f) \<and>
     (x = [] \<or> expo_part x)"

lemma exp_part_expo: "expo_part (exp_part x)"
  using list_all_digits_dec [of "nat \<bar>x\<bar>"]
  by (auto simp: exp_part_def expo_part_def Let_def is_digit_def byte_of_def)

lemma int_part_zero: "int_part ''0''"
  by (simp add: int_part_def)

lemma with_fraction_parts:
  assumes "list_all is_digit fp" "int_part ip" "y = [] \<or> expo_part y" "neg = [] \<or> neg = ''-''"
  shows "\<exists>ip' f x. with_fraction ip fp @ y = ip' @ f @ x \<and> number_parts neg ip' f x"
proof -
  have "\<exists>f. with_fraction ip fp = ip @ f \<and> (f = [] \<or> frac_part f)"
    using strip_zeros_digits [OF assms(1)]
    by (cases "strip_zeros fp = []") (auto simp: with_fraction_def Let_def frac_part_def)
  then obtain f where "with_fraction ip fp = ip @ f" "f = [] \<or> frac_part f" by blast
  with assms show ?thesis
    by (intro exI [of _ ip] exI [of _ f] exI [of _ y]) (simp add: number_parts_def)
qed

lemma fmt_g_parts: "\<exists>neg ip f x. fmt_g p (DFin s m e) = neg @ ip @ f @ x \<and> number_parts neg ip f x"
proof (cases "m = 0")
  case True
  then show ?thesis
    by (intro exI [of _ "if s then ''-'' else []"] exI [of _ "''0''"] exI [of _ "[]"])
      (simp add: fmt_g_def number_parts_def int_part_zero)
next
  case False
  obtain n d q x where nd: "ratio2 m e = (n, d)" "sig_digits p n d = (q, x)"
    by (metis surj_pair)
  define neg where "neg = (if s then ''-'' else [])"
  then have neg: "neg = [] \<or> neg = ''-''" by simp
  let ?ds = "dec q"
  have digits: "list_all is_digit (drop k ?ds)" "list_all is_digit (replicate j (CHR ''0'') @ ?ds)" for k j
    using dec_digits by (auto simp: list_all_iff is_digit_def byte_of_def dest: in_set_dropD)
  note frac = with_fraction_parts [OF digits(1) int_part_take_dec _ neg] with_fraction_parts [OF digits(2) int_part_zero _ neg]
  define tail where "tail = (if - 4 \<le> x \<and> x < int p
     then if 0 \<le> x then with_fraction (take (Suc (nat x)) ?ds) (drop (Suc (nat x)) ?ds) @ []
          else with_fraction ''0'' (replicate (nat (- x) - 1) (CHR ''0'') @ ?ds) @ []
     else with_fraction (take (Suc 0) ?ds) (drop (Suc 0) ?ds) @ exp_part x)"
  have "fmt_g p (DFin s m e) = neg @ tail"
    using False nd by (simp add: fmt_g_def tail_def neg_def Let_def)
  moreover have "\<exists>ip f y. tail = ip @ f @ y \<and> number_parts neg ip f y"
    unfolding tail_def by (split if_split)+ (intro conjI impI frac disjI1 disjI2 exp_part_expo refl)
  ultimately show ?thesis by auto
qed

lemma digits_no_mark: "list_all is_digit t \<Longrightarrow> CHR ''.'' \<notin> set t \<and> CHR ''e'' \<notin> set t"
  by (auto simp: list_all_iff is_digit_def byte_of_def)

lemma int_part_digits: "int_part ip \<Longrightarrow> list_all is_digit ip"
  by (cases ip) (auto simp: int_part_def isDigit19_def is_digit_def byte_of_def)

lemma part_not_digits:
  "frac_part f \<Longrightarrow> \<not> list_all is_digit f" "expo_part x \<Longrightarrow> \<not> list_all is_digit x"
  by (cases f; auto simp: frac_part_def expo_part_def is_digit_def byte_of_def)+

lemma digits_frac_zero:
  assumes "list_all is_digit (neg @ ip @ f @ x)" "number_parts neg ip f x"
  shows "neg = []" "f = []" "x = []"
proof -
  from assms(1) have "list_all is_digit neg" "list_all is_digit f" "list_all is_digit x" by simp_all
  with assms(2) show "neg = []" "f = []" "x = []"
    using part_not_digits [of f] part_not_digits [of x]
    by (auto simp: number_parts_def is_digit_def byte_of_def)
qed

lemma double_text_lexeme:
  assumes "format_double (DFin s m e) = Some t" "CHR ''.'' \<in> set t \<or> CHR ''e'' \<in> set t"
  shows "double_lexeme t"
proof -
  obtain neg ip f x where g: "fmt_g 17 (DFin s m e) = neg @ ip @ f @ x" and parts: "number_parts neg ip f x"
    using fmt_g_parts [of 17 s m e] by (elim exE conjE)
  show ?thesis
  proof (cases "list_all is_digit (fmt_g 17 (DFin s m e))")
    case True
    then have "neg = []" "f = []" "x = []" using digits_frac_zero [OF _ parts] g by auto
    moreover have "t = ip @ ''.0''"
      using assms(1) True g \<open>neg = []\<close> \<open>f = []\<close> \<open>x = []\<close>
      by (auto simp: format_double_def Let_def split: if_splits)
    ultimately show ?thesis
      using parts unfolding double_lexeme_def
      by (intro exI [of _ "[]"] exI [of _ ip] exI [of _ "''.0''"])
        (simp add: number_parts_def frac_part_def is_digit_def byte_of_def)
  next
    case False
    then have t: "t = neg @ ip @ f @ x"
      using assms(1) g by (simp add: format_double_def Let_def split: if_splits)
    have "f \<noteq> [] \<or> x \<noteq> []"
    proof (rule ccontr)
      assume "\<not> (f \<noteq> [] \<or> x \<noteq> [])"
      then have "t = neg @ ip" using t by simp
      with assms(2) parts digits_no_mark [OF int_part_digits, of ip] show False
        by (auto simp: number_parts_def)
    qed
    with t parts show ?thesis
      unfolding double_lexeme_def number_parts_def by blast
  qed
qed

lemma ws_simps [simp]: "ws []" "ws (c # w) \<longleftrightarrow> is_ws c \<and> ws w" "ws (v @ w) \<longleftrightarrow> ws v \<and> ws w"
  by (simp_all add: ws_def)

lemma ws_line: "ws ind \<Longrightarrow> ws (line ind n)"
  by (auto simp: line_def ws_def list_all_iff is_ws_def)

lemma text_dec_int:
  "text_of (JInt32 i) (dec_int (sint i))"
  "in_int32 (sint j) \<Longrightarrow> text_of (JInt32 (scast j)) (dec_int (sint j))"
  "\<not> in_int32 (sint j) \<Longrightarrow> text_of (JInt64 j) (dec_int (sint (j :: i64)))"
proof -
  have "in_int32 (sint i)" using sint_ge [of i] sint_lt [of i] by (simp add: in_int32_def)
  from text_int32 [OF this] show "text_of (JInt32 i) (dec_int (sint i))" by simp
  have "in_int64 (sint j)" using sint_ge [of j] sint_lt [of j] by (simp add: in_int64_def)
  from text_int64 [OF this] show "\<not> in_int32 (sint j) \<Longrightarrow> text_of (JInt64 j) (dec_int (sint j))" by simp
  show "in_int32 (sint j) \<Longrightarrow> text_of (JInt32 (scast j)) (dec_int (sint j))"
    using text_int32 [of "sint j"] by simp
qed

lemma text_double_text:
  assumes "format_double d \<noteq> None" "double_readable d"
  shows "text_of (JDouble d) (double_text d)"
proof (cases d)
  case (DFin s m e)
  with assms(1) obtain t where t: "format_double (DFin s m e) = Some t" by auto
  with assms(2) DFin have "CHR ''.'' \<in> set t \<or> CHR ''e'' \<in> set t" "strtod t = (d, False)"
    by (simp_all add: double_text_def Let_def)
  with double_text_lexeme [OF t] DFin t show ?thesis
    by (simp add: double_text_def text_double)
qed (use assms in \<open>auto simp: double_text_def format_double_def text_nan text_infinity\<close>)

text \<open>An item of a container: the text of a value and white space after it.\<close>

definition item :: "jvalue \<Rightarrow> string \<Rightarrow> bool" where
  "item v s \<longleftrightarrow> (\<exists>t w. s = t @ w \<and> text_of v t \<and> ws w)"

lemma item_text: "text_of v t \<Longrightarrow> item v t" "text_of v t \<Longrightarrow> ws w \<Longrightarrow> item v (t @ w)"
  unfolding item_def by (metis append_Nil2 ws_simps(1), blast)

lemma elements_separated:
  assumes "vs \<noteq> []" "\<forall>v\<in>set vs. item (g v) (f v)" "ws l"
  shows "\<exists>t. separated n (map f vs) @ l @ '']'' = (if 0 < n then '','' else []) @ t \<and>
    elements_text (map g vs) t"
  using assms
proof (induction vs arbitrary: n)
  case (Cons v vs)
  then obtain t w where v: "f v = t @ w" "text_of (g v) t" "ws w"
    by (auto simp: item_def)
  show ?case
  proof (cases "vs = []")
    case True
    have "elements_text [g v] (t @ (w @ l) @ '']'')"
      using v Cons.prems(3) by (intro last_element) simp_all
    with True v show ?thesis by simp
  next
    case False
    from Cons.IH [of "Suc n"] Cons.prems this obtain u where
      "separated (Suc n) (map f vs) @ l @ '']'' = '','' @ u" "elements_text (map g vs) u"
      by auto
    moreover from this v have "elements_text (g v # map g vs) (t @ w @ CHR '','' # [] @ u)"
      by (intro more_elements) simp_all
    ultimately show ?thesis using v by simp
  qed
qed simp

lemma members_separated:
  assumes "ms \<noteq> []" "ws l"
    and "\<forall>m\<in>set ms. plain_key (fst m) \<and> item (g (snd m)) (f (snd m)) \<and>
      h m = quote_char # fst m @ quote_char # CHR '':'' # f (snd m)"
  shows "\<exists>t. separated n (map h ms) @ l @ ''}'' = (if 0 < n then '','' else []) @ t \<and>
    members_text (map (\<lambda>(k, v). (k, g v)) ms) t"
  using assms
proof (induction ms arbitrary: n)
  case (Cons m ms)
  obtain k v where m: "m = (k, v)" by (cases m)
  with Cons.prems obtain t w where v: "h m = quote_char # k @ quote_char # CHR '':'' # t @ w"
    "text_of (g v) t" "ws w" "plain_key k"
    by (auto simp: item_def)
  show ?case
  proof (cases "ms = []")
    case True
    have "members_text [(k, g v)] (quote_char # k @ quote_char # CHR '':'' # t @ (w @ l) @ ''}'')"
      using v Cons.prems(2) by (intro last_member) simp_all
    with True v m show ?thesis by simp
  next
    case False
    from Cons.IH [of "Suc n"] Cons.prems this obtain u where
      "separated (Suc n) (map h ms) @ l @ ''}'' = '','' @ u"
      "members_text (map (\<lambda>(k, v). (k, g v)) ms) u"
      by auto
    moreover from this v have "members_text ((k, g v) # map (\<lambda>(k, v). (k, g v)) ms)
        (quote_char # k @ quote_char # CHR '':'' # t @ w @ CHR '','' # [] @ u)"
      by (intro more_members) simp_all
    ultimately show ?thesis using v m by simp
  qed
qed simp

lemma text_array_commas:
  assumes "\<forall>v\<in>set vs. item (norm v) (f v)" "ws l" "ws l'"
  shows "text_of (norm (JArray vs)) (CHR ''['' # l @ commas (map f vs) @ l' @ '']'')"
proof (cases "vs = []")
  case True
  with text_empty_array [of "l @ l'"] assms(2,3) show ?thesis by (simp add: commas_def)
next
  case False
  from elements_separated [OF this assms(1,3), of 0] assms(2) show ?thesis
    by (auto simp: commas_def intro: text_array)
qed

lemma text_object_commas:
  assumes "\<forall>m\<in>set ms. plain_key (fst m) \<and> item (norm (snd m)) (f (snd m)) \<and>
      h m = quote_char # fst m @ quote_char # CHR '':'' # f (snd m)" "ws l" "ws l'"
  shows "text_of (norm (JObject ms)) (CHR ''{'' # l @ commas (map h ms) @ l' @ ''}'')"
proof (cases "ms = []")
  case True
  with text_empty_object [of "l @ l'"] assms(2,3) show ?thesis by (simp add: commas_def)
next
  case False
  from members_separated [OF this assms(3,1), of 0] assms(2) show ?thesis
    by (auto simp: commas_def intro: text_object)
qed

lemma text_scalar:
  assumes "readable v" "\<nexists>vs. v = JArray vs" "\<nexists>ms. v = JObject ms"
  shows "text_of (norm v) (render v)"
  using assms
  by (cases v) (simp_all add: text_null text_string text_true text_false text_dec_int text_double_text)

lemma item_scalar:
  assumes "readable v" "ws ind" "\<nexists>vs. v = JArray vs" "\<nexists>ms. v = JObject ms"
  shows "item (norm v) (pretty ind n v)"
proof -
  have "pretty ind n v = render v @ (if 0 < n then line ind n else [])"
    using assms(3,4) by (cases v) simp_all
  then show ?thesis
    using text_scalar [OF assms(1,3,4)] ws_line [OF assms(2)] by (simp add: item_text)
qed

lemma text_render: "readable v \<Longrightarrow> text_of (norm v) (render v)"
proof (induction v)
  case (JArray vs)
  then show ?case
    using text_array_commas [of vs render "[]" "[]"] by (auto simp: item_text)
next
  case (JObject ms)
  then have "text_of (norm (snd m)) (render (snd m))" "plain_key (fst m)" if "m \<in> set ms" for m
    using that by fastforce+
  then show ?case
    using text_object_commas [of ms render member_text "[]" "[]"] by (auto simp: item_text member_text_def)
qed (simp_all only: text_scalar jvalue.distinct simp_thms)

lemma item_pretty: "readable v \<Longrightarrow> ws ind \<Longrightarrow> item (norm v) (pretty ind n v)"
proof (induction v arbitrary: n)
  case (JArray vs)
  then show ?case
    using text_array_commas [of vs "pretty ind (Suc n)" "line ind (Suc n)" "line ind n"]
    by (auto simp: ws_line intro!: item_text(1))
next
  case (JObject ms)
  then have "item (norm (snd m)) (pretty ind n (snd m))" "plain_key (fst m)" if "m \<in> set ms" for m n
    using that by fastforce+
  then show ?case
    using text_object_commas [of ms "pretty ind (Suc n)" "pretty_member ind (Suc n)" "line ind (Suc n)" "line ind n"]
      JObject.prems(2)
    by (auto simp: ws_line pretty_member_def intro!: item_text(1))
qed (simp_all only: item_scalar jvalue.distinct simp_thms)

section \<open>Round trips\<close>

lemma distinct_keys_norm: "distinct_keys (norm v) \<longleftrightarrow> distinct_keys v"
proof (induction v)
  case (JObject ms)
  have keys: "fst \<circ> (\<lambda>(k, v). (k, norm v)) = (fst :: string \<times> jvalue \<Rightarrow> string)"
    by (simp add: fun_eq_iff case_prod_beta')
  have "(\<forall>(k, v)\<in>set (map (\<lambda>(k, v). (k, norm v)) ms). distinct_keys v) \<longleftrightarrow>
      (\<forall>(k, v)\<in>set ms. distinct_keys v)"
    using JObject by (fastforce simp: case_prod_beta')
  with keys show ?case by simp
qed auto

text \<open>What either writer prints of a readable value is read as that value.\<close>

lemma round_trip:
  assumes "readable v" "distinct_keys v" "write_value v = Some t"
  shows "doc_parse t = Some (PARSE_OK, norm v)"
proof -
  from assms have "t = render v" by (simp add: writer_render readable_writable)
  with doc_parse_text [OF text_render [OF assms(1)], of "[]" "[]"] assms(2) show ?thesis
    by (simp add: distinct_keys_norm)
qed

lemma pretty_round_trip:
  assumes "readable v" "distinct_keys v" "list_all is_ws ind" "pretty_value ind v = Some t"
  shows "doc_parse t = Some (PARSE_OK, norm v)"
proof -
  from assms have "t = pretty ind 0 v" by (simp add: pretty_writer_render readable_writable)
  moreover obtain u w where "pretty ind 0 v = u @ w" "text_of (norm v) u" "ws w"
    using item_pretty [OF assms(1), of ind 0] assms(3) by (auto simp: item_def ws_def)
  ultimately show ?thesis
    using doc_parse_text [of "norm v" u "[]" w] assms(2) by (simp add: distinct_keys_norm)
qed

end
