(* ===== verification/NetBuffer.thy ===== *)
theory NetBuffer
  imports Prelude
begin

text \<open>
  \<open>net/Buffer.h\<close> and \<open>Buffer.cpp\<close>: the byte buffer of a connection, a vector with a read and
  a write index behind which 8 bytes are kept free. Pointers into it are indices. Its contract
  is that of a queue of bytes, the \<open>content\<close>: the locale \<open>byte_queue\<close> states what the message
  loops of the RPC server and client rely on, proves the facts about framed messages from it,
  and is interpreted on the buffer. Sizes are naturals; the one operation that can take
  \<open>size_t\<close> below zero is \<open>prepend\<close>, which is undefined (None) there.
\<close>

section \<open>The buffer\<close>

definition CheapPrepend :: nat where "CheapPrepend = 8"
definition InitialSize :: nat where "InitialSize = 1024"

record buffer =
  buf_bytes :: string
  readerIndex :: nat
  writerIndex :: nat

definition buffer_init :: buffer where
  "buffer_init =
     \<lparr>buf_bytes = replicate (CheapPrepend + InitialSize) nul_char,
      readerIndex = CheapPrepend, writerIndex = CheapPrepend\<rparr>"

definition buffer_swap :: "buffer \<Rightarrow> buffer \<Rightarrow> buffer \<times> buffer" where
  "buffer_swap b rhs =
     (b\<lparr>buf_bytes := buf_bytes rhs, readerIndex := readerIndex rhs, writerIndex := writerIndex rhs\<rparr>,
      rhs\<lparr>buf_bytes := buf_bytes b, readerIndex := readerIndex b, writerIndex := writerIndex b\<rparr>)"

definition readableBytes :: "buffer \<Rightarrow> nat" where
  "readableBytes b = writerIndex b - readerIndex b"

definition writableBytes :: "buffer \<Rightarrow> nat" where
  "writableBytes b = length (buf_bytes b) - writerIndex b"

definition prependableBytes :: "buffer \<Rightarrow> nat" where
  "prependableBytes b = readerIndex b"

text \<open>The bytes from one index up to another, what a range of pointers denotes.\<close>

definition range_of :: "buffer \<Rightarrow> nat \<Rightarrow> nat \<Rightarrow> string" where
  "range_of b i j = take (j - i) (drop i (buf_bytes b))"

text \<open>\<open>peek()\<close> points to the first readable byte; the readable bytes are the content.\<close>

definition content :: "buffer \<Rightarrow> string" where
  "content b = range_of b (readerIndex b) (writerIndex b)"

definition crlf_bytes :: string where
  "crlf_bytes = [cr_char, lf_char]"

text \<open>The search from \<open>start\<close> (an index) to \<open>beginWrite()\<close>; the assert fails outside.\<close>

definition findCRLF_from :: "nat \<Rightarrow> buffer \<Rightarrow> (unit, nat option) outcome" where
  "findCRLF_from start b =
     require (readerIndex b \<le> start \<and> start \<le> writerIndex b)
       (Done (map_option (\<lambda>i. start + i) (find_sub crlf_bytes (range_of b start (writerIndex b)))))"

definition findCRLF :: "buffer \<Rightarrow> nat option" where
  "findCRLF b = map_option (\<lambda>i. readerIndex b + i) (find_sub crlf_bytes (content b))"

definition retrieveAll :: "buffer \<Rightarrow> buffer" where
  "retrieveAll b = b\<lparr>readerIndex := CheapPrepend, writerIndex := CheapPrepend\<rparr>"

definition retrieve :: "nat \<Rightarrow> buffer \<Rightarrow> buffer" where
  "retrieve len b =
     (if len < readableBytes b then b\<lparr>readerIndex := readerIndex b + len\<rparr> else retrieveAll b)"

text \<open>\<open>end - peek()\<close> is huge when \<open>end\<close> lies before the content, so all is retrieved then.\<close>

definition retrieveUntil :: "nat \<Rightarrow> buffer \<Rightarrow> buffer" where
  "retrieveUntil limit b =
     (if readerIndex b \<le> limit then retrieve (limit - readerIndex b) b else retrieveAll b)"

definition retrieveAsString :: "buffer \<Rightarrow> string \<times> buffer" where
  "retrieveAsString b = (content b, retrieveAll b)"

text \<open>\<open>std::copy\<close> to an index, and \<open>vector::resize\<close>.\<close>

definition copy_to :: "nat \<Rightarrow> string \<Rightarrow> string \<Rightarrow> string" where
  "copy_to i data xs = take i xs @ data @ drop (i + length data) xs"

definition resize :: "nat \<Rightarrow> string \<Rightarrow> string" where
  "resize n xs = take n xs @ replicate (n - length xs) nul_char"

definition makeSpace :: "nat \<Rightarrow> buffer \<Rightarrow> buffer" where
  "makeSpace len b =
     (if writableBytes b + prependableBytes b < len + CheapPrepend
      then b\<lparr>buf_bytes := resize (writerIndex b + len) (buf_bytes b)\<rparr>
      else b\<lparr>buf_bytes := copy_to CheapPrepend (content b) (buf_bytes b),
             readerIndex := CheapPrepend, writerIndex := CheapPrepend + readableBytes b\<rparr>)"

definition ensureWritableBytes :: "nat \<Rightarrow> buffer \<Rightarrow> buffer" where
  "ensureWritableBytes len b = (if writableBytes b < len then makeSpace len b else b)"

definition hasWritten :: "nat \<Rightarrow> buffer \<Rightarrow> buffer" where
  "hasWritten len b = b\<lparr>writerIndex := writerIndex b + len\<rparr>"

definition append_bytes :: "string \<Rightarrow> buffer \<Rightarrow> buffer" where
  "append_bytes data b =
     (let b = ensureWritableBytes (length data) b
      in hasWritten (length data) (b\<lparr>buf_bytes := copy_to (writerIndex b) data (buf_bytes b)\<rparr>))"

definition prepend_bytes :: "string \<Rightarrow> buffer \<Rightarrow> buffer option" where
  "prepend_bytes data b =
     (if length data \<le> readerIndex b
      then let r = readerIndex b - length data
           in Some (b\<lparr>readerIndex := r, buf_bytes := copy_to r data (buf_bytes b)\<rparr>)
      else None)"

text \<open>\<open>shrink\<close> moves the content to the front of a new vector and leaves both indices as they were.\<close>

definition shrink :: "nat \<Rightarrow> buffer \<Rightarrow> buffer" where
  "shrink reserve b =
     b\<lparr>buf_bytes := copy_to CheapPrepend (content b)
         (replicate (CheapPrepend + readableBytes b + reserve) nul_char)\<rparr>"

text \<open>
  \<open>readFd\<close>. What \<open>readv\<close> did is the parameter: \<open>Inl errno\<close> for -1, or the bytes it delivered, at
  most as many as the two areas hold. The value returned, the \<open>errno\<close> saved, the buffer.
\<close>

definition extrabuf_size :: nat where "extrabuf_size = 65536"

definition readFd :: "int + string \<Rightarrow> buffer \<Rightarrow> int \<times> int option \<times> buffer" where
  "readFd readv b =
     (case readv of
        Inl errno \<Rightarrow> (- 1, Some errno, b)
      | Inr data \<Rightarrow>
          let writable = writableBytes b; n = length data;
              b1 = b\<lparr>buf_bytes := copy_to (writerIndex b) (take writable data) (buf_bytes b)\<rparr>
          in (int n, None,
              if n \<le> writable then b1\<lparr>writerIndex := writerIndex b1 + n\<rparr>
              else append_bytes (drop writable data)
                (b1\<lparr>writerIndex := length (buf_bytes b1)\<rparr>)))"

section \<open>The invariant and the content\<close>

text \<open>The picture in the header of \<open>Buffer.h\<close>.\<close>

definition buffer_inv :: "buffer \<Rightarrow> bool" where
  "buffer_inv b \<longleftrightarrow> readerIndex b \<le> writerIndex b \<and> writerIndex b \<le> length (buf_bytes b) \<and>
     CheapPrepend \<le> length (buf_bytes b)"

lemmas buffer_defs = readableBytes_def writableBytes_def prependableBytes_def content_def range_of_def

lemma buffer_init_ok: "buffer_inv buffer_init" "content buffer_init = []"
  by (simp_all add: buffer_inv_def buffer_init_def content_def range_of_def)

lemma content_length: "buffer_inv b \<Longrightarrow> length (content b) = readableBytes b"
  by (auto simp: buffer_inv_def buffer_defs min_def)

lemma content_nth: "buffer_inv b \<Longrightarrow> i < readableBytes b \<Longrightarrow> content b ! i = buf_bytes b ! (readerIndex b + i)"
  by (simp add: buffer_inv_def buffer_defs)

lemma copy_to_length: "i + length data \<le> length xs \<Longrightarrow> length (copy_to i data xs) = length xs"
  by (simp add: copy_to_def)

lemma retrieveAll_ok: "buffer_inv b \<Longrightarrow> buffer_inv (retrieveAll b)" "content (retrieveAll b) = []"
  by (simp_all add: buffer_inv_def retrieveAll_def content_def range_of_def)

lemma retrieve_ok:
  assumes "buffer_inv b"
  shows "buffer_inv (retrieve n b)" "content (retrieve n b) = drop n (content b)"
  using assms retrieveAll_ok [of b] content_length [OF assms]
  by (auto simp: retrieve_def buffer_inv_def buffer_defs drop_take add.commute)

lemma retrieveUntil_ok:
  assumes "buffer_inv b" "readerIndex b \<le> e"
  shows "buffer_inv (retrieveUntil e b)" "content (retrieveUntil e b) = drop (e - readerIndex b) (content b)"
  using assms retrieve_ok by (simp_all add: retrieveUntil_def)

lemma makeSpace_ok:
  assumes "buffer_inv b" "writableBytes b < n"
  shows "buffer_inv (makeSpace n b)" "content (makeSpace n b) = content b" "n \<le> writableBytes (makeSpace n b)"
proof -
  have len: "length (content b) = readableBytes b" using assms(1) by (rule content_length)
  have inv: "readerIndex b \<le> writerIndex b" "writerIndex b \<le> length (buf_bytes b)" "CheapPrepend \<le> length (buf_bytes b)"
    using assms(1) by (simp_all add: buffer_inv_def)
  show "buffer_inv (makeSpace n b)" "content (makeSpace n b) = content b" "n \<le> writableBytes (makeSpace n b)"
    using assms(2) inv len
    by (auto simp: makeSpace_def buffer_inv_def buffer_defs resize_def copy_to_def)
qed

lemma ensureWritableBytes_ok:
  assumes "buffer_inv b"
  shows "buffer_inv (ensureWritableBytes n b)" "content (ensureWritableBytes n b) = content b"
    "n \<le> writableBytes (ensureWritableBytes n b)"
  using assms makeSpace_ok [of b n] by (auto simp: ensureWritableBytes_def)

lemma content_alt: "content b = drop (readerIndex b) (take (writerIndex b) (buf_bytes b))"
  by (simp add: content_def range_of_def drop_take)

text \<open>Bytes written at \<open>beginWrite()\<close> and accounted for.\<close>

lemma put_at_writer:
  assumes "buffer_inv b" "length data \<le> writableBytes b"
  shows "buffer_inv (b\<lparr>buf_bytes := copy_to (writerIndex b) data (buf_bytes b),
      writerIndex := writerIndex b + length data\<rparr>)"
    "content (b\<lparr>buf_bytes := copy_to (writerIndex b) data (buf_bytes b),
      writerIndex := writerIndex b + length data\<rparr>) = content b @ data"
  using assms by (auto simp: copy_to_def buffer_inv_def content_alt writableBytes_def)

text \<open>Appending adds to the back of the content, whether the vector grew, was compacted or had room.\<close>

lemma append_ok:
  assumes "buffer_inv b"
  shows "buffer_inv (append_bytes data b)" "content (append_bytes data b) = content b @ data"
  using put_at_writer [OF ensureWritableBytes_ok(1,3) [OF assms]] ensureWritableBytes_ok(2) [OF assms]
  by (simp_all add: append_bytes_def hasWritten_def Let_def)

lemma prepend_ok:
  assumes "buffer_inv b" "prepend_bytes data b = Some b'"
  shows "buffer_inv b'" "content b' = data @ content b"
  using assms by (auto simp: prepend_bytes_def buffer_inv_def buffer_defs copy_to_def Let_def split: if_splits)

lemma prepend_room: "length data \<le> prependableBytes b \<longleftrightarrow> prepend_bytes data b \<noteq> None"
  by (simp add: prepend_bytes_def prependableBytes_def Let_def)

text \<open>\<open>shrink\<close> keeps the content only where the read index is already at the front.\<close>

lemma shrink_ok:
  assumes "buffer_inv b" "readerIndex b = CheapPrepend"
  shows "buffer_inv (shrink n b)" "content (shrink n b) = content b"
  using assms content_length [OF assms(1)]
  by (auto simp: shrink_def buffer_inv_def buffer_defs copy_to_def)

text \<open>The content changes whenever something was retrieved before.\<close>

lemma shrink_loses_content:
  "\<exists>b. buffer_inv b \<and> content b = ''b'' \<and> content (shrink 0 b) = []"
  by (rule exI [of _ "\<lparr>buf_bytes = replicate 8 nul_char @ ''ab'', readerIndex = 9, writerIndex = 10\<rparr>"])
    (simp add: buffer_inv_def content_def range_of_def shrink_def copy_to_def CheapPrepend_def
      readableBytes_def eval_nat_numeral)

text \<open>Whatever \<open>readv\<close> delivers within the two areas ends at the back of the content.\<close>

lemma readFd_ok:
  assumes "buffer_inv b" "readFd (Inr data) b = (n, err, b')"
  shows "buffer_inv b'" "content b' = content b @ data" "n = int (length data)" "err = None"
proof -
  let ?w = "writableBytes b"
  define b1 where "b1 = b\<lparr>buf_bytes := copy_to (writerIndex b) (take ?w data) (buf_bytes b)\<rparr>"
  have b': "b' = (if length data \<le> ?w then b1\<lparr>writerIndex := writerIndex b1 + length data\<rparr>
      else append_bytes (drop ?w data) (b1\<lparr>writerIndex := length (buf_bytes b1)\<rparr>))"
    and "n = int (length data)" "err = None"
    using assms(2) by (auto simp: readFd_def Let_def b1_def)
  then show "n = int (length data)" "err = None" by simp_all
  have short: "buffer_inv (b1\<lparr>writerIndex := writerIndex b + length (take ?w data)\<rparr>)"
    "content (b1\<lparr>writerIndex := writerIndex b + length (take ?w data)\<rparr>) = content b @ take ?w data"
    using put_at_writer [OF assms(1), of "take ?w data"] by (simp_all add: b1_def)
  have "buffer_inv b' \<and> content b' = content b @ data"
  proof (cases "length data \<le> ?w")
    case True
    with short b' show ?thesis by (simp add: b1_def)
  next
    case False
    have "length (buf_bytes b1) = writerIndex b + length (take ?w data)"
      using assms(1) False by (simp add: b1_def copy_to_def buffer_inv_def writableBytes_def)
    with short have b1: "buffer_inv (b1\<lparr>writerIndex := length (buf_bytes b1)\<rparr>)"
      "content (b1\<lparr>writerIndex := length (buf_bytes b1)\<rparr>) = content b @ take ?w data"
      by simp_all
    from append_ok [OF b1(1), of "drop ?w data"] b1(2) False b' show ?thesis by simp
  qed
  then show "buffer_inv b'" "content b' = content b @ data" by simp_all
qed

section \<open>The contract: a queue of bytes\<close>

text \<open>\<open>crlf - buffer->peek()\<close>, the length of the line at the front of the content.\<close>

definition line_length :: "buffer \<Rightarrow> nat option" where
  "line_length b = map_option (\<lambda>crlf. crlf - readerIndex b) (findCRLF b)"

text \<open>
  What the message loops call and what they rely on. \<open>text_at\<close> is \<open>peek\<close> with a length, \<open>drain\<close>
  is \<open>retrieveAsString\<close>.
\<close>

locale byte_queue =
  fixes ok :: "'b \<Rightarrow> bool" and bytes :: "'b \<Rightarrow> string" and line_len :: "'b \<Rightarrow> nat option"
    and count :: "'b \<Rightarrow> nat" and push :: "string \<Rightarrow> 'b \<Rightarrow> 'b" and drop_front :: "nat \<Rightarrow> 'b \<Rightarrow> 'b"
    and drain :: "'b \<Rightarrow> string \<times> 'b"
  assumes line_len: "ok b \<Longrightarrow> line_len b = find_sub crlf_bytes (bytes b)"
    and count: "ok b \<Longrightarrow> count b = length (bytes b)"
    and push_ok: "ok b \<Longrightarrow> ok (push s b)"
    and push_bytes: "ok b \<Longrightarrow> bytes (push s b) = bytes b @ s"
    and drop_ok: "ok b \<Longrightarrow> ok (drop_front n b)"
    and drop_bytes: "ok b \<Longrightarrow> bytes (drop_front n b) = drop n (bytes b)"
    and drain_ok: "ok b \<Longrightarrow> ok (snd (drain b))"
    and drain_all: "ok b \<Longrightarrow> fst (drain b) = bytes b"
    and drain_empty: "ok b \<Longrightarrow> bytes (snd (drain b)) = []"
begin

lemma find_crlf_line: "cr_char \<notin> set h \<Longrightarrow> find_sub crlf_bytes (h @ crlf_bytes @ rest) = Some (length h)"
  by (induction h) (auto simp: crlf_bytes_def)

lemma find_crlf_none: "lf_char \<notin> set xs \<or> cr_char \<notin> set xs \<Longrightarrow> find_sub crlf_bytes xs = None"
proof (induction xs)
  case (Cons x xs)
  have "take 2 (x # xs) \<noteq> crlf_bytes"
    using Cons.prems by (cases xs) (auto simp: crlf_bytes_def numeral_2_eq_2)
  with Cons show ?case by (auto simp: crlf_bytes_def)
qed (simp add: crlf_bytes_def)

text \<open>Bytes that arrive in pieces are the bytes in one piece.\<close>

lemma push_pieces: "ok b \<Longrightarrow> ok (fold push pieces b) \<and> bytes (fold push pieces b) = bytes b @ concat pieces"
  by (induction pieces arbitrary: b) (auto simp: push_ok push_bytes)

text \<open>A header line at the front is found, and removed with its line end.\<close>

lemma line_front:
  assumes "ok b" "bytes b = h @ crlf_bytes @ rest" "cr_char \<notin> set h"
  shows "line_len b = Some (length h)" "bytes (drop_front (length h + 2) b) = rest"
    "take (length h + 2) (bytes b) = h @ crlf_bytes" "count b = length h + 2 + length rest"
  using assms find_crlf_line [OF assms(3), of rest]
  by (simp_all add: line_len drop_bytes count) (simp_all add: crlf_bytes_def)

text \<open>After the header is dropped, draining gives the rest and leaves an empty queue.\<close>

lemma drain_rest:
  assumes "ok b" "bytes b = h @ crlf_bytes @ rest" "cr_char \<notin> set h"
  shows "fst (drain (drop_front (length h + 2) b)) = rest"
    "ok (snd (drain (drop_front (length h + 2) b)))"
    "bytes (snd (drain (drop_front (length h + 2) b))) = []"
  using assms line_front(2) [OF assms]
  by (simp_all add: drop_ok drain_all drain_ok drain_empty)

lemma no_line: "ok b \<Longrightarrow> bytes b = [] \<Longrightarrow> line_len b = None"
  by (simp add: line_len crlf_bytes_def)

end

lemma line_length_find: "line_length b = find_sub crlf_bytes (content b)"
  by (cases "find_sub crlf_bytes (content b)") (simp_all add: line_length_def findCRLF_def)

interpretation bq: byte_queue buffer_inv content line_length readableBytes append_bytes retrieve retrieveAsString
  by unfold_locales
    (auto simp: line_length_find content_length append_ok retrieve_ok retrieveAsString_def retrieveAll_ok)

end
