(* ===== verification/RpcFraming.thy ===== *)
theory RpcFraming
  imports JsonRoundTrip NetBuffer
begin

text \<open>
  What the RPC server (\<open>zrpc/server/BaseServer.cpp\<close>) and client (\<open>zrpc/client/RpcClient.cpp\<close>)
  share: the frame of a message (the decimal length of the JSON text and its line end, a line
  end, the text, a line end), the check of a header line, the error that leaves a handler, and
  the response object of \<open>zrpc/util.h\<close>.
\<close>

section \<open>Errors\<close>

text \<open>The two kinds of things the code throws: a string literal, and \<open>base/Exception.h\<close>.\<close>

datatype rpc_error = CStr string | Exn string

text \<open>How an operation ends.\<close>

datatype exit = Returned | Raised rpc_error | Aborted

fun exit_of :: "(rpc_error, 'a) outcome \<Rightarrow> exit" where
  "exit_of (Done _) = Returned"
| "exit_of (Throw e) = Raised e"
| "exit_of Abort = Aborted"

section \<open>Frames\<close>

text \<open>\<open>std::to_string(os.get().length() + 2).append("\r\n").append(os.get()).append("\r\n")\<close>\<close>

definition frame :: "string \<Rightarrow> string" where
  "frame text = dec (length text + 2) @ crlf_bytes @ text @ crlf_bytes"

text \<open>\<open>sendRequest\<close> of the client and \<open>sendResponse\<close> of the server; None when the writer's assert fails.\<close>

definition message_of :: "jvalue \<Rightarrow> string option" where
  "message_of v = map_option frame (write_value v)"

text \<open>
  The header check of both loops: the line is parsed as JSON, its line end included and the rest of
  the buffer behind it in memory, and must be a positive 32-bit integer. A document's assert (a header that repeats a key) aborts.
\<close>

datatype header = BadHeader | HeaderAbort | BodyLength nat

definition check_header :: "string \<Rightarrow> string \<Rightarrow> header" where
  "check_header mem hline =
     (case doc_parse_in mem hline of
        None \<Rightarrow> HeaderAbort
      | Some (err, header) \<Rightarrow>
          if err \<noteq> PARSE_OK \<or> \<not> isInt32 header then BadHeader
          else (case getInt32 header :: (unit, i32) outcome of
                  Done n \<Rightarrow> if n \<le>s 0 then BadHeader else BodyLength (unat n)
                | Throw _ \<Rightarrow> HeaderAbort
                | Abort \<Rightarrow> HeaderAbort))"

text \<open>The line end keeps the number from being read past the line.\<close>

lemma header_behind: "doc_parse_in mem (l @ crlf_bytes) = doc_parse (l @ crlf_bytes)"
  by (rule doc_parse_behind) (simp add: number_ends_def crlf_bytes_def)

lemma word32_pos:
  assumes "0 < n" "n < 2 ^ 31"
  shows "\<not> (word_of_int (int n) :: i32) \<le>s 0" "unat (word_of_int (int n) :: i32) = n"
proof -
  have "sint (word_of_int (int n) :: i32) = int n"
    using assms by (simp only: sint_sbintrunc') (simp add: signed_take_bit_int_eq_self)
  then show "\<not> (word_of_int (int n) :: i32) \<le>s 0"
    using assms(1) by (simp add: word_sle_eq)
  show "unat (word_of_int (int n) :: i32) = n"
    using assms(2) by (simp add: unat_of_nat)
qed

text \<open>The header a frame starts with passes the check.\<close>

lemma check_header_dec:
  assumes "0 < n" "n < 2 ^ 31"
  shows "check_header mem (dec n @ crlf_bytes) = BodyLength n"
proof -
  have i: "in_int32 (int n)" using assms by (simp add: in_int32_def)
  have "doc_parse (dec n @ crlf_bytes) = Some (PARSE_OK, JInt32 (word_of_int (int n)))"
    using doc_parse_text [OF text_int32 [OF i], of "[]" crlf_bytes]
    by (simp add: dec_int_def crlf_bytes_def is_ws_def)
  then show ?thesis
    using word32_pos [OF assms] by (simp add: check_header_def header_behind [of mem] isInt32_def)
qed

lemma dec_no_cr: "cr_char \<notin> set (dec n)"
  using dec_digits [of cr_char n] by (auto simp: is_digit_def byte_of_def)

text \<open>A framed text is read back by the document parser, line end included.\<close>

lemma doc_parse_framed:
  assumes "readable v" "distinct_keys v" "write_value v = Some text"
  shows "doc_parse (text @ crlf_bytes) = Some (PARSE_OK, norm v)"
proof -
  from assms have "text = render v" by (simp add: writer_render readable_writable)
  with doc_parse_text [OF text_render [OF assms(1)], of "[]" crlf_bytes] assms(2) show ?thesis
    by (simp add: distinct_keys_norm crlf_bytes_def is_ws_def)
qed

section \<open>The response object\<close>

text \<open>\<open>Value::addMember(const char*, T&&)\<close>: the key becomes a string value.\<close>

definition add_member :: "string \<Rightarrow> jvalue \<Rightarrow> jvalue \<Rightarrow> (rpc_error, jvalue) outcome" where
  "add_member key x v = addMember v (JString key) x"

text \<open>\<open>UserDoneCallback::operator()\<close>: what is passed to the callback it wraps.\<close>

definition user_done :: "jvalue \<Rightarrow> jvalue \<Rightarrow> (rpc_error, jvalue) outcome" where
  "user_done request result =
     obind (add_member ''jsonrpc'' (JString ''2.0'') (value_of_type TYPE_OBJECT)) (\<lambda>response.
     obind (index_key request ''id'') (\<lambda>i.
     obind (add_member ''id'' i response) (\<lambda>response.
       add_member ''result'' result response)))"

lemma index_key_member [simp]:
  "index_key (JObject ms) k = (case map_of ms k of Some v \<Rightarrow> Done v | None \<Rightarrow> Abort)"
  by (simp add: index_key_def)

lemma user_done_ok:
  "map_of ms ''id'' = Some i \<Longrightarrow> user_done (JObject ms) result =
     Done (JObject [(''jsonrpc'', JString ''2.0''), (''id'', i), (''result'', result)])"
  by (simp add: user_done_def add_member_def)

end
