(* ===== verification/RpcServer.thy ===== *)
theory RpcServer
  imports RpcFraming
begin

text \<open>
  The server: \<open>zrpc/server/Procedure\<close>, \<open>RpcService\<close>, \<open>Rpcserver\<close> and \<open>BaseServer\<close>. A registered
  callback is a parameter: the list of values a call of it passes to its \<open>done\<close> (it answers
  before it returns). A run of the server gives the callbacks invoked, the values passed to
  \<open>done\<close>, and how it ended: what was done before an exception has happened all the same.
\<close>

section \<open>Procedures\<close>

type_synonym params = "(string \<times> value_type) list"

record 'f procedure =
  callback :: 'f
  params :: params

text \<open>A return callback is sent the request and answers; a notify callback is only sent it.\<close>

type_synonym procedure_return = "(jvalue \<Rightarrow> jvalue list) procedure"
type_synonym procedure_notify = "unit procedure"

text \<open>The constructor's pack of names and types, pushed one after the other.\<close>

fun initProcedure :: "params \<Rightarrow> params \<Rightarrow> params" where
  "initProcedure ps [] = ps"
| "initProcedure ps ((name, type) # rest) = initProcedure (ps @ [(name, type)]) rest"

definition make_procedure :: "'f \<Rightarrow> params \<Rightarrow> 'f procedure" where
  "make_procedure f nameAndTypes = \<lparr>callback = f, params = initProcedure [] nameAndTypes\<rparr>"

lemma initProcedure_append: "initProcedure ps qs = ps @ qs"
  by (induction ps qs rule: initProcedure.induct) auto

text \<open>The two loops of \<open>validateGeneric\<close>: parameters by position, and by name.\<close>

fun check_elements :: "jvalue \<Rightarrow> nat \<Rightarrow> params \<Rightarrow> (rpc_error, bool) outcome" where
  "check_elements args i [] = Done True"
| "check_elements args i (p # ps) =
     obind (index_at args i) (\<lambda>v.
       if getType v \<noteq> snd p then Done False else check_elements args (Suc i) ps)"

fun check_members :: "jvalue \<Rightarrow> params \<Rightarrow> (rpc_error, bool) outcome" where
  "check_members args [] = Done True"
| "check_members args (p # ps) =
     obind (findMember args (fst p)) (\<lambda>it.
       case it of
         None \<Rightarrow> Done False
       | Some v \<Rightarrow> if getType v \<noteq> snd p then Done False else check_members args ps)"

definition validateGeneric :: "params \<Rightarrow> jvalue \<Rightarrow> (rpc_error, bool) outcome" where
  "validateGeneric ps request =
     obind (findMember request ''params'') (\<lambda>it.
       case it of
         None \<Rightarrow> Done (ps = [])
       | Some args \<Rightarrow>
           if getSize args = 0 \<or> getSize args \<noteq> length ps then Done False
           else if getType args = TYPE_ARRAY then check_elements args 0 ps
           else if getType args = TYPE_OBJECT then check_members args ps
           else Done False)"

text \<open>\<open>Procedure::validateRequest\<close>, the same for both kinds of procedure.\<close>

definition validateParams :: "params \<Rightarrow> jvalue \<Rightarrow> (rpc_error, unit) outcome" where
  "validateParams ps request =
     (if getType request = TYPE_OBJECT \<or> getType request = TYPE_ARRAY then
        obind (validateGeneric ps request) (\<lambda>ok.
          if ok then Done () else Throw (CStr ''params name or type mismatch''))
      else Throw (CStr ''params type must be object or array''))"

text \<open>The parameters accepted: none where none are declared, or as many as declared, of the
  declared types, in an array by position or in an object by name.\<close>

definition args_match :: "params \<Rightarrow> jvalue \<Rightarrow> bool" where
  "args_match ps args \<longleftrightarrow>
     (\<exists>vs. args = JArray vs \<and> vs \<noteq> [] \<and> map getType vs = map snd ps) \<or>
     (\<exists>ms. args = JObject ms \<and> ms \<noteq> [] \<and> length ms = length ps \<and>
        (\<forall>(name, type)\<in>set ps. \<exists>v. map_of ms name = Some v \<and> getType v = type))"

lemma check_elements_spec:
  "i + length ps \<le> length vs \<Longrightarrow>
     check_elements (JArray vs) i ps = Done (map getType (take (length ps) (drop i vs)) = map snd ps)"
proof (induction ps arbitrary: i)
  case (Cons p ps)
  then have "i < length vs" by simp
  then have "drop i vs = vs ! i # drop (Suc i) vs" by (rule Cons_nth_drop_Suc [symmetric])
  with Cons show ?case by simp
qed simp

lemma check_members_spec:
  "check_members (JObject ms) ps =
     Done (\<forall>(name, type)\<in>set ps. \<exists>v. map_of ms name = Some v \<and> getType v = type)"
  by (induction ps) (auto split: option.splits)

lemma validateGeneric_spec:
  "validateGeneric ps (JObject ms) =
     Done (case map_of ms ''params'' of None \<Rightarrow> ps = [] | Some args \<Rightarrow> args_match ps args)"
proof (cases "map_of ms ''params''")
  case (Some args)
  show ?thesis
  proof (cases args)
    case (JArray vs)
    have "args_match ps args \<longleftrightarrow> vs \<noteq> [] \<and> length vs = length ps \<and> map getType vs = map snd ps"
      using JArray by (auto simp: args_match_def dest: map_eq_imp_length_eq)
    then show ?thesis
      using Some JArray check_elements_spec [of 0 ps vs] by (auto simp: validateGeneric_def)
  next
    case (JObject ms')
    then show ?thesis
      using Some by (auto simp: validateGeneric_def args_match_def check_members_spec)
  qed (use Some in \<open>auto simp: validateGeneric_def args_match_def\<close>)
qed (simp add: validateGeneric_def)

section \<open>Services\<close>

record service =
  procedureReturnList :: "string \<rightharpoonup> procedure_return"
  procedureNotifyList :: "string \<rightharpoonup> procedure_notify"

definition service_init :: service where
  "service_init = \<lparr>procedureReturnList = Map.empty, procedureNotifyList = Map.empty\<rparr>"

definition addProcedureReturn ::
    "string \<Rightarrow> procedure_return \<Rightarrow> service \<Rightarrow> (rpc_error, service) outcome" where
  "addProcedureReturn methodName p s =
     require (procedureReturnList s methodName = None)
       (Done (s\<lparr>procedureReturnList := (procedureReturnList s)(methodName \<mapsto> p)\<rparr>))"

definition addProcedureNotify ::
    "string \<Rightarrow> procedure_notify \<Rightarrow> service \<Rightarrow> (rpc_error, service) outcome" where
  "addProcedureNotify methodName p s =
     require (procedureNotifyList s methodName = None)
       (Done (s\<lparr>procedureNotifyList := (procedureNotifyList s)(methodName \<mapsto> p)\<rparr>))"

text \<open>A call of a callback, with the request it is given.\<close>

datatype call = CallReturn string jvalue | CallNotify string jvalue

text \<open>Calls made, values passed to \<open>done\<close>, end.\<close>

type_synonym run = "call list \<times> jvalue list \<times> exit"

definition failed :: "rpc_error \<Rightarrow> run" where
  "failed e = ([], [], Raised e)"

fun guarded :: "(rpc_error, 'a) outcome \<Rightarrow> ('a \<Rightarrow> run) \<Rightarrow> run" where
  "guarded (Done x) k = k x"
| "guarded (Throw e) k = failed e"
| "guarded Abort k = ([], [], Aborted)"

text \<open>\<open>Procedure::invoke\<close>, twice.\<close>

definition invoke_return :: "string \<Rightarrow> procedure_return \<Rightarrow> jvalue \<Rightarrow> run" where
  "invoke_return name p request =
     guarded (validateParams (params p) request) (\<lambda>_.
       ([CallReturn name request], callback p request, Returned))"

definition invoke_notify :: "string \<Rightarrow> procedure_notify \<Rightarrow> jvalue \<Rightarrow> run" where
  "invoke_notify name p request =
     guarded (validateParams (params p) request) (\<lambda>_. ([CallNotify name request], [], Returned))"

definition callProcedureReturn :: "service \<Rightarrow> string \<Rightarrow> jvalue \<Rightarrow> run" where
  "callProcedureReturn s methodName request =
     (case procedureReturnList s methodName of
        None \<Rightarrow> failed (CStr ''method not found'')
      | Some p \<Rightarrow> invoke_return methodName p request)"

definition callProcedureNotify :: "service \<Rightarrow> string \<Rightarrow> jvalue \<Rightarrow> run" where
  "callProcedureNotify s methodName request =
     (case procedureNotifyList s methodName of
        None \<Rightarrow> failed (CStr ''method not found'')
      | Some p \<Rightarrow> invoke_notify methodName p request)"

section \<open>Requests\<close>

type_synonym server = "string \<rightharpoonup> service"

definition addService :: "string \<Rightarrow> service \<Rightarrow> server \<Rightarrow> (rpc_error, server) outcome" where
  "addService serviceName s srv = require (srv serviceName = None) (Done (srv(serviceName \<mapsto> s)))"

definition hasParams :: "jvalue \<Rightarrow> (rpc_error, bool) outcome" where
  "hasParams request = obind (findMember request ''params'') (\<lambda>it. Done (it \<noteq> None))"

definition isNotify :: "jvalue \<Rightarrow> (rpc_error, bool) outcome" where
  "isNotify request = obind (findMember request ''id'') (\<lambda>it. Done (it = None))"

fun checkValueType :: "value_type list \<Rightarrow> value_type \<Rightarrow> (rpc_error, unit) outcome" where
  "checkValueType [] type = Throw (Exn ''bad type '')"
| "checkValueType (dst # rest) type = (if type = dst then Done () else checkValueType rest type)"

definition findValue :: "value_type list \<Rightarrow> jvalue \<Rightarrow> string \<Rightarrow> (rpc_error, jvalue) outcome" where
  "findValue types request key =
     obind (findMember request key) (\<lambda>it.
       case it of
         None \<Rightarrow> Throw (Exn ''missing at least one filed'')
       | Some v \<Rightarrow> obind (checkValueType types (getType v)) (\<lambda>_. Done v))"

text \<open>What \<open>validateRequest\<close> and \<open>validateNotify\<close> share; they differ in the number of members.\<close>

definition validate_fields :: "nat \<Rightarrow> jvalue \<Rightarrow> (rpc_error, unit) outcome" where
  "validate_fields base request =
     obind (findValue [TYPE_STRING, TYPE_INT32, TYPE_INT64] request ''id'') (\<lambda>_.
     obind (findValue [TYPE_STRING] request ''jsonrpc'') (\<lambda>version.
     obind (getStringView version) (\<lambda>ver.
       if ver \<noteq> ''2.0'' then Throw (Exn ''jsonrpc version is unknown'')
       else
     obind (findValue [TYPE_STRING] request ''method'') (\<lambda>meth.
     obind (getStringView meth) (\<lambda>m.
       if m = ''rpc.'' then Throw (Exn ''method name is internal used'')
       else
     obind (hasParams request) (\<lambda>has.
       if getSize request \<noteq> base + (if has then 1 else 0) then Throw (Exn ''unexpected field'')
       else Done ()))))))"

definition validateRequest :: "jvalue \<Rightarrow> (rpc_error, unit) outcome" where
  "validateRequest request = validate_fields 3 request"

definition validateNotify :: "jvalue \<Rightarrow> (rpc_error, unit) outcome" where
  "validateNotify request = validate_fields 2 request"

text \<open>The service and the method a name \<open>service.method\<close> is split into.\<close>

definition split_method :: "server \<Rightarrow> jvalue \<Rightarrow> (rpc_error, service \<times> string) outcome" where
  "split_method srv request =
     obind (index_key request ''method'') (\<lambda>m.
     obind (getStringView m) (\<lambda>methodName.
       case find_sub ''.'' methodName of
         None \<Rightarrow> Throw (Exn ''missing service Name in method'')
       | Some pos \<Rightarrow>
           (case srv (take pos methodName) of
              None \<Rightarrow> Throw (Exn ''serviceName not found'')
            | Some s \<Rightarrow>
                let rest = drop (pos + 1) methodName in
                if length rest = 0 then Throw (Exn ''missing method name in method'')
                else Done (s, rest))))"

definition handleSingleRequest :: "server \<Rightarrow> jvalue \<Rightarrow> run" where
  "handleSingleRequest srv request =
     guarded (validateRequest request) (\<lambda>_.
     guarded (index_key request ''id'') (\<lambda>_.
     guarded (split_method srv request) (\<lambda>(s, methodName).
       callProcedureReturn s methodName request)))"

definition handleSingleNotify :: "server \<Rightarrow> jvalue \<Rightarrow> run" where
  "handleSingleNotify srv request =
     guarded (validateNotify request) (\<lambda>_.
     guarded (split_method srv request) (\<lambda>(s, methodName).
       callProcedureNotify s methodName request))"

text \<open>
  A batch. The responses are collected in an array, which is passed to \<open>done\<close> when the collector
  dies: also when an exception leaves the loop, but not when the process aborts.
\<close>

definition batch_item :: "server \<Rightarrow> jvalue \<Rightarrow> run" where
  "batch_item srv request =
     (if \<not> isObject request then failed (Exn ''request json is bad'')
      else guarded (isNotify request) (\<lambda>notify.
        if notify then handleSingleNotify srv request else handleSingleRequest srv request))"

fun batch_loop :: "server \<Rightarrow> jvalue list \<Rightarrow> run" where
  "batch_loop srv [] = ([], [], Returned)"
| "batch_loop srv (r # rs) =
     (let (calls, resp, x) = batch_item srv r in
      if x = Returned then
        (let (calls', resp', x') = batch_loop srv rs in (calls @ calls', resp @ resp', x'))
      else (calls, resp, x))"

definition handleBatchRequests :: "server \<Rightarrow> jvalue \<Rightarrow> run" where
  "handleBatchRequests srv requests =
     (if getSize requests = 0 then failed (Exn ''batch request is empty'')
      else guarded (getArray requests) (\<lambda>rs.
        let (calls, responses, x) = batch_loop srv rs
        in (calls, if x = Aborted then [] else [JArray responses], x)))"

definition handleRequest :: "server \<Rightarrow> string \<Rightarrow> run" where
  "handleRequest srv json =
     (case doc_parse json of
        None \<Rightarrow> ([], [], Aborted)
      | Some (err, request) \<Rightarrow>
          if err \<noteq> PARSE_OK then failed (Exn ''parse failed'')
          else if getType request = TYPE_OBJECT then
            guarded (isNotify request) (\<lambda>notify.
              if notify then handleSingleNotify srv request else handleSingleRequest srv request)
          else if getType request = TYPE_ARRAY then handleBatchRequests srv request
          else failed (Exn ''request should be json object or array''))"

section \<open>The message loop\<close>

definition kMaxMessageLen :: nat where "kMaxMessageLen = 100 * 1024 * 1024"

text \<open>The callback \<open>handleMessage\<close> passes as \<open>done\<close>: a null response is not sent.\<close>

fun send_responses :: "jvalue list \<Rightarrow> string list \<times> exit" where
  "send_responses [] = ([], Returned)"
| "send_responses (r # rs) =
     (if isNull r then send_responses rs
      else case message_of r of
             None \<Rightarrow> ([], Aborted)
           | Some m \<Rightarrow> (let (ms, x) = send_responses rs in (m # ms, x)))"

lemma readable_content: "length (content b) \<le> readableBytes b"
  by (simp add: buffer_defs)

lemma line_length_readable: "line_length b = Some n \<Longrightarrow> 0 < readableBytes b"
  using find_sub_Some [of crlf_bytes "content b" n] readable_content [of b]
  by (simp add: line_length_find crlf_bytes_def)

text \<open>Calls of callbacks, messages sent, the buffer left, and the end.\<close>

function handleMessage :: "server \<Rightarrow> buffer \<Rightarrow> call list \<times> string list \<times> buffer \<times> exit" where
  "handleMessage srv b =
     (case line_length b of
        None \<Rightarrow> ([], [], b, Returned)
      | Some n \<Rightarrow>
          if n = 0 then ([], [], retrieve 2 b, Returned)
          else let headerLen = n + 2 in
            case check_header (drop headerLen (content b)) (take headerLen (content b)) of
              BadHeader \<Rightarrow> ([], [], b, Raised (CStr ''invalid message length''))
            | HeaderAbort \<Rightarrow> ([], [], b, Aborted)
            | BodyLength jsonLen \<Rightarrow>
                if kMaxMessageLen \<le> jsonLen then ([], [], b, Raised (CStr ''message is too long''))
                else if readableBytes b < headerLen + jsonLen then ([], [], b, Returned)
                else
                  let b1 = retrieve headerLen b;
                      json = fst (retrieveAsString b1);
                      (calls, responses, x) = handleRequest srv json;
                      (sent, y) = send_responses responses;
                      z = (if y = Returned then x else y);
                      b2 = snd (retrieveAsString b1)
                  in if z = Returned then
                       (let (calls', sent', b', x') = handleMessage srv b2
                        in (calls @ calls', sent @ sent', b', x'))
                     else (calls, sent, b2, z))"
  by pat_completeness auto
termination
  by (relation "measure (\<lambda>(srv, b). readableBytes b)")
    (auto simp: retrieveAsString_def retrieveAll_def readableBytes_def dest: line_length_readable)

declare handleMessage.simps [simp del]

text \<open>\<open>onMessage\<close> catches string literals only.\<close>

definition onMessage :: "server \<Rightarrow> buffer \<Rightarrow> call list \<times> string list \<times> buffer \<times> exit" where
  "onMessage srv b =
     (let (calls, sent, b', x) = handleMessage srv b
      in (calls, sent, b', case x of Raised (CStr _) \<Rightarrow> Returned | _ \<Rightarrow> x))"

section \<open>What requests are accepted\<close>

definition valid_request :: "members \<Rightarrow> bool" where
  "valid_request ms \<longleftrightarrow>
     (\<exists>i. map_of ms ''id'' = Some i \<and> getType i \<in> {TYPE_STRING, TYPE_INT32, TYPE_INT64}) \<and>
     map_of ms ''jsonrpc'' = Some (JString ''2.0'') \<and>
     (\<exists>m. map_of ms ''method'' = Some (JString m) \<and> m \<noteq> ''rpc.'') \<and>
     fst ` set ms \<subseteq> {''id'', ''jsonrpc'', ''method'', ''params''}"

lemma findValue_Done:
  "findValue types (JObject ms) k = Done v \<longleftrightarrow> map_of ms k = Some v \<and> getType v \<in> set types"
proof -
  have "checkValueType types t = Done () \<longleftrightarrow> t \<in> set types" for t
    by (induction types) auto
  moreover have "(checkValueType types t = Done u) = (checkValueType types t = Done ())" for t u
    by (cases u) simp
  ultimately show ?thesis by (auto simp: findValue_def split: option.splits)
qed

lemma getStringView_Done [simp]: "getStringView v = Done s \<longleftrightarrow> v = JString s"
  by (cases v) auto

lemma getType_string: "getType v = TYPE_STRING \<longleftrightarrow> (\<exists>s. v = JString s)"
  by (cases v) auto

lemma if_throw_Done [simp]:
  "(if c then Throw e else k) = Done x \<longleftrightarrow> \<not> c \<and> k = Done x"
  by simp

lemma validate_fields_Done:
  "validate_fields base (JObject ms) = Done u \<longleftrightarrow>
     (\<exists>i. map_of ms ''id'' = Some i \<and> getType i \<in> {TYPE_STRING, TYPE_INT32, TYPE_INT64}) \<and>
     map_of ms ''jsonrpc'' = Some (JString ''2.0'') \<and>
     (\<exists>m. map_of ms ''method'' = Some (JString m) \<and> m \<noteq> ''rpc.'') \<and>
     length ms = base + (if map_of ms ''params'' = None then 0 else 1)"
  by (auto simp: validate_fields_def findValue_Done hasParams_def getType_string split del: if_split)
    (auto split: if_splits)

text \<open>A member count of three, or four with \<open>params\<close>, leaves no room for other members.\<close>

lemma map_of_key: "k \<in> fst ` set ms \<longleftrightarrow> (\<exists>v. map_of ms k = Some v)"
  by (metis map_of_eq_None_iff not_None_eq)

lemma member_count:
  assumes "distinct (map fst ms)" "{''id'', ''jsonrpc'', ''method''} \<subseteq> fst ` set ms"
  shows "length ms = 3 + (if map_of ms ''params'' = None then 0 else 1) \<longleftrightarrow>
    fst ` set ms \<subseteq> {''id'', ''jsonrpc'', ''method'', ''params''}"
proof -
  let ?K = "fst ` set ms" and ?R = "{''id'', ''jsonrpc'', ''method''}"
  let ?A = "if map_of ms ''params'' = None then ?R else insert ''params'' ?R"
  have card: "card ?K = length ms"
    using assms(1) by (metis distinct_card length_map list.set_map)
  have p: "map_of ms ''params'' = None \<longleftrightarrow> ''params'' \<notin> ?K"
    by (simp add: map_of_eq_None_iff)
  have sub: "?A \<subseteq> ?K" using assms(2) p by auto
  have "card ?A = 3 + (if map_of ms ''params'' = None then 0 else 1)" by simp
  then have "length ms = 3 + (if map_of ms ''params'' = None then 0 else 1) \<longleftrightarrow> card ?K = card ?A"
    using card by simp
  also have "\<dots> \<longleftrightarrow> ?K = ?A"
    using sub by (metis List.finite_set card_subset_eq finite_imageI)
  also have "\<dots> \<longleftrightarrow> ?K \<subseteq> insert ''params'' ?R"
  proof -
    have "A \<subseteq> K \<Longrightarrow> x \<notin> K \<Longrightarrow> K = A \<longleftrightarrow> K \<subseteq> insert x A"
      "insert x A \<subseteq> K \<Longrightarrow> K = insert x A \<longleftrightarrow> K \<subseteq> insert x A" for A K :: "string set" and x
      by blast+
    then show ?thesis using sub p by (auto split del: if_split split: if_split_asm)
  qed
  finally show ?thesis by (simp add: insert_commute)
qed

lemma validateRequest_spec:
  assumes "distinct (map fst ms)"
  shows "validateRequest (JObject ms) = Done () \<longleftrightarrow> valid_request ms"
proof -
  have "{''id'', ''jsonrpc'', ''method''} \<subseteq> fst ` set ms"
    if "map_of ms ''id'' = Some i" "map_of ms ''jsonrpc'' = Some v" "map_of ms ''method'' = Some w" for i v w
    unfolding insert_subset map_of_key using that by simp
  from member_count [OF assms this] show ?thesis
    unfolding validateRequest_def validate_fields_Done valid_request_def by metis
qed

text \<open>A notification has no \<open>id\<close>, and its validation wants one.\<close>

lemma notify_rejected:
  assumes "isNotify request = Done True"
  shows "handleSingleNotify srv request = failed (Exn ''missing at least one filed'')"
proof -
  obtain ms where "request = JObject ms" "map_of ms ''id'' = None"
    using assms by (cases request) (auto simp: isNotify_def)
  then show ?thesis
    by (simp add: handleSingleNotify_def validateNotify_def validate_fields_def findValue_def)
qed

section \<open>Runs of the handlers\<close>

text \<open>A handler that does not return has called nothing and answered nothing.\<close>

definition clean :: "run \<Rightarrow> bool" where
  "clean r \<longleftrightarrow> (case r of (calls, responses, x) \<Rightarrow> x \<noteq> Returned \<longrightarrow> calls = [] \<and> responses = [])"

lemma clean_simps [simp]:
  "clean (failed e)" "clean ([], [], x)" "clean (calls, resp, Returned)"
  by (simp_all add: clean_def failed_def)

lemma clean_guarded [intro]: "(\<And>x. m = Done x \<Longrightarrow> clean (k x)) \<Longrightarrow> clean (guarded m k)"
  by (cases m) auto

lemma clean_single:
  "clean (handleSingleRequest srv request)" "clean (handleSingleNotify srv request)"
  by (auto simp: handleSingleRequest_def handleSingleNotify_def callProcedureReturn_def
      callProcedureNotify_def invoke_return_def invoke_notify_def intro!: clean_guarded
      split: option.split prod.split)

lemma clean_batch_item: "clean (batch_item srv r)"
  by (auto simp: batch_item_def clean_single intro!: clean_guarded)

text \<open>The run of a request that names a registered procedure and carries parameters it takes.\<close>

lemma find_dot: "CHR ''.'' \<notin> set s \<Longrightarrow> find_sub ''.'' (s @ CHR ''.'' # m) = Some (length s)"
  by (induction s) auto

definition targets :: "server \<Rightarrow> members \<Rightarrow> string \<Rightarrow> procedure_return \<Rightarrow> bool" where
  "targets srv ms m p \<longleftrightarrow>
     (\<exists>sname s. map_of ms ''method'' = Some (JString (sname @ CHR ''.'' # m)) \<and> CHR ''.'' \<notin> set sname \<and>
        m \<noteq> [] \<and> srv sname = Some s \<and> procedureReturnList s m = Some p)"

definition accepts_params :: "params \<Rightarrow> members \<Rightarrow> bool" where
  "accepts_params ps ms \<longleftrightarrow>
     (case map_of ms ''params'' of None \<Rightarrow> ps = [] | Some args \<Rightarrow> args_match ps args)"

lemma validateParams_spec:
  "validateParams ps (JObject ms) =
     (if accepts_params ps ms then Done () else Throw (CStr ''params name or type mismatch''))"
  by (simp add: validateParams_def validateGeneric_spec accepts_params_def)

lemma single_request_run:
  assumes "distinct (map fst ms)" "valid_request ms" "targets srv ms m p"
  shows "handleSingleRequest srv (JObject ms) =
    (if accepts_params (params p) ms then ([CallReturn m (JObject ms)], callback p (JObject ms), Returned)
     else failed (CStr ''params name or type mismatch''))"
proof -
  from assms(3) obtain sname s where
    t: "map_of ms ''method'' = Some (JString (sname @ CHR ''.'' # m))" "CHR ''.'' \<notin> set sname" "m \<noteq> []"
      "srv sname = Some s" "procedureReturnList s m = Some p"
    by (auto simp: targets_def)
  then have "split_method srv (JObject ms) = Done (s, m)"
    by (simp add: split_method_def find_dot)
  moreover have "validateRequest (JObject ms) = Done ()"
    using assms(1,2) by (simp add: validateRequest_spec)
  moreover obtain i where "map_of ms ''id'' = Some i"
    using assms(2) by (auto simp: valid_request_def)
  ultimately show ?thesis
    using t(5) by (simp add: handleSingleRequest_def callProcedureReturn_def invoke_return_def validateParams_spec)
qed

text \<open>A batch up to its first failing item: what came before is answered, in order, in one array.\<close>

lemma batch_loop_ok:
  assumes "\<forall>r\<in>set rs. snd (snd (batch_item srv r)) = Returned"
  shows "batch_loop srv rs =
    (concat (map (\<lambda>r. fst (batch_item srv r)) rs), concat (map (\<lambda>r. fst (snd (batch_item srv r))) rs), Returned)"
  using assms by (induction rs) (auto simp: Let_def split: prod.splits)

lemma batch_loop_fails:
  assumes "\<forall>r\<in>set pre. snd (snd (batch_item srv r)) = Returned" "batch_item srv r = (calls, resp, x)" "x \<noteq> Returned"
  shows "batch_loop srv (pre @ r # post) =
    (concat (map (\<lambda>r. fst (batch_item srv r)) pre), concat (map (\<lambda>r. fst (snd (batch_item srv r))) pre), x)"
  using assms(1)
proof (induction pre)
  case Nil
  with assms(2,3) clean_batch_item [of srv r] show ?case by (simp add: clean_def)
next
  case (Cons q pre)
  then show ?case by (auto simp: Let_def split: prod.splits)
qed

section \<open>The message loop on framed messages\<close>

lemma handleMessage_no_line:
  "line_length b = None \<Longrightarrow> handleMessage srv b = ([], [], b, Returned)"
  by (simp add: handleMessage.simps)

lemma dec_length_pos: "0 < length (dec n)"
  by (cases "dec n") (use dec_not_Nil [of n] in auto)

text \<open>The buffer after a message was taken out.\<close>

definition after_message :: "nat \<Rightarrow> buffer \<Rightarrow> buffer" where
  "after_message n b = snd (retrieveAsString (retrieve n b))"

lemma handleMessage_body:
  assumes inv: "buffer_inv b" and b: "content b = dec n @ crlf_bytes @ rest"
    and n: "0 < n" "n < kMaxMessageLen" "n \<le> length rest"
    and run: "handleRequest srv rest = (calls, responses, x)" "send_responses responses = (sent, y)"
  shows "handleMessage srv b =
    (calls, sent, after_message (length (dec n) + 2) b, if y = Returned then x else y)"
proof -
  note front = bq.line_front [OF inv b dec_no_cr] and rest = bq.drain_rest [OF inv b dec_no_cr]
  have "n < 2 ^ 31" using n(2) by (simp add: kMaxMessageLen_def)
  then have hdr: "check_header (drop (length (dec n) + 2) (content b)) (take (length (dec n) + 2) (content b)) = BodyLength n"
    using check_header_dec [OF n(1)] front(3) by simp
  have empty: "handleMessage srv (after_message (length (dec n) + 2) b) =
      ([], [], after_message (length (dec n) + 2) b, Returned)"
    unfolding after_message_def by (rule handleMessage_no_line [OF bq.no_line [OF rest(2,3)]])
  show ?thesis
    using front(1,4) hdr n rest(1) run empty dec_length_pos [of n]
    by (subst handleMessage.simps) (simp add: Let_def after_message_def)
qed

text \<open>A whole frame is handled and leaves an empty buffer.\<close>

lemma handleMessage_frame:
  assumes "buffer_inv b" "content b = frame text" "length text + 2 < kMaxMessageLen"
    "handleRequest srv (text @ crlf_bytes) = (calls, responses, x)" "send_responses responses = (sent, y)"
  shows "\<exists>b'. handleMessage srv b = (calls, sent, b', if y = Returned then x else y) \<and>
    buffer_inv b' \<and> content b' = []"
proof -
  let ?n = "length text + 2"
  have b: "content b = dec ?n @ crlf_bytes @ (text @ crlf_bytes)" "?n \<le> length (text @ crlf_bytes)"
    using assms(2) by (simp_all add: frame_def crlf_bytes_def)
  have "handleMessage srv b = (calls, sent, after_message (length (dec ?n) + 2) b, if y = Returned then x else y)"
    using assms(3) b(2) by (intro handleMessage_body [OF assms(1) b(1) _ _ _ assms(4,5)]) simp_all
  then show ?thesis
    using bq.drain_rest(2,3) [OF assms(1) b(1) dec_no_cr] by (auto simp: after_message_def)
qed

text \<open>A proper prefix of a frame is left in the buffer, and nothing happens.\<close>

lemma shorter_prefix:
  assumes "xs @ ys = us @ vs" "length xs < length us"
  obtains zs where "us = xs @ zs" "zs \<noteq> []"
  using assms by (auto simp: append_eq_append_conv2)

lemma longer_prefix:
  assumes "xs @ ys = us @ vs" "\<not> length xs < length us"
  obtains zs where "xs = us @ zs" "zs @ ys = vs"
  using assms by (auto simp: append_eq_append_conv2)

lemma handleMessage_partial:
  assumes inv: "buffer_inv b" and p: "content b @ suffix = frame text" "suffix \<noteq> []"
    and len: "length text + 2 < kMaxMessageLen"
  shows "handleMessage srv b = ([], [], b, Returned)"
proof -
  let ?n = "length text + 2"
  let ?h = "dec ?n @ crlf_bytes" and ?body = "text @ crlf_bytes"
  have eq: "content b @ suffix = ?h @ ?body" using p(1) by (simp add: frame_def)
  show ?thesis
  proof (cases "length (content b) < length ?h")
    case True
    with eq obtain u where "?h = content b @ u" "u \<noteq> []"
      by (rule shorter_prefix)
    then have "dec ?n @ [cr_char] = content b @ butlast u"
      by (cases u rule: rev_cases) (auto simp: crlf_bytes_def)
    then have "set (content b) \<subseteq> set (dec ?n) \<union> {cr_char}"
      by (metis Un_insert_right empty_set list.simps(15) set_append sup_ge1 sup_bot_right)
    moreover have "lf_char \<notin> set (dec ?n)"
      using dec_digits [of lf_char ?n] by (auto simp: is_digit_def byte_of_def)
    ultimately have "lf_char \<notin> set (content b)" by auto
    then have "line_length b = None"
      unfolding line_length_find using bq.find_crlf_none by blast
    then show ?thesis by (rule handleMessage_no_line)
  next
    case False
    with eq obtain q where q: "content b = ?h @ q" "q @ suffix = ?body"
      by (rule longer_prefix)
    then have b: "content b = dec ?n @ crlf_bytes @ q" by simp
    note front = bq.line_front [OF inv b dec_no_cr]
    have "length (q @ suffix) = ?n" unfolding q(2) by (simp add: crlf_bytes_def)
    then have short: "length q < ?n" using p(2) by (cases suffix) auto
    have "?n < 2 ^ 31" using len by (simp add: kMaxMessageLen_def)
    then have "check_header (drop (length (dec ?n) + 2) (content b)) (take (length (dec ?n) + 2) (content b)) = BodyLength ?n"
      using check_header_dec [of ?n] front(3) by simp
    then show ?thesis
      using front(1,4) len short dec_length_pos [of ?n] by (subst handleMessage.simps) (simp add: Let_def)
  qed
qed

text \<open>Reading a connection: each piece that arrives is appended and the message callback runs.\<close>

fun feed :: "server \<Rightarrow> string list \<Rightarrow> buffer \<Rightarrow> call list \<times> string list \<times> buffer \<times> exit" where
  "feed srv [] b = ([], [], b, Returned)"
| "feed srv (piece # pieces) b =
     (let (calls, sent, b', x) = onMessage srv (append_bytes piece b) in
      if x = Returned then
        (let (calls', sent', b'', x') = feed srv pieces b' in (calls @ calls', sent @ sent', b'', x'))
      else (calls, sent, b', x))"

definition caught :: "exit \<Rightarrow> exit" where
  "caught x = (case x of Raised (CStr _) \<Rightarrow> Returned | _ \<Rightarrow> x)"

lemma onMessage_caught:
  "handleMessage srv b = (calls, sent, b', x) \<Longrightarrow> onMessage srv b = (calls, sent, b', caught x)"
  by (simp add: onMessage_def caught_def)

text \<open>However a frame is cut into pieces, it is handled once, when its last byte is there.\<close>

lemma feed_frame:
  assumes "buffer_inv b" "content b @ concat pieces = frame text" "pieces \<noteq> []" "[] \<notin> set pieces"
    and "length text + 2 < kMaxMessageLen"
    and "handleRequest srv (text @ crlf_bytes) = (calls, responses, x)" "send_responses responses = (sent, Returned)"
  shows "\<exists>b'. feed srv pieces b = (calls, sent, b', caught x) \<and> buffer_inv b' \<and> content b' = []"
  using assms(1-4)
proof (induction pieces arbitrary: b)
  case (Cons p pieces)
  let ?b = "append_bytes p b"
  have b: "buffer_inv ?b" "content ?b = content b @ p"
    using Cons.prems(1) by (simp_all add: append_ok)
  show ?case
  proof (cases "pieces = []")
    case True
    with Cons.prems(2) b(2) have "content ?b = frame text" by simp
    from handleMessage_frame [OF b(1) this assms(5-7)] obtain b' where
      b': "onMessage srv ?b = (calls, sent, b', caught x)" "buffer_inv b'" "content b' = []"
      by (auto dest: onMessage_caught)
    then show ?thesis using True by (cases "caught x = Returned") auto
  next
    case False
    with Cons.prems(4) have ne: "concat pieces \<noteq> []" by (cases pieces) auto
    have eq: "content ?b @ concat pieces = frame text" using Cons.prems(2) b(2) by simp
    from handleMessage_partial [OF b(1) eq ne assms(5)]
    have "onMessage srv ?b = ([], [], ?b, Returned)" by (simp add: onMessage_def)
    moreover obtain b' where "feed srv pieces ?b = (calls, sent, b', caught x)" "buffer_inv b'" "content b' = []"
      using Cons.IH [OF b(1) eq False] Cons.prems(4) by auto
    ultimately show ?thesis by simp
  qed
qed simp

text \<open>
  Two messages in one read: the loop takes the whole buffer as the first body, so the parse of
  the body ends on the second frame and the first request is lost with it. The exception is
  not one that \<open>onMessage\<close> catches.
\<close>

lemma doc_parse_trailing:
  assumes "text_of v t" "distinct_keys v" "ws w" "parseWhitespace rest = c # cs" "stop (w @ rest)"
  shows "\<exists>v'. doc_parse (t @ w @ rest) = Some (PARSE_ROOT_NOT_SINGULAR, v')"
proof -
  obtain d where d: "run_events doc_handler (events v) doc_init = HGo d"
    using doc_build [OF assms(2)] by blast
  from text_reads(1) [OF assms(1), of doc_handler] assms(5) obtain n where
    n: "parseValue [] n doc_handler (t @ w @ rest) h = after_answer (w @ rest) (run_events doc_handler (events v) h)" for h
    unfolding reads_def by blast
  have "parseWhitespace (t @ w @ rest) = t @ w @ rest"
    using text_start(1) [OF assms(1)] by (intro token_start_ws token_start_append)
  then have "reader_run [] n doc_handler (t @ w @ rest) doc_init = PThrow PARSE_ROOT_NOT_SINGULAR d"
    using d assms(4) by (simp add: reader_run_def n parseWhitespace_ws [OF assms(3)])
  then have "reader_run [] (fuel_of (t @ w @ rest)) doc_handler (t @ w @ rest) doc_init = PThrow PARSE_ROOT_NOT_SINGULAR d"
    by (rule reader_run_any_fuel) simp
  then show ?thesis by (simp add: doc_parse_in_def reader_parse_def)
qed

lemma pipelined_lost:
  assumes "readable v" "distinct_keys v" "write_value v = Some text" "length text + 2 < kMaxMessageLen"
    and "buffer_inv b" "content b = frame text @ frame text'"
  shows "\<exists>b'. onMessage srv b = ([], [], b', Raised (Exn ''parse failed'')) \<and> content b' = []"
proof -
  let ?n = "length text + 2" and ?rest = "text @ crlf_bytes @ frame text'"
  have spelled: "text_of (norm v) text"
    using assms(1,3) text_render [OF assms(1)] by (simp add: writer_render readable_writable)
  obtain c cs where dn: "dec (length text' + 2) = c # cs" by (cases "dec (length text' + 2)") auto
  then have "is_digit c" using dec_digits [of c "length text' + 2"] by simp
  then have "\<not> is_ws c" by (auto simp: is_ws_def is_digit_def byte_of_def)
  with dn have "parseWhitespace (frame text') = frame text'" "\<exists>u. frame text' = c # u"
    by (simp_all add: frame_def)
  then obtain v' where "doc_parse ?rest = Some (PARSE_ROOT_NOT_SINGULAR, v')"
    using doc_parse_trailing [OF spelled, of crlf_bytes "frame text'"] assms(2)
    by (auto simp: distinct_keys_norm crlf_bytes_def is_ws_def stop_def)
  then have run: "handleRequest srv ?rest = ([], [], Raised (Exn ''parse failed''))"
    by (simp add: handleRequest_def failed_def)
  have b: "content b = dec ?n @ crlf_bytes @ ?rest"
    using assms(6) by (simp add: frame_def)
  have "handleMessage srv b =
      ([], [], after_message (length (dec ?n) + 2) b, Raised (Exn ''parse failed''))"
    using handleMessage_body [OF assms(5) b _ assms(4) _ run, of "[]" Returned] by (simp add: crlf_bytes_def)
  then show ?thesis
    using bq.drain_rest(3) [OF assms(5) b dec_no_cr] by (auto simp: onMessage_def after_message_def)
qed

text \<open>A header that is no message length stays at the front: whatever comes after it is never looked at.\<close>

lemma find_sub_append: "find_sub pat xs = Some i \<Longrightarrow> find_sub pat (xs @ ys) = Some i"
proof (induction xs arbitrary: i)
  case (Cons x xs)
  show ?case
  proof (cases "take (length pat) (x # xs) = pat")
    case True
    then have "length pat \<le> length (x # xs)" by (metis length_take min.bounded_iff order_refl)
    with True have "take (length pat) ((x # xs) @ ys) = pat"
      by (simp only: take_append diff_is_0_eq' take0 append_Nil2)
    with True Cons.prems show ?thesis by simp
  next
    case False
    with Cons.prems obtain j where j: "find_sub pat xs = Some j" "i = Suc j" by auto
    from find_sub_Some [OF j(1)] have "length pat \<le> length (x # xs)" by simp
    then have "take (length pat) ((x # xs) @ ys) = take (length pat) (x # xs)"
      by (simp only: take_append diff_is_0_eq' take0 append_Nil2)
    with False have "take (length pat) (x # xs @ ys) \<noteq> pat" by simp
    with Cons.IH [OF j(1)] j(2) show ?thesis by simp
  qed
qed (cases ys; simp split: if_splits)

lemma bad_header_stuck:
  assumes "buffer_inv b" "line_length b = Some n" "n \<noteq> 0" "check_header (drop (n + 2) (content b)) (take (n + 2) (content b)) = BadHeader"
  shows "onMessage srv b = ([], [], b, Returned)"
    and "onMessage srv (append_bytes s b) = ([], [], append_bytes s b, Returned)"
proof -
  have stuck: "onMessage srv c = ([], [], c, Returned)"
    if "line_length c = Some n" "check_header (drop (n + 2) (content c)) (take (n + 2) (content c)) = BadHeader" for c
    using that assms(3) by (simp add: onMessage_def handleMessage.simps)
  then show "onMessage srv b = ([], [], b, Returned)" using assms(2,4) .
  have line: "line_length (append_bytes s b) = Some n"
    using assms(1,2) by (simp add: line_length_find append_ok find_sub_append)
  have "n + 2 \<le> length (content b)"
    using find_sub_Some [of crlf_bytes "content b" n] assms(2) by (simp add: line_length_find crlf_bytes_def)
  then have front: "take (n + 2) (content (append_bytes s b)) = take (n + 2) (content b)"
    using assms(1) by (simp add: append_ok)
  have "take (n + 2) (content b) = take n (content b) @ crlf_bytes"
    using find_sub_Some [of crlf_bytes "content b" n] assms(2)
    using take_add [of n 2 "content b"] by (simp add: line_length_find crlf_bytes_def numeral_2_eq_2)
  then have any: "check_header mem (take (n + 2) (content b)) = check_header mem' (take (n + 2) (content b))" for mem mem'
    by (simp only: check_header_def header_behind [of mem] header_behind [of mem'])
  have "check_header (drop (n + 2) (content (append_bytes s b))) (take (n + 2) (content (append_bytes s b))) = BadHeader"
    unfolding front by (rule trans [OF any assms(4)])
  with line show "onMessage srv (append_bytes s b) = ([], [], append_bytes s b, Returned)"
    by (rule stuck)
qed

end
