(* ===== verification/RpcClient.thy ===== *)
theory RpcClient
  imports RpcFraming
begin

text \<open>
  The client, \<open>zrpc/client/RpcClient\<close>: the numbering of calls, the table of the callbacks that
  wait for a response, the message loop and the delivery of responses. A response callback is a
  value of an arbitrary type; what the client does with it is to call it, which a run lists as
  deliveries (callback, value, isError, isTimeout).
\<close>

section \<open>Calls\<close>

record 'cb client =
  next_id :: i64
  callbacks :: "i64 \<rightharpoonup> 'cb"

definition client_init :: "'cb client" where
  "client_init = \<lparr>next_id = 0, callbacks = Map.empty\<rparr>"

text \<open>\<open>sendRequest\<close>: the bytes handed to the connection.\<close>

definition sendRequest :: "jvalue \<Rightarrow> (rpc_error, string) outcome" where
  "sendRequest request = (case message_of request of None \<Rightarrow> Abort | Some m \<Rightarrow> Done m)"

definition sendCall :: "jvalue \<Rightarrow> 'cb \<Rightarrow> 'cb client \<Rightarrow> (rpc_error, 'cb client \<times> string) outcome" where
  "sendCall rpc cb c =
     obind (add_member ''id'' (JInt64 (next_id c)) rpc) (\<lambda>rpc.
       let c' = c\<lparr>callbacks := (callbacks c)(next_id c \<mapsto> cb), next_id := next_id c + 1\<rparr>
       in obind (sendRequest rpc) (\<lambda>m. Done (c', m)))"

definition sendNotify :: "jvalue \<Rightarrow> (rpc_error, string) outcome" where
  "sendNotify notify = sendRequest notify"

section \<open>Responses\<close>

definition find_value :: "jvalue \<Rightarrow> string \<Rightarrow> value_type \<Rightarrow> (rpc_error, jvalue) outcome" where
  "find_value v key type =
     obind (findMember v key) (\<lambda>it.
       case it of
         None \<Rightarrow> Throw (Exn ''missing at least one field'')
       | Some x \<Rightarrow>
           if getType x \<noteq> type then Throw (Exn ''bad type of at least one field'') else Done x)"

definition validateResponse :: "jvalue \<Rightarrow> (rpc_error, unit) outcome" where
  "validateResponse response =
     (if getSize response \<noteq> 3 then Throw (Exn ''response should have 3 field'')
      else
        obind (find_value response ''id'' TYPE_INT32) (\<lambda>i.
        obind (getInt32 i) (\<lambda>_.
        obind (find_value response ''jsonrpc'' TYPE_STRING) (\<lambda>v.
        obind (getStringView v) (\<lambda>version.
          if version \<noteq> ''2.0'' then Throw (Exn ''unkonwn json rpc version'')
          else
        obind (findMember response ''result'') (\<lambda>it.
          if it \<noteq> None then Done ()
          else obind (find_value response ''error'' TYPE_OBJECT) (\<lambda>_. Done ())))))))"

text \<open>A delivery: the callback called, the value, \<open>isError\<close>, \<open>isTimeout\<close>.\<close>

type_synonym 'cb delivery = "'cb \<times> jvalue \<times> bool \<times> bool"

text \<open>The value handed to the callback: the result, or the error with its flag.\<close>

definition response_value :: "jvalue \<Rightarrow> (rpc_error, jvalue \<times> bool) outcome" where
  "response_value response =
     obind (findMember response ''result'') (\<lambda>result.
       case result of
         Some v \<Rightarrow> Done (v, False)
       | None \<Rightarrow>
           obind (findMember response ''error'') (\<lambda>error.
             case error of Some v \<Rightarrow> Done (v, True) | None \<Rightarrow> Abort))"

definition handleSingleResponse ::
    "jvalue \<Rightarrow> 'cb client \<Rightarrow> (rpc_error, 'cb delivery list \<times> 'cb client) outcome" where
  "handleSingleResponse response c =
     obind (validateResponse response) (\<lambda>_.
     obind (index_key response ''id'') (\<lambda>i.
     obind (getInt32 i) (\<lambda>n.
       let k = scast n in
       case callbacks c k of
         None \<Rightarrow> Done ([], c)
       | Some cb \<Rightarrow>
           obind (response_value response) (\<lambda>(v, isError).
             Done ([(cb, v, isError, False)], c\<lparr>callbacks := (callbacks c)(k := None)\<rparr>)))))"

fun handle_responses :: "jvalue list \<Rightarrow> 'cb client \<Rightarrow> 'cb delivery list \<times> 'cb client \<times> exit" where
  "handle_responses [] c = ([], c, Returned)"
| "handle_responses (r # rs) c =
     (case handleSingleResponse r c of
        Done (ds, c') \<Rightarrow>
          (let (ds', c'', x) = handle_responses rs c' in (ds @ ds', c'', x))
      | Throw e \<Rightarrow> ([], c, Raised e)
      | Abort \<Rightarrow> ([], c, Aborted))"

definition handleResponse :: "string \<Rightarrow> 'cb client \<Rightarrow> 'cb delivery list \<times> 'cb client \<times> exit" where
  "handleResponse json c =
     (case doc_parse json of
        None \<Rightarrow> ([], c, Aborted)
      | Some (err, response) \<Rightarrow>
          if err \<noteq> PARSE_OK then ([], c, Raised (Exn ''response parse error''))
          else case response of
            JObject ms \<Rightarrow> handle_responses [response] c
          | JArray rs \<Rightarrow>
              if length rs = 0 then ([], c, Raised (Exn ''batcj response is empty''))
              else handle_responses rs c
          | _ \<Rightarrow> ([], c, Raised (Exn ''response should be json object or array'')))"

section \<open>The message loop\<close>

definition kMaxMessageLen_client :: nat where "kMaxMessageLen_client = 65536"

lemma line_readable: "line_length b = Some n \<Longrightarrow> n + 2 \<le> readableBytes b"
  using find_sub_Some [of crlf_bytes "content b" n]
  by (simp add: line_length_find crlf_bytes_def) (simp add: buffer_defs)

function client_handleMessage ::
    "'cb client \<Rightarrow> buffer \<Rightarrow> 'cb delivery list \<times> 'cb client \<times> buffer \<times> exit" where
  "client_handleMessage c b =
     (case line_length b of
        None \<Rightarrow> ([], c, b, Returned)
      | Some n \<Rightarrow>
          let headerLen = n + 2 in
          case check_header (drop headerLen (content b)) (take headerLen (content b)) of
            BadHeader \<Rightarrow> ([], c, retrieve headerLen b, Raised (Exn ''invalid message length''))
          | HeaderAbort \<Rightarrow> ([], c, b, Aborted)
          | BodyLength bodyLen \<Rightarrow>
              if kMaxMessageLen_client \<le> bodyLen then ([], c, b, Raised (Exn ''message is too long''))
              else if readableBytes b < headerLen + bodyLen then ([], c, b, Returned)
              else
                let b1 = retrieve headerLen b;
                    json = fst (retrieveAsString b1);
                    b2 = snd (retrieveAsString b1);
                    (ds, c', x) = handleResponse json c
                in if x = Returned then
                     (let (ds', c'', b', x') = client_handleMessage c' b2 in (ds @ ds', c'', b', x'))
                   else (ds, c', b2, x))"
  by pat_completeness auto
termination
  by (relation "measure (\<lambda>(c, b). readableBytes b)")
    (auto simp: retrieveAsString_def retrieveAll_def readableBytes_def [of "b\<lparr>readerIndex := _, writerIndex := _\<rparr>" for b]
      dest: line_readable)

declare client_handleMessage.simps [simp del]

text \<open>\<open>onMessage\<close> catches \<open>Exception\<close>.\<close>

definition client_onMessage ::
    "'cb client \<Rightarrow> buffer \<Rightarrow> 'cb delivery list \<times> 'cb client \<times> buffer \<times> exit" where
  "client_onMessage c b =
     (let (ds, c', b', x) = client_handleMessage c b
      in (ds, c', b', case x of Raised (Exn _) \<Rightarrow> Returned | _ \<Rightarrow> x))"

section \<open>Numbering\<close>

text \<open>Waiting calls have numbers already given out: a new call never takes over a waiting one.\<close>

definition client_inv :: "'cb client \<Rightarrow> bool" where
  "client_inv c \<longleftrightarrow> 0 \<le> sint (next_id c) \<and>
     (\<forall>k cb. callbacks c k = Some cb \<longrightarrow> 0 \<le> sint k \<and> sint k < sint (next_id c))"

lemma client_init_inv: "client_inv client_init"
  by (simp add: client_inv_def client_init_def)

lemma next_id_step:
  assumes "0 \<le> sint w" "sint (w :: i64) < 2 ^ 63 - 1"
  shows "sint (w + 1) = sint w + 1"
  using assms by (simp add: sint_word_add signed_take_bit_int_eq_self)

lemma sendCall_inv:
  assumes "client_inv c" "sint (next_id c) < 2 ^ 63 - 1" "sendCall rpc cb c = Done (c', m)"
  shows "client_inv c'" "callbacks c (next_id c) = None" "callbacks c' = (callbacks c)(next_id c \<mapsto> cb)"
    "sint (next_id c') = sint (next_id c) + 1"
proof -
  from assms(3) have c': "c' = c\<lparr>callbacks := (callbacks c)(next_id c \<mapsto> cb), next_id := next_id c + 1\<rparr>"
    by (auto simp: sendCall_def Let_def)
  have step: "sint (next_id c + 1) = sint (next_id c) + 1"
    using assms(1,2) by (intro next_id_step) (simp_all add: client_inv_def)
  show "client_inv c'" "callbacks c' = (callbacks c)(next_id c \<mapsto> cb)" "sint (next_id c') = sint (next_id c) + 1"
    using assms(1) step by (auto simp: c' client_inv_def dest: spec)
  show "callbacks c (next_id c) = None"
    using assms(1) by (cases "callbacks c (next_id c)") (auto simp: client_inv_def)
qed

lemma handleSingleResponse_inv:
  "client_inv c \<Longrightarrow> handleSingleResponse r c = Done (ds, c') \<Longrightarrow> client_inv c' \<and> next_id c' = next_id c"
  by (auto simp: handleSingleResponse_def client_inv_def Let_def split: option.splits if_splits)

lemma handle_responses_inv:
  "client_inv c \<Longrightarrow> handle_responses rs c = (ds, c', x) \<Longrightarrow> client_inv c' \<and> next_id c' = next_id c"
proof (induction rs arbitrary: c ds c' x)
  case (Cons r rs)
  show ?case
  proof (cases "handleSingleResponse r c")
    case (Done p)
    obtain ds1 c1 where p: "p = (ds1, c1)" by (cases p)
    with Done Cons.prems(1) have c1: "client_inv c1" "next_id c1 = next_id c"
      by (auto dest: handleSingleResponse_inv)
    obtain ds2 c2 x2 where "handle_responses rs c1 = (ds2, c2, x2)" by (metis prod_cases3)
    with Cons.IH [OF c1(1) this] Cons.prems(2) Done p c1(2) show ?thesis by simp
  qed (use Cons.prems in auto)
qed simp

section \<open>Delivery\<close>

definition valid_response :: "members \<Rightarrow> bool" where
  "valid_response ms \<longleftrightarrow> length ms = 3 \<and> (\<exists>n. map_of ms ''id'' = Some (JInt32 n)) \<and>
     map_of ms ''jsonrpc'' = Some (JString ''2.0'') \<and>
     (map_of ms ''result'' \<noteq> None \<or> (\<exists>es. map_of ms ''error'' = Some (JObject es)))"

lemma find_value_Done:
  "find_value (JObject ms) k t = Done v \<longleftrightarrow> map_of ms k = Some v \<and> getType v = t"
  by (auto simp: find_value_def split: option.splits)

lemma getType_cases:
  "getType v = TYPE_INT32 \<longleftrightarrow> (\<exists>n. v = JInt32 n)" "getType v = TYPE_STRING \<longleftrightarrow> (\<exists>s. v = JString s)"
  "getType v = TYPE_OBJECT \<longleftrightarrow> (\<exists>es. v = JObject es)"
  by (cases v; simp)+

lemma validateResponse_spec: "validateResponse (JObject ms) = Done () \<longleftrightarrow> valid_response ms"
proof -
  have "validateResponse (JObject ms) = Done u \<longleftrightarrow> valid_response ms" for u
    by (cases "map_of ms ''result''")
      (auto simp: validateResponse_def valid_response_def find_value_Done getType_cases)
  then show ?thesis by simp
qed

text \<open>The response value of a valid response: the result if there is one, else the error.\<close>

definition result_of :: "members \<Rightarrow> jvalue \<times> bool" where
  "result_of ms =
     (case map_of ms ''result'' of Some v \<Rightarrow> (v, False) | None \<Rightarrow> (the (map_of ms ''error''), True))"

lemma response_value_ok: "valid_response ms \<Longrightarrow> response_value (JObject ms) = Done (result_of ms)"
  by (auto simp: valid_response_def response_value_def result_of_def split: option.split)

lemma single_response_run:
  assumes "valid_response ms" "map_of ms ''id'' = Some (JInt32 n)"
  shows "handleSingleResponse (JObject ms) c =
    (case callbacks c (scast n) of
       None \<Rightarrow> Done ([], c)
     | Some cb \<Rightarrow> Done ([(cb, fst (result_of ms), snd (result_of ms), False)],
         c\<lparr>callbacks := (callbacks c)(scast n := None)\<rparr>))"
proof -
  have "validateResponse (JObject ms) = Done ()" using assms(1) by (simp add: validateResponse_spec)
  with assms response_value_ok [OF assms(1)] show ?thesis
    by (auto simp: handleSingleResponse_def Let_def split: option.split prod.split)
qed

text \<open>A response is delivered once: the same response again finds no callback.\<close>

lemma response_once:
  assumes "handleSingleResponse (JObject ms) c = Done (ds, c')"
  shows "handleSingleResponse (JObject ms) c' = Done ([], c')"
proof -
  from assms have "validateResponse (JObject ms) = Done ()"
    by (auto simp: handleSingleResponse_def)
  then have v: "valid_response ms" by (simp add: validateResponse_spec)
  then obtain n where n: "map_of ms ''id'' = Some (JInt32 n)" by (auto simp: valid_response_def)
  from assms show ?thesis
    unfolding single_response_run [OF v n] by (auto split: option.splits)
qed

text \<open>An id that does not fit 32 bits comes back as a 64-bit integer, which the client refuses.\<close>

lemma large_id_refused:
  assumes "length ms = 3" "map_of ms ''id'' = Some (JInt64 i)"
  shows "handleSingleResponse (JObject ms) c = Throw (Exn ''bad type of at least one field'')"
  using assms by (simp add: handleSingleResponse_def validateResponse_def find_value_def)

section \<open>The message loop on framed messages\<close>

lemma client_no_line: "line_length b = None \<Longrightarrow> client_handleMessage c b = ([], c, b, Returned)"
  by (simp add: client_handleMessage.simps)

lemma client_frame:
  assumes inv: "buffer_inv b" and b: "content b = frame text" and len: "length text + 2 < kMaxMessageLen_client"
    and run: "handleResponse (text @ crlf_bytes) c = (ds, c', x)"
  shows "\<exists>b'. client_handleMessage c b = (ds, c', b', x) \<and> buffer_inv b' \<and> content b' = []"
proof -
  let ?n = "length text + 2"
  have b': "content b = dec ?n @ crlf_bytes @ (text @ crlf_bytes)" using b by (simp add: frame_def)
  note front = bq.line_front [OF inv b' dec_no_cr] and rest = bq.drain_rest [OF inv b' dec_no_cr]
  have "?n < 2 ^ 31" using len by (simp add: kMaxMessageLen_client_def)
  then have hdr: "check_header (drop (length (dec ?n) + 2) (content b)) (take (length (dec ?n) + 2) (content b)) = BodyLength ?n"
    using check_header_dec [of ?n] front(3) by simp
  let ?b2 = "snd (retrieveAsString (retrieve (length (dec ?n) + 2) b))"
  have empty: "client_handleMessage c' ?b2 = ([], c', ?b2, Returned)"
    by (rule client_no_line [OF bq.no_line [OF rest(2,3)]])
  have "\<not> readableBytes b < length (dec ?n) + 2 + ?n"
    using front(4) by (simp add: crlf_bytes_def)
  then have "client_handleMessage c b = (ds, c', ?b2, x)"
    using front(1) hdr len rest(1) run empty by (subst client_handleMessage.simps) (simp add: Let_def)
  with rest(2,3) show ?thesis by blast
qed

lemma handleResponse_object:
  assumes "doc_parse json = Some (PARSE_OK, JObject ms)" "handleSingleResponse (JObject ms) c = Done (ds, c')"
  shows "handleResponse json c = (ds, c', Returned)"
  using assms by (simp add: handleResponse_def)

end
