(* ===== verification/RpcCall.thy ===== *)
theory RpcCall
  imports RpcServer RpcClient
begin

text \<open>
  Client and server together: a call sent by the client, handled by the server and answered to
  the client. Bytes are carried unchanged and in order; how they are cut into pieces does not
  matter (\<open>RpcServer.feed_frame\<close>), so each side gets them in one.
\<close>

section \<open>Ids\<close>

text \<open>Small ids survive: written from 64 bits, read as 32 bits, widened by the client again.\<close>

lemma scast_small:
  assumes "in_int32 (sint (i :: i64))"
  shows "scast (scast i :: i32) = i"
proof -
  have "sint (scast i :: i32) = sint i"
    using assms by (simp add: signed_scast_eq sint_sbintrunc' in_int32_def signed_take_bit_int_eq_self)
  then have "scast (scast i :: i32) = (word_of_int (sint i) :: i64)" by (simp only: scast_eq)
  then show ?thesis by simp
qed

lemma norm_id: "in_int32 (sint i) \<Longrightarrow> norm (JInt64 i) = JInt32 (scast i)"
  by simp

section \<open>One call\<close>

lemma message_render: "readable v \<Longrightarrow> message_of v = Some (frame (render v))"
  by (simp add: message_of_def writer_render readable_writable)

definition received :: "string \<Rightarrow> buffer" where
  "received m = append_bytes m buffer_init"

lemma received_ok: "buffer_inv (received m)" "content (received m) = m"
  by (simp_all add: received_def append_ok buffer_init_ok)

lemma distinct_keys_object:
  "distinct_keys (JObject ms) \<longleftrightarrow> distinct (map fst ms) \<and> (\<forall>m\<in>set ms. distinct_keys (snd m))"
  by (auto simp: case_prod_beta')

lemma server_answers:
  assumes v: "readable v" "distinct_keys v" "norm v = JObject ms" "length (render v) + 2 < kMaxMessageLen"
    and req: "valid_request ms" "targets srv ms name p" "accepts_params (params p) ms"
    and ans: "callback p (JObject ms) = [r]" "\<not> isNull r" "readable r"
  shows "\<exists>b. onMessage srv (received (frame (render v))) =
    ([CallReturn name (JObject ms)], [frame (render r)], b, Returned) \<and> buffer_inv b \<and> content b = []"
proof -
  have parse: "doc_parse (render v @ crlf_bytes) = Some (PARSE_OK, JObject ms)"
    using doc_parse_framed [OF v(1,2)] v(1,3) by (simp add: writer_render readable_writable)
  have "distinct_keys (JObject ms)" using v(2,3) distinct_keys_norm by metis
  then have d: "distinct (map fst ms)" by (simp only: distinct_keys_object)
  obtain i where "map_of ms ''id'' = Some i" using req(1) by (auto simp: valid_request_def)
  then have run: "handleRequest srv (render v @ crlf_bytes) =
      ([CallReturn name (JObject ms)], [r], Returned)"
    using single_request_run [OF d req(1,2)] req(3) ans(1) parse
    by (simp add: handleRequest_def isNotify_def)
  have "send_responses [r] = ([frame (render r)], Returned)"
    using ans(2,3) by (simp add: message_render)
  from handleMessage_frame [OF received_ok(1) received_ok(2) v(4) run this] show ?thesis
    by (auto simp: onMessage_def)
qed

lemma client_delivers:
  assumes r: "readable r" "distinct_keys r" "norm r = JObject ms" "length (render r) + 2 < kMaxMessageLen_client"
    and resp: "valid_response ms" "map_of ms ''id'' = Some (JInt32 n)" "callbacks c (scast n) = Some cb"
  shows "\<exists>b. client_onMessage c (received (frame (render r))) =
    ([(cb, fst (result_of ms), snd (result_of ms), False)],
     c\<lparr>callbacks := (callbacks c)(scast n := None)\<rparr>, b, Returned) \<and> buffer_inv b \<and> content b = []"
proof -
  have "doc_parse (render r @ crlf_bytes) = Some (PARSE_OK, JObject ms)"
    using doc_parse_framed [OF r(1,2)] r(1,3) by (simp add: writer_render readable_writable)
  then have "handleResponse (render r @ crlf_bytes) c =
      ([(cb, fst (result_of ms), snd (result_of ms), False)],
       c\<lparr>callbacks := (callbacks c)(scast n := None)\<rparr>, Returned)"
    using single_response_run [OF resp(1,2), of c] resp(3) by (intro handleResponse_object) simp_all
  from client_frame [OF received_ok(1) received_ok(2) r(4) this] show ?thesis
    by (auto simp: client_onMessage_def)
qed

text \<open>The request the server sees: the members of the call, then the id.\<close>

definition request_of :: "members \<Rightarrow> i64 \<Rightarrow> members" where
  "request_of ms i = map (\<lambda>(k, v). (k, norm v)) ms @ [(''id'', JInt32 (scast i))]"

definition response_of :: "i64 \<Rightarrow> jvalue \<Rightarrow> jvalue" where
  "response_of i result =
     JObject [(''jsonrpc'', JString ''2.0''), (''id'', JInt32 (scast i)), (''result'', result)]"

lemma readable_response: "readable result \<Longrightarrow> readable (response_of i result)"
  by (simp add: response_of_def plain_key_def byte_of_def)

lemma map_of_request:
  "''id'' \<notin> fst ` set ms \<Longrightarrow> map_of (request_of ms i) ''id'' = Some (JInt32 (scast i))"
proof -
  assume "''id'' \<notin> fst ` set ms"
  then have "map_of (map (\<lambda>(k, v). (k, norm v)) ms) ''id'' = None"
    by (force simp: map_of_eq_None_iff)
  then show ?thesis by (simp add: request_of_def map_add_def)
qed

text \<open>
  A call that names a registered procedure with parameters it takes is answered to the callback
  it was made with: the callback is called once, with the result the procedure gave (as read
  back), and is no longer waiting.
\<close>

lemma call_answered:
  assumes c: "client_inv c" "sint (next_id c) < 2 ^ 31"
    and ms: "readable (JObject ms)" "distinct_keys (JObject ms)" "''id'' \<notin> fst ` set ms"
    and len: "length (render (JObject (ms @ [(''id'', JInt64 (next_id c))]))) + 2 < kMaxMessageLen"
      "length (render (response_of (next_id c) result)) + 2 < kMaxMessageLen_client"
    and req: "valid_request (request_of ms (next_id c))" "targets srv (request_of ms (next_id c)) name p"
      "accepts_params (params p) (request_of ms (next_id c))"
    and ans: "user_done (JObject (request_of ms (next_id c))) result = Done r"
      "callback p (JObject (request_of ms (next_id c))) = [r]" "readable result" "distinct_keys result"
  shows "\<exists>c1 m m' sb c2 cbuf.
    sendCall (JObject ms) cb c = Done (c1, m) \<and>
    onMessage srv (received m) = ([CallReturn name (JObject (request_of ms (next_id c)))], [m'], sb, Returned) \<and>
    client_onMessage c1 (received m') = ([(cb, norm result, False, False)], c2, cbuf, Returned) \<and>
    callbacks c2 = (callbacks c)(next_id c := None) \<and> next_id c2 = next_id c + 1"
proof -
  let ?i = "next_id c"
  let ?v = "JObject (ms @ [(''id'', JInt64 ?i)])"
  define c1 where "c1 = c\<lparr>callbacks := (callbacks c)(?i \<mapsto> cb), next_id := ?i + 1\<rparr>"
  have small: "in_int32 (sint ?i)" using c by (simp add: client_inv_def in_int32_def)
  have v: "readable ?v" "distinct_keys ?v" "norm ?v = JObject (request_of ms ?i)"
    using ms small by (auto simp: request_of_def plain_key_def byte_of_def)
  have send: "sendCall (JObject ms) cb c = Done (c1, frame (render ?v))"
    using ms(3) message_render [OF v(1)] addMember_fresh(1) [OF ms(3)]
    by (simp del: addMember.simps add: sendCall_def add_member_def sendRequest_def c1_def Let_def)
  have r: "r = response_of ?i result"
    using ans(1) user_done_ok [OF map_of_request [OF ms(3), of ?i], of result] by (simp add: response_of_def)
  from server_answers [OF v len(1) req ans(2)] r ans(3) obtain sb where
    server: "onMessage srv (received (frame (render ?v))) =
      ([CallReturn name (JObject (request_of ms ?i))], [frame (render r)], sb, Returned)"
    using readable_response by (auto simp: isNull_def response_of_def)
  let ?rms = "[(''jsonrpc'', JString ''2.0''), (''id'', JInt32 (scast ?i)), (''result'', norm result)]"
  have resp: "readable r" "distinct_keys r" "norm r = JObject ?rms" "valid_response ?rms"
    using r ans(3,4) readable_response by (auto simp: response_of_def valid_response_def)
  have "callbacks c1 (scast (scast ?i :: i32)) = Some cb"
    by (simp add: c1_def scast_small [OF small])
  from client_delivers [OF resp(1-3) _ resp(4) _ this] len(2) r obtain cbuf where
    "client_onMessage c1 (received (frame (render r))) =
      ([(cb, norm result, False, False)], c1\<lparr>callbacks := (callbacks c1)(?i := None)\<rparr>, cbuf, Returned)"
    by (auto simp: result_of_def scast_small [OF small])
  with send server show ?thesis
    by (auto simp: c1_def)
qed

end
