(* ===== verification/StubTemplates.thy ===== *)
theory StubTemplates
  imports Prelude
begin

text \<open>
  \<open>replaceAll\<close> of \<open>zrpc/stub/StubGenerator.h\<close>, which the stub generators call on their templates
  with one bracketed name after the other. It searches from the front again after each
  replacement, so it need not end: it is a partial function, None when it runs forever. On a
  template, seen as characters and holes, it is the substitution one expects as long as what
  is filled in does not form the hole again.
\<close>

section \<open>replaceAll\<close>

partial_function (option) replaceAll :: "string \<Rightarrow> string \<Rightarrow> string \<Rightarrow> string option" where
  "replaceAll str old new =
     (case find_sub old str of
        None \<Rightarrow> Some str
      | Some i \<Rightarrow> replaceAll (take i str @ new @ drop (i + length old) str) old new)"

lemma replaceAll_step:
  "find_sub old str = None \<Longrightarrow> replaceAll str old new = Some str"
  "find_sub old str = Some i \<Longrightarrow>
     replaceAll str old new = replaceAll (take i str @ new @ drop (i + length old) str) old new"
  by (subst replaceAll.simps, simp)+

text \<open>A replacement that contains what it replaces is never done.\<close>

lemma find_sub_infix: "find_sub pat (xs @ pat @ ys) \<noteq> None"
proof
  assume "find_sub pat (xs @ pat @ ys) = None"
  from find_sub_None [OF this, of "length xs"] show False by simp
qed

lemma replaceAll_never:
  assumes ret: "replaceAll str old new = Some r" and "find_sub old new \<noteq> None"
  shows "find_sub old str = None"
proof -
  have "find_sub old new \<noteq> None \<longrightarrow> find_sub old str = None"
  proof (rule replaceAll.raw_induct [where P = "\<lambda>str old new r. find_sub old new \<noteq> None \<longrightarrow> find_sub old str = None",
        OF _ ret])
    fix f and str old new r :: string
    assume IH: "\<And>str old new r. f str old new = Some r \<Longrightarrow> find_sub old new \<noteq> None \<longrightarrow> find_sub old str = None"
      and step: "(case find_sub old str of
        None \<Rightarrow> Some str
      | Some i \<Rightarrow> f (take i str @ new @ drop (i + length old) str) old new) = Some r"
    show "find_sub old new \<noteq> None \<longrightarrow> find_sub old str = None"
    proof
      assume "find_sub old new \<noteq> None"
      then obtain j where j: "find_sub old new = Some j" by auto
      have new: "new = take j new @ old @ drop (j + length old) new"
        using find_sub_Some [OF j] by (metis append_take_drop_id drop_drop add.commute)
      have "find_sub old (take i str @ new @ drop (i + length old) str) \<noteq> None" for i
        using find_sub_infix [of old "take i str @ take j new"] by (subst new) simp
      moreover have "find_sub old (take i str @ new @ drop (i + length old) str) = None"
        if "find_sub old str = Some i" for i
        using IH [of _ old new r] step that j by simp
      ultimately show "find_sub old str = None" by (metis not_None_eq)
    qed
  qed
  with assms(2) show ?thesis by blast
qed

lemma replaceAll_diverges:
  "find_sub old new \<noteq> None \<Longrightarrow> find_sub old str \<noteq> None \<Longrightarrow> replaceAll str old new = None"
  using replaceAll_never [of str old new] by (cases "replaceAll str old new") auto

text \<open>The replacements of a template function, one statement after the other.\<close>

fun replaces :: "string \<Rightarrow> (string \<times> string) list \<Rightarrow> string option" where
  "replaces str [] = Some str"
| "replaces str ((old, new) # rs) = Option.bind (replaceAll str old new) (\<lambda>str. replaces str rs)"

section \<open>Templates\<close>

text \<open>
  A template is made of characters and of holes, bracketed names. The name of a hole starts
  with a letter, which no bracket outside the holes is followed by.
\<close>

datatype item = C char | H string

definition hole :: "string \<Rightarrow> string" where
  "hole n = CHR ''['' # n @ '']''"

fun flat :: "item list \<Rightarrow> string" where
  "flat [] = []"
| "flat (C c # xs) = c # flat xs"
| "flat (H n # xs) = hole n @ flat xs"

definition lit :: "string \<Rightarrow> item list" where
  "lit s = map C s"

text \<open>Lines, each with its line end but for the last.\<close>

fun unlines :: "string list \<Rightarrow> string" where
  "unlines [] = []"
| "unlines [l] = l"
| "unlines (l # ls) = l @ lf_char # unlines ls"

definition is_letter :: "char \<Rightarrow> bool" where
  "is_letter c \<longleftrightarrow> (let b = byte_of c in 65 \<le> b \<and> b \<le> 90 \<or> 97 \<le> b \<and> b \<le> 122)"

definition bracket_free :: "string \<Rightarrow> bool" where
  "bracket_free s \<longleftrightarrow> CHR ''['' \<notin> set s \<and> CHR '']'' \<notin> set s"

definition name_ok :: "string \<Rightarrow> bool" where
  "name_ok n \<longleftrightarrow> n \<noteq> [] \<and> is_letter (hd n) \<and> bracket_free n"

fun no_letter :: "item list \<Rightarrow> bool" where
  "no_letter (C d # xs) \<longleftrightarrow> \<not> is_letter d"
| "no_letter xs \<longleftrightarrow> False"

fun wf_items :: "item list \<Rightarrow> bool" where
  "wf_items [] \<longleftrightarrow> True"
| "wf_items (H n # xs) \<longleftrightarrow> name_ok n \<and> wf_items xs"
| "wf_items (C c # xs) \<longleftrightarrow> (c = CHR ''['' \<longrightarrow> no_letter xs) \<and> wf_items xs"

text \<open>The items of a text: a bracketed name on a line becomes a hole.\<close>

definition outside :: "char \<Rightarrow> bool" where
  "outside c \<longleftrightarrow> c \<noteq> CHR ''['' \<and> c \<noteq> CHR '']'' \<and> c \<noteq> lf_char"

function scan :: "string \<Rightarrow> item list" where
  "scan [] = []"
| "scan (c # s) =
     (if c = CHR ''['' then
        (let n = takeWhile outside s; r = dropWhile outside s in
         if n \<noteq> [] \<and> is_letter (hd n) \<and> r \<noteq> [] \<and> hd r = CHR '']'' then H n # scan (tl r) else C c # scan s)
      else C c # scan s)"
  by pat_completeness auto
termination
  by (relation "measure length")
    (auto simp: less_Suc_eq_le intro: le_trans [OF diff_le_self] length_dropWhile_le)

lemma flat_scan: "flat (scan s) = s"
proof (induction s rule: scan.induct)
  case (2 c s)
  define n r where "n = takeWhile outside s" and "r = dropWhile outside s"
  then have s: "s = n @ r" by simp
  have "scan (c # s) = (if c = CHR ''['' \<and> n \<noteq> [] \<and> is_letter (hd n) \<and> r \<noteq> [] \<and> hd r = CHR '']''
      then H n # scan (tl r) else C c # scan s)" by (simp add: n_def r_def Let_def)
  moreover have "x # tl r = r" if "r \<noteq> []" "hd r = x" for x using that by auto
  ultimately show ?case
    using 2(1) [OF _ n_def r_def] 2(2) [OF _ n_def r_def] 2(3) s by (auto simp: hole_def simp del: scan.simps)
qed simp

lemma scan_line: "scan (l @ lf_char # s) = scan l @ C lf_char # scan s"
proof (induction l rule: scan.induct)
  case (2 c l)
  have lf: "\<not> outside lf_char" "lf_char \<noteq> CHR ''[''" by (simp_all add: outside_def)
  show ?case
  proof (cases "list_all outside l")
    case True
    with 2 lf show ?thesis by (simp add: list_all_iff takeWhile_tail dropWhile_append1 Let_def)
  next
    case False
    then obtain x where "x \<in> set l" "\<not> outside x" by (auto simp: list_all_iff)
    with 2 show ?thesis
      by (simp add: takeWhile_append1 dropWhile_append1 Let_def) (metis dropWhile_eq_Nil_conv hd_append2 tl_append2)
  qed
qed simp

lemma flat_append [simp]: "flat (xs @ ys) = flat xs @ flat ys"
  by (induction xs rule: flat.induct) auto

lemma flat_lit [simp]: "flat (lit s) = s"
  by (induction s) (auto simp: lit_def)

lemma lit_simps [simp]: "lit [] = []" "lit (c # s) = C c # lit s" "lit (s @ t) = lit s @ lit t"
  by (simp_all add: lit_def)

lemma no_hole_lit [simp]: "H n \<notin> set (lit s)"
  by (induction s) auto

lemma no_letter_append: "no_letter xs \<Longrightarrow> no_letter (xs @ ys)"
  by (induction xs rule: no_letter.induct) auto

lemma wf_append [simp]: "wf_items xs \<Longrightarrow> wf_items ys \<Longrightarrow> wf_items (xs @ ys)"
  by (induction xs rule: wf_items.induct) (auto simp: no_letter_append)

lemma wf_lit [simp]: "CHR ''['' \<notin> set s \<Longrightarrow> wf_items (lit s)"
  by (induction s) auto

lemma bracket_freeD [simp]: "bracket_free s \<Longrightarrow> CHR ''['' \<notin> set s"
  by (simp add: bracket_free_def)

section \<open>Finding a hole\<close>

text \<open>The first occurrence of a hole's text is the first hole of that name.\<close>

lemma find_sub_here: "find_sub pat (pat @ s) = Some 0"
proof (cases "pat @ s")
  case (Cons c t)
  then have "take (length pat) (c # t) = pat" by (metis append_eq_conv_conj)
  with Cons show ?thesis by simp
qed simp

lemma find_sub_next: "take (length pat) (c # s) \<noteq> pat \<Longrightarrow> find_sub pat (c # s) = map_option Suc (find_sub pat s)"
  by simp

lemma find_sub_skip:
  "CHR ''['' \<notin> set u \<Longrightarrow> find_sub (hole n) (u @ s) = map_option ((+) (length u)) (find_sub (hole n) s)"
proof (induction u)
  case (Cons c u)
  then have "take (length (hole n)) (c # u @ s) \<noteq> hole n" by (auto simp: hole_def)
  from find_sub_next [OF this] Cons show ?case by (simp add: option.map_comp comp_def del: find_sub.simps)
qed (cases "find_sub (hole n) s"; simp)

lemma name_before: "m @ c # s = n @ c # t \<Longrightarrow> c \<notin> set m \<Longrightarrow> c \<notin> set n \<Longrightarrow> m = n"
proof (induction m arbitrary: n)
  case Nil then show ?case by (cases n) auto
next
  case (Cons d m) then show ?case by (cases n) auto
qed

lemma other_hole:
  assumes "name_ok m" "name_ok n" "m \<noteq> n"
  shows "find_sub (hole n) (hole m @ s) = map_option ((+) (length (hole m))) (find_sub (hole n) s)"
proof -
  have "take (length (hole n)) (hole m @ s) \<noteq> hole n"
  proof
    assume "take (length (hole n)) (hole m @ s) = hole n"
    then have "hole n @ drop (length (hole n)) (hole m @ s) = hole m @ s"
      using append_take_drop_id [of "length (hole n)" "hole m @ s"] by simp
    then have "m @ CHR '']'' # s = n @ CHR '']'' # drop (length (hole n)) (hole m @ s)"
      by (simp add: hole_def)
    from name_before [OF this] assms show False by (simp add: name_ok_def bracket_free_def)
  qed
  from find_sub_next [of "hole n" "CHR ''[''" "(m @ '']'') @ s"] this
  have "find_sub (hole n) (hole m @ s) = map_option Suc (find_sub (hole n) ((m @ '']'') @ s))"
    by (simp add: hole_def del: find_sub.simps)
  moreover have b: "CHR ''['' \<notin> set (m @ '']'')" using assms(1) by (simp add: name_ok_def)
  from find_sub_skip [OF b, of n s] have "find_sub (hole n) ((m @ '']'') @ s) =
      map_option ((+) (length (m @ '']''))) (find_sub (hole n) s)" .
  moreover have "length (hole m) = Suc (length (m @ '']''))" by (simp add: hole_def)
  ultimately show ?thesis by (cases "find_sub (hole n) s") (simp_all del: find_sub.simps)
qed

lemma char_before:
  assumes "wf_items (C c # xs)" "name_ok n"
  shows "find_sub (hole n) (c # flat xs) = map_option Suc (find_sub (hole n) (flat xs))"
proof (rule find_sub_next)
  obtain d n' where n: "n = d # n'" "is_letter d" using assms(2) by (cases n) (auto simp: name_ok_def)
  then show "take (length (hole n)) (c # flat xs) \<noteq> hole n"
    using assms(1) by (cases xs rule: no_letter.cases) (auto simp: hole_def)
qed

lemma find_hole_none: "wf_items xs \<Longrightarrow> name_ok n \<Longrightarrow> H n \<notin> set xs \<Longrightarrow> find_sub (hole n) (flat xs) = None"
proof (induction xs)
  case Nil
  then show ?case by (simp add: hole_def)
next
  case (Cons x xs)
  then show ?case
    by (cases x) (auto simp: char_before other_hole simp del: find_sub.simps)
qed

lemma find_hole_first:
  "wf_items (pre @ H n # post) \<Longrightarrow> name_ok n \<Longrightarrow> H n \<notin> set pre \<Longrightarrow>
     find_sub (hole n) (flat (pre @ H n # post)) = Some (length (flat pre))"
proof (induction pre)
  case Nil
  then show ?case by (simp add: find_sub_here del: find_sub.simps)
next
  case (Cons x pre)
  show ?case
  proof (cases x)
    case (C c)
    then show ?thesis using Cons char_before [of c "pre @ H n # post" n] by (simp del: find_sub.simps flat_append)
  next
    case (H m)
    then show ?thesis
      using Cons other_hole [of m n "flat (pre @ H n # post)"] by (auto simp del: find_sub.simps flat_append)
  qed
qed

section \<open>Filling a template\<close>

text \<open>All holes filled at once; what is filled in may itself have holes, of names not filled.\<close>

definition fill :: "(string \<times> item list) list \<Rightarrow> item list \<Rightarrow> item list" where
  "fill \<sigma> xs = concat (map (\<lambda>x. case x of C c \<Rightarrow> [C c] | H n \<Rightarrow> (case map_of \<sigma> n of Some ts \<Rightarrow> ts | None \<Rightarrow> [H n])) xs)"

lemma fill_simps [simp]:
  "fill \<sigma> [] = []" "fill \<sigma> (C c # xs) = C c # fill \<sigma> xs"
  "fill \<sigma> (H n # xs) = (case map_of \<sigma> n of Some ts \<Rightarrow> ts | None \<Rightarrow> [H n]) @ fill \<sigma> xs"
  "fill \<sigma> (xs @ ys) = fill \<sigma> xs @ fill \<sigma> ys"
  by (simp_all add: fill_def)

lemma fill_lit [simp]: "fill \<sigma> (lit s) = lit s"
  by (induction s) simp_all

lemma fill_none [simp]: "fill [] xs = xs"
proof (induction xs)
  case (Cons x xs) then show ?case by (cases x) auto
qed simp

lemma fill_id: "(\<And>n. n \<in> fst ` set \<sigma> \<Longrightarrow> H n \<notin> set xs) \<Longrightarrow> fill \<sigma> xs = xs"
proof (induction xs)
  case (Cons x xs)
  then show ?case by (cases x) (fastforce split: option.splits dest!: map_of_SomeD)+
qed simp

lemma no_letter_fill: "no_letter xs \<Longrightarrow> no_letter (fill \<sigma> xs)"
  by (cases xs rule: no_letter.cases) auto

lemma wf_fill: "wf_items xs \<Longrightarrow> (\<And>n ts. (n, ts) \<in> set \<sigma> \<Longrightarrow> wf_items ts) \<Longrightarrow> wf_items (fill \<sigma> xs)"
  by (induction xs rule: wf_items.induct)
    (auto simp: no_letter_fill split: option.splits dest!: map_of_SomeD intro!: wf_append)

lemma replaceAll_fill:
  assumes "wf_items xs" "wf_items ts" "name_ok n" "H n \<notin> set ts"
  shows "replaceAll (flat xs) (hole n) (flat ts) = Some (flat (fill [(n, ts)] xs))"
  using assms(1)
proof (induction "count_list xs (H n)" arbitrary: xs)
  case 0
  then have "H n \<notin> set xs" by (simp add: count_list_0_iff)
  moreover from this have "fill [(n, ts)] xs = xs" by (intro fill_id) auto
  ultimately show ?case using 0 assms find_hole_none by (simp add: replaceAll_step(1))
next
  case (Suc k)
  then have "H n \<in> set xs" by (metis count_list_0_iff nat.distinct(1))
  from split_list_first [OF this] obtain pre post where xs: "xs = pre @ H n # post" "H n \<notin> set pre" by blast
  have "replaceAll (flat xs) (hole n) (flat ts) = replaceAll (flat (pre @ ts @ post)) (hole n) (flat ts)"
    using find_hole_first [of pre n post] Suc.prems xs assms(3)
      replaceAll_step(2) [of "hole n" "flat xs" "length (flat pre)"] by simp
  also have "\<dots> = Some (flat (fill [(n, ts)] (pre @ ts @ post)))"
  proof (rule Suc.hyps)
    have "count_list ts (H n) = 0" "count_list pre (H n) = 0" using assms(4) xs(2) by (simp_all add: count_list_0_iff)
    then show "k = count_list (pre @ ts @ post) (H n)" using Suc.hyps(2) xs(1) by simp
    have "wf_items pre \<and> wf_items post"
      using Suc.prems unfolding xs(1)
    proof (induction pre rule: wf_items.induct)
      case (3 c pre) then show ?case by (cases pre rule: no_letter.cases) auto
    qed auto
    then show "wf_items (pre @ ts @ post)" using assms(2) by simp
  qed
  also have "fill [(n, ts)] (pre @ ts @ post) = fill [(n, ts)] xs"
    using fill_id [of "[(n, ts)]" ts] assms(4) xs by simp
  finally show ?case .
qed

text \<open>A sequence of replacements fills a template at once, if no text filled in has a name filled.\<close>

definition fills :: "(string \<times> item list) list \<Rightarrow> bool" where
  "fills \<sigma> \<longleftrightarrow> (\<forall>(n, ts)\<in>set \<sigma>. name_ok n \<and> wf_items ts \<and> (\<forall>m\<in>fst ` set \<sigma>. H m \<notin> set ts))"

lemma replaces_fill:
  assumes "wf_items xs" "fills \<sigma>"
  shows "replaces (flat xs) (map (\<lambda>(n, ts). (hole n, flat ts)) \<sigma>) = Some (flat (fill \<sigma> xs))"
  using assms
proof (induction \<sigma> arbitrary: xs)
  case (Cons p \<sigma>)
  obtain n ts where p: "p = (n, ts)" by fastforce
  have ts: "wf_items ts" "name_ok n" "H n \<notin> set ts" "fill \<sigma> ts = ts" "fills \<sigma>"
    using Cons.prems(2) by (auto simp: p fills_def intro!: fill_id)
  have "fill \<sigma> (fill [(n, ts)] xs) = fill ((n, ts) # \<sigma>) xs"
  proof (induction xs)
    case (Cons x xs) then show ?case using ts(4) by (cases x) auto
  qed simp
  moreover have "wf_items (fill [(n, ts)] xs)" using Cons.prems(1) ts(1) by (intro wf_fill) auto
  ultimately show ?case using Cons.IH [OF _ ts(5)] replaceAll_fill [OF Cons.prems(1) ts(1-3)] by (simp add: p)
qed simp

text \<open>On texts: the names are the holes scanned for, the values are plain.\<close>

lemma replaces_template:
  assumes "wf_items (scan text)" "\<forall>(n, v)\<in>set \<sigma>. name_ok n \<and> CHR ''['' \<notin> set v"
  shows "replaces text (map (\<lambda>(n, v). (hole n, v)) \<sigma>) =
    Some (flat (fill (map (\<lambda>(n, v). (n, lit v)) \<sigma>) (scan text)))"
proof -
  have "fills (map (\<lambda>(n, v). (n, lit v)) \<sigma>)" using assms(2) by (auto simp: fills_def)
  from replaces_fill [OF assms(1) this] show ?thesis
    by (simp add: flat_scan comp_def case_prod_unfold)
qed

text \<open>A text of lines is well formed if every line is.\<close>

lemma wf_line: "wf_items xs \<Longrightarrow> wf_items ys \<Longrightarrow> wf_items (xs @ C lf_char # ys)"
proof (induction xs rule: wf_items.induct)
  case (3 c xs)
  then show ?case by (cases xs rule: no_letter.cases) auto
qed auto

lemma wf_unlines: "list_all (\<lambda>l. wf_items (scan l)) ls \<Longrightarrow> wf_items (scan (unlines ls))"
  by (induction ls rule: unlines.induct) (simp_all add: scan_line wf_line del: scan.simps(2))

lemmas scan_eval = outside_def is_letter_def name_ok_def bracket_free_def byte_of_def Let_def

section \<open>The filled text\<close>

definition filled :: "string \<Rightarrow> (string \<times> string) list \<Rightarrow> string" where
  "filled text \<sigma> = flat (fill (map (\<lambda>(n, v). (n, lit v)) \<sigma>) (scan text))"

lemma replaces_filled:
  assumes "wf_items (scan text)" "\<forall>(n, v)\<in>set \<sigma>. name_ok n \<and> CHR ''['' \<notin> set v"
  shows "replaces text (map (\<lambda>(n, v). (hole n, v)) \<sigma>) = Some (filled text \<sigma>)"
  using replaces_template [OF assms] by (simp add: filled_def)

text \<open>A template whose brackets are all holes that get filled leaves no bracket.\<close>

fun covers :: "string list \<Rightarrow> item list \<Rightarrow> bool" where
  "covers ns [] \<longleftrightarrow> True"
| "covers ns (C c # xs) \<longleftrightarrow> c \<noteq> CHR ''['' \<and> covers ns xs"
| "covers ns (H n # xs) \<longleftrightarrow> n \<in> set ns \<and> covers ns xs"

lemma covers_append [simp]: "covers ns (xs @ ys) \<longleftrightarrow> covers ns xs \<and> covers ns ys"
  by (induction ns xs rule: covers.induct) auto

lemma covers_unlines: "list_all (\<lambda>l. covers ns (scan l)) ls \<Longrightarrow> covers ns (scan (unlines ls))"
  by (induction ls rule: unlines.induct) (simp_all add: scan_line del: scan.simps(2))

lemma map_of_lits: "map_of (map (\<lambda>(n, v). (n, lit v)) \<sigma>) n = map_option lit (map_of \<sigma> n)"
  by (induction \<sigma>) auto

lemma covers_flat:
  "covers (map fst \<sigma>) xs \<Longrightarrow> (\<And>n v. (n, v) \<in> set \<sigma> \<Longrightarrow> CHR ''['' \<notin> set v) \<Longrightarrow>
     CHR ''['' \<notin> set (flat (fill (map (\<lambda>(n, v). (n, lit v)) \<sigma>) xs))"
proof (induction "map fst \<sigma>" xs rule: covers.induct)
  case (3 n xs)
  then obtain v where "map_of \<sigma> n = Some v"
    by (metis covers.simps(3) list.set_map map_of_eq_None_iff not_None_eq)
  with 3 show ?case by (auto simp: map_of_lits dest: map_of_SomeD)
qed auto

lemma filled_plain:
  "covers (map fst \<sigma>) (scan text) \<Longrightarrow> \<forall>(n, v)\<in>set \<sigma>. CHR ''['' \<notin> set v \<Longrightarrow> CHR ''['' \<notin> set (filled text \<sigma>)"
  using covers_flat [of \<sigma> "scan text"] by (auto simp: filled_def)

section \<open>A single hole, and the holes that are left\<close>

lemma replaceAll_once:
  assumes "find_sub old (a @ old @ b) = Some (length a)" "find_sub old (a @ new @ b) = None"
  shows "replaceAll (a @ old @ b) old new = Some (a @ new @ b)"
  using replaceAll_step(2) [OF assms(1), of new] replaceAll_step(1) [OF assms(2), of new] by simp

lemma index_skip:
  assumes "CHR ''['' \<notin> set (c # cs)" "\<not> is_letter c" "is_letter (hd n)" "n \<noteq> []"
  shows "find_sub (hole n) (CHR ''['' # c # cs @ s) = map_option ((+) (Suc (Suc (length cs)))) (find_sub (hole n) s)"
proof -
  have "c \<noteq> hd n" using assms(2,3) by auto
  then have "take (length (hole n)) (CHR ''['' # c # cs @ s) \<noteq> hole n"
    using assms(4) by (cases n) (auto simp: hole_def)
  from find_sub_next [OF this] show ?thesis
    using find_sub_skip [OF assms(1), of n s] by (cases "find_sub (hole n) s") simp_all
qed

text \<open>The names of the holes.\<close>

fun holes :: "item list \<Rightarrow> string list" where
  "holes [] = []"
| "holes (C c # xs) = holes xs"
| "holes (H n # xs) = n # holes xs"

lemma holes_append [simp]: "holes (xs @ ys) = holes xs @ holes ys"
  by (induction xs rule: holes.induct) auto

lemma holes_lit [simp]: "holes (lit s) = []"
  by (induction s) auto

lemma in_holes: "n \<in> set (holes xs) \<longleftrightarrow> H n \<in> set xs"
  by (induction xs rule: holes.induct) auto

lemma holes_unlines: "holes (scan (unlines ls)) = concat (map (\<lambda>l. holes (scan l)) ls)"
  by (induction ls rule: unlines.induct) (simp_all add: scan_line del: scan.simps(2))

lemma holes_fill:
  "set (holes (fill \<sigma> xs)) = (\<Union>n\<in>set (holes xs). case map_of \<sigma> n of Some ts \<Rightarrow> set (holes ts) | None \<Rightarrow> {n})"
  by (induction xs rule: holes.induct) (auto split: option.splits)

end
