(* ===== verification/StubProto.thy ===== *)
theory StubProto
  imports JsonValue StubTemplates
begin

text \<open>
  \<open>StubGenerator\<close> of \<open>zrpc/stub\<close>: the interface description, a JSON value, is checked and sorted
  into the procedures that return and the notifications. A failed \<open>expect\<close> throws its message.
\<close>

section \<open>The service description\<close>

record rpc_return =
  rr_name :: string
  rr_params :: jvalue
  rr_returns :: jvalue

record rpc_notify =
  rn_name :: string
  rn_params :: jvalue

record service_info =
  svc_name :: string
  rpcReturn :: "rpc_return list"
  rpcNotify :: "rpc_notify list"

definition expect :: "bool \<Rightarrow> string \<Rightarrow> (string, 'a) outcome \<Rightarrow> (string, 'a) outcome" where
  "expect b errMsg k = (if b then k else Throw errMsg)"

text \<open>\<open>validateParams\<close>: the names inserted one after the other into a set. A key is a string.\<close>

fun check_params :: "string set \<Rightarrow> members \<Rightarrow> (string, unit) outcome" where
  "check_params seen [] = Done ()"
| "check_params seen ((key, v) # ps) =
     expect (key \<notin> seen) ''duplicate param name''
       (expect (getType (JString key) \<noteq> TYPE_NULL) ''bad param type'' (check_params (insert key seen) ps))"

definition validate_params :: "jvalue \<Rightarrow> (string, unit) outcome" where
  "validate_params params = obind (getObject params) (check_params {})"

definition validate_returns :: "jvalue \<Rightarrow> (string, unit) outcome" where
  "validate_returns returns =
     (case getType returns of
        TYPE_NULL \<Rightarrow> Throw ''bad returns type''
      | TYPE_ARRAY \<Rightarrow> Throw ''bad returns type''
      | TYPE_OBJECT \<Rightarrow> validate_params returns
      | _ \<Rightarrow> Done ())"

definition validate_opt :: "(jvalue \<Rightarrow> (string, unit) outcome) \<Rightarrow> jvalue option \<Rightarrow> (string, unit) outcome" where
  "validate_opt f m = (case m of None \<Rightarrow> Done () | Some v \<Rightarrow> f v)"

text \<open>One entry: with \<open>returns\<close> it is a procedure, without a notification.\<close>

definition add_rpc :: "string \<Rightarrow> jvalue option \<Rightarrow> jvalue option \<Rightarrow> service_info \<Rightarrow> service_info" where
  "add_rpc name params returns info =
     (let paramValue = (case params of Some p \<Rightarrow> p | None \<Rightarrow> value_of_type TYPE_OBJECT) in
      case returns of
        Some r \<Rightarrow> info\<lparr>rpcReturn := rpcReturn info @ [\<lparr>rr_name = name, rr_params = paramValue, rr_returns = r\<rparr>]\<rparr>
      | None \<Rightarrow> info\<lparr>rpcNotify := rpcNotify info @ [\<lparr>rn_name = name, rn_params = paramValue\<rparr>]\<rparr>)"

definition parseRpc :: "jvalue \<Rightarrow> service_info \<Rightarrow> (string, service_info) outcome" where
  "parseRpc rpc info =
     expect (isObject rpc) ''rpc definition must be object'' (
     obind (findMember rpc ''name'') (\<lambda>name.
     case name of
       None \<Rightarrow> Throw ''missing name in rpc definition''
     | Some nm \<Rightarrow>
         expect (isString nm) ''rpc name must be string'' (
         obind (findMember rpc ''params'') (\<lambda>params.
         obind (validate_opt validate_params params) (\<lambda>_.
         obind (findMember rpc ''returns'') (\<lambda>returns.
         obind (validate_opt validate_returns returns) (\<lambda>_.
         obind (getStringView nm) (\<lambda>s. Done (add_rpc s params returns info)))))))))"

fun parse_rpcs :: "jvalue list \<Rightarrow> service_info \<Rightarrow> (string, service_info) outcome" where
  "parse_rpcs [] info = Done info"
| "parse_rpcs (r # rs) info = obind (parseRpc r info) (parse_rpcs rs)"

definition parseProto :: "jvalue \<Rightarrow> (string, service_info) outcome" where
  "parseProto proto =
     expect (isObject proto) ''expect object'' (
     expect (getSize proto = 2) ''expect 'name' and 'rpc' fields in object'' (
     obind (findMember proto ''name'') (\<lambda>name.
     case name of
       None \<Rightarrow> Throw ''missing service name''
     | Some nm \<Rightarrow>
         expect (isString nm) ''service name must be string'' (
         obind (getStringView nm) (\<lambda>s.
         obind (findMember proto ''rpc'') (\<lambda>rpc.
         case rpc of
           None \<Rightarrow> Throw ''missing service rpc definition''
         | Some r \<Rightarrow>
             expect (isArray r) ''rpc field must be array'' (
             obind (getArray r) (\<lambda>rs.
               parse_rpcs rs \<lparr>svc_name = s, rpcReturn = [], rpcNotify = []\<rparr>))))))))"

section \<open>What is accepted\<close>

text \<open>The entries of a description, and the service it describes.\<close>

definition params_ok :: "jvalue \<Rightarrow> bool" where
  "params_ok v \<longleftrightarrow> (\<exists>ms. v = JObject ms \<and> distinct (map fst ms))"

definition returns_ok :: "jvalue \<Rightarrow> bool" where
  "returns_ok v \<longleftrightarrow> getType v \<notin> {TYPE_NULL, TYPE_ARRAY} \<and> (getType v = TYPE_OBJECT \<longrightarrow> params_ok v)"

fun rpc_ok :: "jvalue \<Rightarrow> bool" where
  "rpc_ok (JObject ms) \<longleftrightarrow>
     (\<exists>s. map_of ms ''name'' = Some (JString s)) \<and>
     (\<forall>v. map_of ms ''params'' = Some v \<longrightarrow> params_ok v) \<and>
     (\<forall>v. map_of ms ''returns'' = Some v \<longrightarrow> returns_ok v)"
| "rpc_ok _ \<longleftrightarrow> False"

fun rpc_of :: "jvalue \<Rightarrow> service_info \<Rightarrow> service_info" where
  "rpc_of (JObject ms) info =
     (case map_of ms ''name'' of
        Some (JString s) \<Rightarrow> add_rpc s (map_of ms ''params'') (map_of ms ''returns'') info
      | _ \<Rightarrow> info)"
| "rpc_of _ info = info"

lemma check_params_ok:
  "check_params seen ms =
     (if distinct (map fst ms) \<and> seen \<inter> fst ` set ms = {} then Done () else Throw ''duplicate param name'')"
  by (induction seen ms rule: check_params.induct) (auto simp: expect_def)

lemma validate_params_ok:
  "validate_params v =
     (case v of JObject ms \<Rightarrow> if params_ok v then Done () else Throw ''duplicate param name'' | _ \<Rightarrow> Abort)"
  by (cases v) (auto simp: validate_params_def check_params_ok params_ok_def)

lemma validate_params_done: "validate_params v = Done u \<longleftrightarrow> params_ok v"
  by (auto simp: validate_params_ok params_ok_def split: jvalue.splits)

lemma validate_returns_done: "validate_returns v = Done u \<longleftrightarrow> returns_ok v"
  by (cases v) (auto simp: validate_returns_def returns_ok_def validate_params_done)

lemma validate_opt_done: "validate_opt f m = Done u \<longleftrightarrow> (\<forall>v. m = Some v \<longrightarrow> f v = Done ())"
  by (cases m) (auto simp: validate_opt_def)

lemma isString_iff: "isString v \<longleftrightarrow> (\<exists>s. v = JString s)"
  by (cases v) (auto simp: isString_def)

lemma expect_Done_iff: "expect b m k = Done y \<longleftrightarrow> b \<and> k = Done y"
  by (simp add: expect_def)

lemma parseRpc_done: "parseRpc rpc info = Done info' \<longleftrightarrow> rpc_ok rpc \<and> info' = rpc_of rpc info"
proof (cases rpc)
  case (JObject ms)
  then show ?thesis
    by (auto simp: parseRpc_def expect_Done_iff obind_Done_iff isObject_def isString_iff validate_opt_done
        validate_params_done validate_returns_done split: option.splits)
qed (auto simp: parseRpc_def expect_def isObject_def)

lemma parse_rpcs_done:
  "parse_rpcs rs info = Done info' \<longleftrightarrow> list_all rpc_ok rs \<and> info' = fold rpc_of rs info"
  by (induction rs arbitrary: info) (auto simp: obind_Done_iff parseRpc_done)

lemma parseProto_done:
  "parseProto (JObject ms) = Done info \<longleftrightarrow>
     (\<exists>s rs. length ms = 2 \<and> map_of ms ''name'' = Some (JString s) \<and> map_of ms ''rpc'' = Some (JArray rs) \<and>
        list_all rpc_ok rs \<and> info = fold rpc_of rs \<lparr>svc_name = s, rpcReturn = [], rpcNotify = []\<rparr>)"
proof -
  have "isArray v \<longleftrightarrow> (\<exists>rs. v = JArray rs)" for v by (cases v) (auto simp: isArray_def)
  then show ?thesis
    by (auto simp: parseProto_def expect_Done_iff obind_Done_iff isObject_def isString_iff parse_rpcs_done
        split: option.splits)
qed

section \<open>Running a generator\<close>

text \<open>
  A generator returns a text, throws, fails an assert, or, when a \<open>replaceAll\<close> does not end,
  runs forever: None.
\<close>

type_synonym 'a gen = "(string, 'a) outcome option"

fun gbind :: "'a gen \<Rightarrow> ('a \<Rightarrow> 'b gen) \<Rightarrow> 'b gen" where
  "gbind None f = None"
| "gbind (Some (Done x)) f = f x"
| "gbind (Some (Throw e)) f = Some (Throw e)"
| "gbind (Some Abort) f = Some Abort"

definition ended :: "'a option \<Rightarrow> 'a gen" where
  "ended x = map_option Done x"

lemma ended_simps [simp]: "ended (Some x) = Some (Done x)" "ended None = None"
  by (simp_all add: ended_def)

text \<open>A loop that appends one text for each element.\<close>

fun each :: "('a \<Rightarrow> string gen) \<Rightarrow> 'a list \<Rightarrow> string gen" where
  "each f [] = Some (Done [])"
| "each f (x # xs) = gbind (f x) (\<lambda>one. gbind (each f xs) (\<lambda>result. Some (Done (one @ result))))"

lemma each_done: "(\<And>x. x \<in> set xs \<Longrightarrow> f x = Some (Done (g x))) \<Longrightarrow> each f xs = Some (Done (concat (map g xs)))"
  by (induction xs) auto

definition toupper_char :: "char \<Rightarrow> char" where
  "toupper_char c = (let b = byte_of c in if 97 \<le> b \<and> b \<le> 122 then char_of (b - 32) else c)"

text \<open>Names that can be filled into a template: nothing in them looks like a hole.\<close>

definition plain_name :: "string \<Rightarrow> bool" where
  "plain_name s \<longleftrightarrow> CHR ''['' \<notin> set s"

fun members_of :: "jvalue \<Rightarrow> members" where
  "members_of (JObject ms) = ms"
| "members_of _ = []"

fun plain_params :: "jvalue \<Rightarrow> bool" where
  "plain_params (JObject ms) \<longleftrightarrow> list_all (\<lambda>(key, v). plain_name key \<and> getType v \<noteq> TYPE_NULL) ms"
| "plain_params _ \<longleftrightarrow> False"

definition plain_info :: "service_info \<Rightarrow> bool" where
  "plain_info info \<longleftrightarrow> plain_name (svc_name info) \<and>
     list_all (\<lambda>r. plain_name (rr_name r) \<and> plain_params (rr_params r)) (rpcReturn info) \<and>
     list_all (\<lambda>r. plain_name (rn_name r) \<and> plain_params (rn_params r)) (rpcNotify info)"

definition upper :: "string \<Rightarrow> string" where
  "upper = map toupper_char"

lemma plain_upper: "plain_name s \<Longrightarrow> plain_name (upper s)"
proof -
  have "toupper_char c \<noteq> CHR ''[''" if "c \<noteq> CHR ''[''" for c
  proof (cases "97 \<le> byte_of c \<and> byte_of c \<le> 122")
    case True
    have "byte_of (char_of (byte_of c - 32)) = byte_of c - 32" by (rule byte_of_char_of) (use byte_of_lt [of c] in simp)
    moreover have "byte_of (CHR ''['') = 91" by (simp add: byte_of_def)
    ultimately show ?thesis using True by (auto simp: toupper_char_def Let_def)
  qed (use that in \<open>auto simp: toupper_char_def Let_def\<close>)
  then have "CHR ''['' \<noteq> toupper_char c" if "plain_name s" "c \<in> set s" for c
    using that unfolding plain_name_def by metis
  then show "plain_name s \<Longrightarrow> plain_name (upper s)" by (simp add: plain_name_def upper_def image_iff)
qed

section \<open>The holes a generator leaves\<close>

text \<open>A generator's run makes the text \<open>t\<close>, well formed and with holes of the given names left.\<close>

definition makes :: "string gen \<Rightarrow> string \<Rightarrow> string set \<Rightarrow> bool" where
  "makes g t N \<longleftrightarrow> (\<exists>xs. g = Some (Done t) \<and> t = flat xs \<and> wf_items xs \<and> set (holes xs) = N)"

lemma makesI: "g = Some (Done (flat xs)) \<Longrightarrow> wf_items xs \<Longrightarrow> set (holes xs) = N \<Longrightarrow> makes g (flat xs) N"
  by (auto simp: makes_def)

lemma makes_plain: "CHR ''['' \<notin> set s \<Longrightarrow> makes (Some (Done s)) s {}"
  using makesI [of "Some (Done s)" "lit s" "{}"] by simp

lemma makes_append:
  assumes "makes g s N" "makes g' s' N'"
  shows "makes (gbind g (\<lambda>s. gbind g' (\<lambda>t. Some (Done (s @ t))))) (s @ s') (N \<union> N')"
proof -
  obtain xs ys where "g = Some (Done (flat xs))" "s = flat xs" "wf_items xs" "set (holes xs) = N"
    "g' = Some (Done (flat ys))" "s' = flat ys" "wf_items ys" "set (holes ys) = N'"
    using assms by (auto simp: makes_def)
  then show ?thesis using makesI [of _ "xs @ ys"] by auto
qed

lemma makes_line:
  assumes "makes g s N" shows "makes (gbind g (\<lambda>s. Some (Done (s @ [lf_char])))) (s @ [lf_char]) N"
  using makes_append [OF assms makes_plain [of "[lf_char]"]] by simp

lemma makes_each:
  "(\<And>x. x \<in> set xs \<Longrightarrow> makes (f x) (t x) (N x)) \<Longrightarrow> makes (each f xs) (concat (map t xs)) (\<Union>x\<in>set xs. N x)"
proof (induction xs)
  case Nil
  show ?case using makes_plain [of "[]"] by simp
next
  case (Cons x xs)
  then show ?case using makes_append [of "f x" "t x" "N x" "each f xs"] by simp
qed

lemma flat_fill_lits:
  "flat (fill \<sigma> xs) = flat (fill (map (\<lambda>(n, ts). (n, lit (flat ts))) \<sigma>) xs)"
proof (induction xs)
  case (Cons x xs)
  have "map_of (map (\<lambda>(n, ts). (n, lit (flat ts))) \<sigma>) n = map_option (\<lambda>ts. lit (flat ts)) (map_of \<sigma> n)" for n
    by (induction \<sigma>) auto
  with Cons show ?case by (cases x) (auto split: option.split)
qed simp

lemma makes_replaces:
  assumes "wf_items (scan text)"
    and "\<forall>(n, ts)\<in>set \<sigma>. name_ok n \<and> wf_items ts \<and> set (holes ts) \<inter> fst ` set \<sigma> = {}"
  shows "makes (ended (replaces text (map (\<lambda>(n, ts). (hole n, flat ts)) \<sigma>)))
    (filled text (map (\<lambda>(n, ts). (n, flat ts)) \<sigma>))
    (\<Union>n\<in>set (holes (scan text)). case map_of \<sigma> n of Some ts \<Rightarrow> set (holes ts) | None \<Rightarrow> {n})"
proof -
  have "fills \<sigma>" using assms(2) unfolding fills_def in_holes [symmetric] by fast
  from replaces_fill [OF assms(1) this]
  have "ended (replaces text (map (\<lambda>(n, ts). (hole n, flat ts)) \<sigma>)) = Some (Done (flat (fill \<sigma> (scan text))))"
    by (simp add: flat_scan)
  moreover have "wf_items (fill \<sigma> (scan text))" by (rule wf_fill) (use assms in auto)
  moreover have "filled text (map (\<lambda>(n, ts). (n, flat ts)) \<sigma>) = flat (fill \<sigma> (scan text))"
    by (simp add: filled_def flat_fill_lits [of \<sigma>] comp_def case_prod_unfold)
  ultimately show ?thesis using makesI holes_fill by metis
qed

lemma makes_cases:
  "makes g s N \<Longrightarrow> (\<And>xs. s = flat xs \<Longrightarrow> wf_items xs \<Longrightarrow> set (holes xs) = N \<Longrightarrow> makes (f (flat xs)) t M) \<Longrightarrow>
     makes (gbind g f) t M"
  by (auto simp: makes_def)

text \<open>In terms of the text.\<close>

lemma makes_text:
  assumes "makes g t N"
  shows "g = Some (Done t)" "name_ok n \<Longrightarrow> find_sub (hole n) t \<noteq> None \<longleftrightarrow> n \<in> N"
proof -
  obtain xs where xs: "t = flat xs" "wf_items xs" "set (holes xs) = N"
    using assms by (auto simp: makes_def)
  show "find_sub (hole n) t \<noteq> None \<longleftrightarrow> n \<in> N" if "name_ok n"
  proof (cases "H n \<in> set xs")
    case True
    from split_list_first [OF this] obtain pre post where x: "xs = pre @ H n # post" "H n \<notin> set pre" by blast
    with find_hole_first [of pre n post] xs(2) that True xs(1,3) show ?thesis by (auto simp: in_holes)
  next
    case False
    with find_hole_none [OF xs(2) that False] xs(1,3) show ?thesis by (auto simp: in_holes)
  qed
qed (use assms in \<open>auto simp: makes_def\<close>)

end
