(* ===== verification/StubClient.thy ===== *)
theory StubClient
  imports StubProto
begin

text \<open>
  \<open>zrpc/stub/ClientStub.cpp\<close>: the templates of the client stub, with a function each that fills
  them in, and the generator.
\<close>

section \<open>The templates\<close>

definition client_stub_text :: string where
  "client_stub_text = unlines
       ['''',
        ''/*'',
        '' * This stub is generated by zrpc, DO NOT modify it!'',
        '' */'',
        '''',
        ''#ifndef ZRPC_[macroName]_H'',
        ''#define ZRPC_[macroName]_H'',
        '''',
        ''#include <jackson/Value.h>'',
        '''',
        ''#include <zrpc/util.h>'',
        ''#include <zrpc/client/RpcClient.h>'',
        '''',
        '''',
        ''class [stubClassName]'',
        ''{'',
        ''public:'',
        ''    [stubClassName](EventLoop* loop, const AddressOps& serverAddress):'',
        ''            client_(loop, serverAddress)'',
        ''    {'',
        ''        client_.setConnectionCallback([this](const TcpConnectionPtr& conn){'',
        ''            if (conn->connected()) {'',
        ''                conn_ = conn;'',
        ''                cb_(conn_);'',
        ''            }'',
        ''            else {'',
        ''                assert(conn_ != nullptr);'',
        ''                cb_(conn_);'',
        ''            }'',
        ''        });'',
        ''    }'',
        '''',
        ''    ~[stubClassName]() = default;'',
        '''',
        ''    void start() { client_.start(); }'',
        '''',
        ''    void setConnectionCallback(const ConnectionCallback& cb)'',
        ''    {'',
        ''        cb_ = cb;'',
        ''    }'',
        '''',
        ''    [procedureDefinitions]'',
        ''    [notifyDefinitions]'',
        '''',
        ''private:'',
        ''    TcpConnectionPtr conn_;'',
        ''    ConnectionCallback cb_;'',
        ''    RpcClient client_;'',
        ''};'',
        '''',
        ''#endif //ZRPC_[macroName]_H'',
        '''']"

definition procedure_define_text :: string where
  "procedure_define_text = unlines
       ['''',
        ''void [procedureName]([procedureArgs] const ResponseCallback& cb)'',
        ''{'',
        ''    json::Value params(json::TYPE_OBJECT);'',
        ''    [paramMembers]'',
        '''',
        ''    json::Value call(json::TYPE_OBJECT);'',
        ''    call.addMember(\"jsonrpc\", \"2.0\");'',
        ''    call.addMember(\"method\", \"[serviceName].[procedureName]\");'',
        ''    call.addMember(\"params\", params);'',
        '''',
        ''    assert(conn_ != nullptr);'',
        ''    client_.sendCall(conn_, call, cb);'',
        ''}'',
        '''']"

definition notify_define_text :: string where
  "notify_define_text = unlines
       ['''',
        ''void [notifyName]([notifyArgs])'',
        ''{'',
        ''    json::Value params(json::TYPE_OBJECT);'',
        ''    [paramMembers]'',
        '''',
        ''    json::Value notify(json::TYPE_OBJECT);'',
        ''    notify.addMember(\"jsonrpc\", \"2.0\");'',
        ''    notify.addMember(\"method\", \"Hello.Goodbye\");'',
        '''',
        ''    assert(conn_ != nullptr);'',
        ''    client_.sendNotify(conn_, notify);'',
        ''}'',
        '''']"

definition param_member_text :: string where
  "param_member_text = unlines
       ['''',
        ''params.addMember(\"[paramName]\", [paramName]);'',
        '''']"

definition arg_text :: string where
  "arg_text = ''[argType] [argName]''"

section \<open>Filling them in\<close>

definition clientStubTemplate :: "string \<Rightarrow> string \<Rightarrow> string \<Rightarrow> string \<Rightarrow> string option" where
  "clientStubTemplate macroName stubClassName procedureDefinitions notifyDefinitions =
     replaces client_stub_text
       [(''[macroName]'', macroName),
        (''[stubClassName]'', stubClassName),
        (''[procedureDefinitions]'', procedureDefinitions),
        (''[notifyDefinitions]'', notifyDefinitions)]"

definition procedureDefineTemplate :: "string \<Rightarrow> string \<Rightarrow> string \<Rightarrow> string \<Rightarrow> string option" where
  "procedureDefineTemplate serviceName procedureName procedureArgs paramMembers =
     replaces procedure_define_text
       [(''[serviceName]'', serviceName),
        (''[procedureName]'', procedureName),
        (''[procedureArgs]'', procedureArgs),
        (''[paramMembers]'', paramMembers)]"

definition notifyDefineTemplate :: "string \<Rightarrow> string \<Rightarrow> string \<Rightarrow> string \<Rightarrow> string option" where
  "notifyDefineTemplate serviceName notifyName notifyArgs paramMembers =
     replaces notify_define_text
       [(''[serviceName]'', serviceName),
        (''[notifyName]'', notifyName),
        (''[notifyArgs]'', notifyArgs),
        (''[paramMembers]'', paramMembers)]"

definition paramMemberTemplate :: "string \<Rightarrow> string option" where
  "paramMemberTemplate paramName = replaces param_member_text [(''[paramName]'', paramName)]"

fun arg_type :: "value_type \<Rightarrow> (string, string) outcome" where
  "arg_type TYPE_INT32 = Done ''int32_t''"
| "arg_type TYPE_INT64 = Done ''int64_t''"
| "arg_type TYPE_DOUBLE = Done ''double''"
| "arg_type TYPE_BOOL = Done ''bool''"
| "arg_type TYPE_STRING = Done ''std::string''"
| "arg_type TYPE_OBJECT = Done ''json::Value''"
| "arg_type TYPE_ARRAY = Done ''json::Value''"
| "arg_type TYPE_NULL = Abort"

definition argTemplate :: "string \<Rightarrow> value_type \<Rightarrow> string gen" where
  "argTemplate argName argType =
     gbind (Some (arg_type argType)) (\<lambda>typeStr.
       ended (replaces arg_text [(''[argType]'', typeStr), (''[argName]'', argName)]))"

section \<open>The generator\<close>

text \<open>\<open>getGenericArgs\<close>: the loop with its flag, and the comma after the last argument.\<close>

fun generic_args :: "bool \<Rightarrow> members \<Rightarrow> string \<Rightarrow> (string \<times> bool) gen" where
  "generic_args first [] result = Some (Done (result, first))"
| "generic_args first ((key, v) # ps) result =
     gbind (argTemplate key (getType v)) (\<lambda>one.
       generic_args False ps ((if first then result else result @ '', '') @ one))"

definition getGenericArgs :: "jvalue \<Rightarrow> bool \<Rightarrow> string gen" where
  "getGenericArgs params appending =
     gbind (Some (getObject params)) (\<lambda>ps.
     gbind (generic_args True ps []) (\<lambda>(result, first).
       Some (Done (if appending \<and> \<not> first then result @ '','' else result))))"

definition getGenericParamMembers :: "jvalue \<Rightarrow> string gen" where
  "getGenericParamMembers params =
     gbind (Some (getObject params)) (each (\<lambda>(key, v). ended (paramMemberTemplate key)))"

definition getProcedureDefinitions :: "service_info \<Rightarrow> string gen" where
  "getProcedureDefinitions info =
     each (\<lambda>r.
       gbind (getGenericArgs (rr_params r) True) (\<lambda>procedureArgs.
       gbind (getGenericParamMembers (rr_params r)) (\<lambda>paramMembers.
         ended (procedureDefineTemplate (svc_name info) (rr_name r) procedureArgs paramMembers))))
     (rpcReturn info)"

definition getNotifyDefinitions :: "service_info \<Rightarrow> string gen" where
  "getNotifyDefinitions info =
     each (\<lambda>r.
       gbind (getGenericArgs (rn_params r) False) (\<lambda>notifyArgs.
       gbind (getGenericParamMembers (rn_params r)) (\<lambda>paramMembers.
         ended (notifyDefineTemplate (svc_name info) (rn_name r) notifyArgs paramMembers))))
     (rpcNotify info)"

definition client_macro_name :: "service_info \<Rightarrow> string" where
  "client_macro_name info = upper (svc_name info) @ ''CLIENTSTUB''"

definition client_class_name :: "service_info \<Rightarrow> string" where
  "client_class_name info = svc_name info @ ''ClientStub''"

definition client_getStub :: "service_info \<Rightarrow> string gen" where
  "client_getStub info =
     gbind (getProcedureDefinitions info) (\<lambda>procedureDefinitions.
     gbind (getNotifyDefinitions info) (\<lambda>notifyDefinitions.
       ended (clientStubTemplate (client_macro_name info) (client_class_name info)
         procedureDefinitions notifyDefinitions)))"

section \<open>What is generated\<close>

text \<open>Brackets outside the holes are not taken for holes.\<close>

section \<open>What is generated\<close>

lemma client_templates_wf:
  "wf_items (scan client_stub_text)" "wf_items (scan procedure_define_text)" "wf_items (scan notify_define_text)"
  "wf_items (scan param_member_text)" "wf_items (scan arg_text)"
  unfolding client_stub_text_def procedure_define_text_def notify_define_text_def param_member_text_def
  by (rule wf_unlines, simp add: scan_eval)+ (simp add: arg_text_def scan_eval)

lemma client_templates_cover:
  "covers [''serviceName'', ''procedureName'', ''procedureArgs'', ''paramMembers''] (scan procedure_define_text)"
  "covers [''serviceName'', ''notifyName'', ''notifyArgs'', ''paramMembers''] (scan notify_define_text)"
  "covers [''paramName''] (scan param_member_text)"
  unfolding procedure_define_text_def notify_define_text_def param_member_text_def
  by (rule covers_unlines, simp add: scan_eval)+

text \<open>The arguments and the texts of the definitions, each hole filled at once.\<close>

fun join :: "string \<Rightarrow> string list \<Rightarrow> string" where
  "join sep [] = []"
| "join sep [s] = s"
| "join sep (s # ss) = s @ sep @ join sep ss"

definition type_name :: "jvalue \<Rightarrow> string" where
  "type_name v = (case arg_type (getType v) of Done t \<Rightarrow> t | _ \<Rightarrow> [])"

definition client_arg :: "string \<times> jvalue \<Rightarrow> string" where
  "client_arg p = type_name (snd p) @ '' '' @ fst p"

definition client_args :: "members \<Rightarrow> string" where
  "client_args ms = join '', '' (map client_arg ms)"

definition client_members :: "members \<Rightarrow> string" where
  "client_members ms = concat (map (\<lambda>p. filled param_member_text [(''paramName'', fst p)]) ms)"

definition client_procedure :: "string \<Rightarrow> rpc_return \<Rightarrow> string" where
  "client_procedure serviceName r =
     (let ms = members_of (rr_params r) in
      filled procedure_define_text
        [(''serviceName'', serviceName), (''procedureName'', rr_name r),
         (''procedureArgs'', client_args ms @ (if ms = [] then '''' else '','')),
         (''paramMembers'', client_members ms)])"

definition client_notify :: "string \<Rightarrow> rpc_notify \<Rightarrow> string" where
  "client_notify serviceName r =
     (let ms = members_of (rn_params r) in
      filled notify_define_text
        [(''serviceName'', serviceName), (''notifyName'', rn_name r),
         (''notifyArgs'', client_args ms), (''paramMembers'', client_members ms)])"

definition client_text :: "service_info \<Rightarrow> string" where
  "client_text info =
     filled client_stub_text
       [(''macroName'', upper (svc_name info) @ ''CLIENTSTUB''),
        (''stubClassName'', svc_name info @ ''ClientStub''),
        (''procedureDefinitions'', concat (map (client_procedure (svc_name info)) (rpcReturn info))),
        (''notifyDefinitions'', concat (map (client_notify (svc_name info)) (rpcNotify info)))]"

lemma arg_type_ok: "t \<noteq> TYPE_NULL \<Longrightarrow> \<exists>s. arg_type t = Done s \<and> CHR ''['' \<notin> set s"
  by (cases t) auto

lemma argTemplate_ok:
  assumes "plain_name k" "getType v \<noteq> TYPE_NULL"
  shows "argTemplate k (getType v) = Some (Done (client_arg (k, v)))" "plain_name (client_arg (k, v))"
proof -
  obtain t where t: "arg_type (getType v) = Done t" "CHR ''['' \<notin> set t" using arg_type_ok assms(2) by blast
  have "replaces arg_text (map (\<lambda>(n, v). (hole n, v)) [(''argType'', t), (''argName'', k)]) =
      Some (filled arg_text [(''argType'', t), (''argName'', k)])"
    using t assms(1) by (intro replaces_filled client_templates_wf) (simp add: scan_eval plain_name_def)
  moreover have "filled arg_text [(''argType'', t), (''argName'', k)] = t @ '' '' @ k"
    by (simp add: filled_def arg_text_def scan_eval)
  ultimately show "argTemplate k (getType v) = Some (Done (client_arg (k, v)))"
    using t by (simp add: argTemplate_def client_arg_def type_name_def hole_def)
  show "plain_name (client_arg (k, v))"
    using t assms(1) by (simp add: client_arg_def type_name_def plain_name_def)
qed

lemma paramMember_ok:
  assumes "plain_name k"
  shows "paramMemberTemplate k = Some (filled param_member_text [(''paramName'', k)])"
    "plain_name (filled param_member_text [(''paramName'', k)])"
proof -
  show "paramMemberTemplate k = Some (filled param_member_text [(''paramName'', k)])"
    using replaces_filled [OF client_templates_wf(4), of "[(''paramName'', k)]"] assms
    by (simp add: paramMemberTemplate_def hole_def scan_eval plain_name_def)
  show "plain_name (filled param_member_text [(''paramName'', k)])"
    unfolding plain_name_def
    by (rule filled_plain) (use assms client_templates_cover(3) in \<open>simp_all add: plain_name_def\<close>)
qed

lemma generic_args_ok:
  "list_all (\<lambda>(key, v). plain_name key \<and> getType v \<noteq> TYPE_NULL) ms \<Longrightarrow>
     generic_args first ms result =
       Some (Done (result @ (if first \<or> ms = [] then '''' else '', '') @ client_args ms, first \<and> ms = []))"
proof (induction first ms result rule: generic_args.induct)
  case (2 first key v ps result)
  then show ?case by (cases ps) (auto simp: argTemplate_ok(1) client_args_def)
qed (simp add: client_args_def)

lemma client_args_plain:
  "list_all (\<lambda>(key, v). plain_name key \<and> getType v \<noteq> TYPE_NULL) ms \<Longrightarrow> plain_name (client_args ms)"
  unfolding client_args_def
proof (induction ms)
  case (Cons p ms)
  then have "plain_name (client_arg p)" by (cases p) (simp add: argTemplate_ok(2))
  with Cons show ?case by (cases ms) (auto simp: plain_name_def)
qed (simp add: plain_name_def)

lemma client_members_ok:
  assumes "list_all (\<lambda>(key, v). plain_name key \<and> getType v \<noteq> TYPE_NULL) ms"
  shows "getGenericParamMembers (JObject ms) = Some (Done (client_members ms))" "plain_name (client_members ms)"
proof -
  have k: "plain_name (fst p)" if "p \<in> set ms" for p using assms that by (auto simp: list_all_iff)
  show "getGenericParamMembers (JObject ms) = Some (Done (client_members ms))"
    unfolding getGenericParamMembers_def client_members_def gbind.simps getObject.simps
    by (rule each_done) (use k paramMember_ok(1) in \<open>auto split: prod.split\<close>)
  show "plain_name (client_members ms)"
    using k paramMember_ok(2) by (auto simp: client_members_def plain_name_def)
qed

lemma client_procedure_ok:
  assumes "plain_name s" "plain_name (rr_name r)" "plain_params (rr_params r)"
  shows "gbind (getGenericArgs (rr_params r) True) (\<lambda>procedureArgs.
       gbind (getGenericParamMembers (rr_params r)) (\<lambda>paramMembers.
         ended (procedureDefineTemplate s (rr_name r) procedureArgs paramMembers))) =
      Some (Done (client_procedure s r))"
    "plain_name (client_procedure s r)"
proof -
  obtain ms where ms: "rr_params r = JObject ms" "list_all (\<lambda>(key, v). plain_name key \<and> getType v \<noteq> TYPE_NULL) ms"
    using assms(3) by (cases "rr_params r") auto
  let ?as = "client_args ms @ (if ms = [] then '''' else '','')"
  let ?\<sigma> = "[(''serviceName'', s), (''procedureName'', rr_name r), (''procedureArgs'', ?as),
      (''paramMembers'', client_members ms)]"
  have as: "getGenericArgs (rr_params r) True = Some (Done ?as)"
    using generic_args_ok [OF ms(2), of True "[]"] by (auto simp: getGenericArgs_def ms(1) client_args_def)
  have plain: "\<forall>(n, v)\<in>set ?\<sigma>. CHR ''['' \<notin> set v"
    using assms client_args_plain [OF ms(2)] client_members_ok(2) [OF ms(2)] by (simp add: plain_name_def)
  then have "procedureDefineTemplate s (rr_name r) ?as (client_members ms) = Some (filled procedure_define_text ?\<sigma>)"
    using replaces_filled [OF client_templates_wf(2), of ?\<sigma>]
    by (simp add: procedureDefineTemplate_def hole_def scan_eval)
  then show "gbind (getGenericArgs (rr_params r) True) (\<lambda>procedureArgs.
       gbind (getGenericParamMembers (rr_params r)) (\<lambda>paramMembers.
         ended (procedureDefineTemplate s (rr_name r) procedureArgs paramMembers))) =
      Some (Done (client_procedure s r))"
    using as client_members_ok(1) [OF ms(2)] by (simp add: client_procedure_def ms(1))
  show "plain_name (client_procedure s r)"
    unfolding plain_name_def client_procedure_def Let_def ms(1) members_of.simps
    by (rule filled_plain) (use plain client_templates_cover(1) in simp_all)
qed

lemma client_notify_ok:
  assumes "plain_name s" "plain_name (rn_name r)" "plain_params (rn_params r)"
  shows "gbind (getGenericArgs (rn_params r) False) (\<lambda>notifyArgs.
       gbind (getGenericParamMembers (rn_params r)) (\<lambda>paramMembers.
         ended (notifyDefineTemplate s (rn_name r) notifyArgs paramMembers))) =
      Some (Done (client_notify s r))"
    "plain_name (client_notify s r)"
proof -
  obtain ms where ms: "rn_params r = JObject ms" "list_all (\<lambda>(key, v). plain_name key \<and> getType v \<noteq> TYPE_NULL) ms"
    using assms(3) by (cases "rn_params r") auto
  let ?\<sigma> = "[(''serviceName'', s), (''notifyName'', rn_name r), (''notifyArgs'', client_args ms),
      (''paramMembers'', client_members ms)]"
  have as: "getGenericArgs (rn_params r) False = Some (Done (client_args ms))"
    using generic_args_ok [OF ms(2), of True "[]"] by (simp add: getGenericArgs_def ms(1))
  have plain: "\<forall>(n, v)\<in>set ?\<sigma>. CHR ''['' \<notin> set v"
    using assms client_args_plain [OF ms(2)] client_members_ok(2) [OF ms(2)] by (simp add: plain_name_def)
  then have "notifyDefineTemplate s (rn_name r) (client_args ms) (client_members ms) = Some (filled notify_define_text ?\<sigma>)"
    using replaces_filled [OF client_templates_wf(3), of ?\<sigma>]
    by (simp add: notifyDefineTemplate_def hole_def scan_eval)
  then show "gbind (getGenericArgs (rn_params r) False) (\<lambda>notifyArgs.
       gbind (getGenericParamMembers (rn_params r)) (\<lambda>paramMembers.
         ended (notifyDefineTemplate s (rn_name r) notifyArgs paramMembers))) =
      Some (Done (client_notify s r))"
    using as client_members_ok(1) [OF ms(2)] by (simp add: client_notify_def ms(1))
  show "plain_name (client_notify s r)"
    unfolding plain_name_def client_notify_def Let_def ms(1) members_of.simps
    by (rule filled_plain) (use plain client_templates_cover(2) in simp_all)
qed

text \<open>The whole stub: on plain names the generator ends, with the holes of the templates filled.\<close>

lemma client_stub_ok:
  assumes "plain_info info"
  shows "client_getStub info = Some (Done (client_text info))"
proof -
  have s: "plain_name (svc_name info)"
    and rr: "r \<in> set (rpcReturn info) \<Longrightarrow> plain_name (rr_name r) \<and> plain_params (rr_params r)"
    and rn: "q \<in> set (rpcNotify info) \<Longrightarrow> plain_name (rn_name q) \<and> plain_params (rn_params q)" for r q
    using assms by (auto simp: plain_info_def list_all_iff)
  let ?ps = "concat (map (client_procedure (svc_name info)) (rpcReturn info))"
  let ?ns = "concat (map (client_notify (svc_name info)) (rpcNotify info))"
  have p: "getProcedureDefinitions info = Some (Done ?ps)" and n: "getNotifyDefinitions info = Some (Done ?ns)"
    unfolding getProcedureDefinitions_def getNotifyDefinitions_def
    by (rule each_done, use s rr rn client_procedure_ok(1) client_notify_ok(1) in blast)+
  let ?\<sigma> = "[(''macroName'', upper (svc_name info) @ ''CLIENTSTUB''), (''stubClassName'', svc_name info @ ''ClientStub''),
      (''procedureDefinitions'', ?ps), (''notifyDefinitions'', ?ns)]"
  have "CHR ''['' \<notin> set ?ps" "CHR ''['' \<notin> set ?ns"
    using s rr rn client_procedure_ok(2) client_notify_ok(2) unfolding plain_name_def by fastforce+
  then have "\<forall>(n, v)\<in>set ?\<sigma>. name_ok n \<and> CHR ''['' \<notin> set v"
    using s plain_upper [OF s] by (simp add: plain_name_def scan_eval)
  from replaces_filled [OF client_templates_wf(1) this] p n show ?thesis
    by (simp add: client_getStub_def clientStubTemplate_def client_text_def client_macro_name_def
        client_class_name_def hole_def)
qed

text \<open>The name of the service is not used for notifications: their template has no hole for it.\<close>

lemma fill_unused: "H n \<notin> set xs \<Longrightarrow> fill ((n, ts) # \<sigma>) xs = fill \<sigma> xs"
proof (induction xs)
  case (Cons x xs) then show ?case by (cases x) auto
qed simp

lemma covers_notin: "covers ns xs \<Longrightarrow> n \<notin> set ns \<Longrightarrow> H n \<notin> set xs"
  by (induction ns xs rule: covers.induct) auto

lemma client_notify_service: "client_notify s r = client_notify s' r"
proof -
  have "covers [''notifyName'', ''notifyArgs'', ''paramMembers''] (scan notify_define_text)"
    unfolding notify_define_text_def by (rule covers_unlines) (simp add: scan_eval)
  then have "H ''serviceName'' \<notin> set (scan notify_define_text)" by (rule covers_notin) simp
  then show ?thesis by (simp add: client_notify_def filled_def fill_unused Let_def)
qed

text \<open>A parameter described by null is accepted by the parser, and fails an assert here.\<close>

lemma null_param_aborts:
  "getGenericArgs (JObject ((k, JNull) # ms)) b = Some Abort"
  by (simp add: getGenericArgs_def argTemplate_def)

end
