(* ===== verification/StubService.thy ===== *)
theory StubService
  imports StubProto
begin

text \<open>
  \<open>zrpc/stub/ServiceStub.cpp\<close>: the templates of the server stub, with a function each that fills
  them in, and the generator.
\<close>

section \<open>The templates\<close>

definition service_stub_text :: string where
  "service_stub_text = unlines
       ['''',
        ''/*'',
        '' * This stub is generated by zrpc, DO NOT modify it!'',
        '' */'',
        ''#ifndef ZRPC_[macroName]_H'',
        ''#define ZRPC_[macroName]_H'',
        '''',
        ''#include <jackson/Value.h>'',
        '''',
        ''#include <zrpc/util.h>'',
        ''#include <zrpc/server/Rpcserver.h>'',
        ''#include <zrpc/server/RpcService.h>'',
        '''',
        ''class [userClassName];'',
        '''',
        ''template <typename S>'',
        ''class [stubClassName]'',
        ''{'',
        ''protected:'',
        ''    explicit'',
        ''    [stubClassName](RpcServer& server)'',
        ''    {'',
        ''        static_assert(std::is_same_v<S, [userClassName]>,'',
        ''                      \"derived class name should be '[userClassName]'\");'',
        '''',
        ''        auto service = new RpcService;'',
        '''',
        ''        [stubProcedureBindings]'',
        '''',
        ''        server.addService(\"[serviceName]\", service);'',
        ''    }'',
        '''',
        ''    ~[stubClassName]() = default;'',
        '''',
        ''private:'',
        ''    [stubProcedureDefinitions]'',
        '''',
        ''private:'',
        ''    S& convert()'',
        ''    {'',
        ''        return static_cast<S&>('' @ ''*this);'',
        ''    }'',
        ''};'',
        '''',
        ''#endif //ZRPC_[macroName]_H'',
        '''']"

definition procedure_bind_text :: string where
  "procedure_bind_text = unlines
       ['''',
        ''service->addProcedureReturn(\"[procedureName]\", new ProcedureReturn('',
        ''        std::bind(&[stubClassName]::[stubProcedureName], this, _1, _2)'',
        ''        [procedureParams]'',
        ''));'',
        '''']"

definition stub_procedure_text :: string where
  "stub_procedure_text = unlines
       [''void [stubProcedureName](json::Value& request, const RpcDoneCallback& done)'',
        ''{'',
        ''    auto& params = request[\"params\"];'',
        '''',
        ''    if (params.isArray()) {'',
        ''        [paramsFromJsonArray]'',
        ''        convert().[procedureName]([procedureArgs] UserDoneCallback(request, done));'',
        ''    }'',
        ''    else {'',
        ''        [paramsFromJsonObject]'',
        ''        convert().[procedureName]([procedureArgs] UserDoneCallback(request, done));'',
        ''    }'',
        ''}'']"

definition stub_procedure_default_text :: string where
  "stub_procedure_default_text = unlines
       ['''',
        ''void [stubProcedureName](json::Value& request, const RpcDoneCallback& done)'',
        ''{'',
        ''    convert().[procedureName](UserDoneCallback(request, done));'',
        ''}'',
        '''']"

definition notify_bind_text :: string where
  "notify_bind_text = unlines
       ['''',
        ''service->addProcedureNotify(\"[notifyName]\", new ProcedureNotify('',
        ''        std::bind(&[stubClassName]::[stubNotifyName], this, _1)'',
        ''        [notifyParams]'',
        ''));'',
        '''']"

definition stub_notify_text :: string where
  "stub_notify_text = unlines
       ['''',
        ''void [stubNotifyName](json::Value& request)'',
        ''{'',
        ''    auto& params = request[\"params\"];'',
        '''',
        ''    if (params.isArray()) {'',
        ''        [paramsFromJsonArray]'',
        ''        convert().[NotifyName]([notifyArgs]);'',
        ''    }'',
        ''    else {'',
        ''        [paramsFromJsonObject]'',
        ''        convert().[NotifyName]([notifyArgs]);'',
        ''    }'',
        ''}'',
        '''']"

definition stub_notify_default_text :: string where
  "stub_notify_default_text = unlines
       ['''',
        ''void [stubNotifyName](json::Value& request)'',
        ''{'',
        ''    convert().[notifyName]();'',
        ''}'',
        '''']"

definition args_define_text :: string where
  "args_define_text = ''auto [arg] = params['' @
     ''[index]][method];''"

section \<open>Filling them in\<close>

definition servicesStubTemplate ::
    "string \<Rightarrow> string \<Rightarrow> string \<Rightarrow> string \<Rightarrow> string \<Rightarrow> string \<Rightarrow> string option" where
  "servicesStubTemplate macroName userClassName stubClassName serviceName stubProcedureBindings
      stubProcedureDefinitions =
     replaces service_stub_text
       [(''[macroName]'', macroName),
        (''[userClassName]'', userClassName),
        (''[stubClassName]'', stubClassName),
        (''[serviceName]'', serviceName),
        (''[stubProcedureBindings]'', stubProcedureBindings),
        (''[stubProcedureDefinitions]'', stubProcedureDefinitions)]"

definition stubProcedureBindTemplate :: "string \<Rightarrow> string \<Rightarrow> string \<Rightarrow> string \<Rightarrow> string option" where
  "stubProcedureBindTemplate procedureName stubClassName stubProcedureName procedureParams =
     replaces procedure_bind_text
       [(''[procedureName]'', procedureName),
        (''[stubClassName]'', stubClassName),
        (''[stubProcedureName]'', stubProcedureName),
        (''[procedureParams]'', procedureParams)]"

definition stubProcedureDefineTemplate ::
    "string \<Rightarrow> string \<Rightarrow> string \<Rightarrow> string \<Rightarrow> string \<Rightarrow> string option" where
  "stubProcedureDefineTemplate paramsFromJsonArray paramsFromJsonObject stubProcedureName procedureName
      procedureArgs =
     replaces stub_procedure_text
       [(''[paramsFromJsonArray]'', paramsFromJsonArray),
        (''[paramsFromJsonObject]'', paramsFromJsonObject),
        (''[stubProcedureName]'', stubProcedureName),
        (''[procedureName]'', procedureName),
        (''[procedureArgs]'', procedureArgs)]"

definition stubProcedureDefaultTemplate :: "string \<Rightarrow> string \<Rightarrow> string option" where
  "stubProcedureDefaultTemplate stubProcedureName procedureName =
     replaces stub_procedure_default_text
       [(''[stubProcedureName]'', stubProcedureName), (''[procedureName]'', procedureName)]"

definition stubNotifyBindTemplate :: "string \<Rightarrow> string \<Rightarrow> string \<Rightarrow> string \<Rightarrow> string option" where
  "stubNotifyBindTemplate notifyName stubClassName stubNotifyName notifyParams =
     replaces notify_bind_text
       [(''[notifyName]'', notifyName),
        (''[stubClassName]'', stubClassName),
        (''[stubNotifyName]'', stubNotifyName),
        (''[notifyParams]'', notifyParams)]"

definition stubNotifyDefineTemplate ::
    "string \<Rightarrow> string \<Rightarrow> string \<Rightarrow> string \<Rightarrow> string \<Rightarrow> string option" where
  "stubNotifyDefineTemplate paramsFromJsonArray paramsFromJsonObject stubNotifyName notifyName notifyArgs =
     replaces stub_notify_text
       [(''[notifyName]'', notifyName),
        (''[stubNotifyName]'', stubNotifyName),
        (''[notifyArgs]'', notifyArgs),
        (''[paramsFromJsonArray]'', paramsFromJsonArray),
        (''[paramsFromJsonObject]'', paramsFromJsonObject)]"

definition stubNotifyDefaultTemplate :: "string \<Rightarrow> string \<Rightarrow> string option" where
  "stubNotifyDefaultTemplate stubNotifyName notifyName =
     replaces stub_notify_default_text
       [(''[stubNotifyName]'', stubNotifyName), (''[notifyName]'', notifyName)]"

fun getter :: "value_type \<Rightarrow> (string, string) outcome" where
  "getter TYPE_BOOL = Done ''.getBool()''"
| "getter TYPE_INT32 = Done ''.getInt32()''"
| "getter TYPE_INT64 = Done ''.getInt64()''"
| "getter TYPE_DOUBLE = Done ''.getDouble()''"
| "getter TYPE_STRING = Done ''.getString()''"
| "getter TYPE_OBJECT = Done ''''"
| "getter TYPE_ARRAY = Done ''''"
| "getter TYPE_NULL = Abort"

definition argsDefineTemplate :: "string \<Rightarrow> string \<Rightarrow> value_type \<Rightarrow> string gen" where
  "argsDefineTemplate arg index type =
     gbind (Some (getter type)) (\<lambda>method.
       ended (replaces args_define_text [(''[arg]'', arg), (''[index]'', index), (''[method]'', method)]))"

section \<open>The generator\<close>

definition quoted :: "string \<Rightarrow> string" where
  "quoted s = quote_char # s @ [quote_char]"

fun json_type :: "value_type \<Rightarrow> (string, string) outcome" where
  "json_type TYPE_BOOL = Done ''json::TYPE_BOOL''"
| "json_type TYPE_INT32 = Done ''json::TYPE_INT32''"
| "json_type TYPE_INT64 = Done ''json::TYPE_INT64''"
| "json_type TYPE_DOUBLE = Done ''json::TYPE_DOUBLE''"
| "json_type TYPE_STRING = Done ''json::TYPE_STRING''"
| "json_type TYPE_OBJECT = Done ''json::TYPE_OBJECT''"
| "json_type TYPE_ARRAY = Done ''json::TYPE_ARRAY''"
| "json_type TYPE_NULL = Abort"

definition getGenericParams :: "jvalue \<Rightarrow> string gen" where
  "getGenericParams params =
     gbind (Some (getObject params)) (each (\<lambda>(key, v).
       gbind (Some (json_type (getType v))) (\<lambda>type.
         Some (Done ('', '' @ [lf_char] @ quoted key @ '', '' @ type)))))"

definition service_args :: "jvalue \<Rightarrow> string gen" where
  "service_args params = gbind (Some (getObject params)) (each (\<lambda>(key, v). Some (Done (key @ '', ''))))"

fun params_from_array :: "nat \<Rightarrow> members \<Rightarrow> string gen" where
  "params_from_array index [] = Some (Done [])"
| "params_from_array index ((key, v) # ps) =
     gbind (argsDefineTemplate key (dec index) (getType v)) (\<lambda>l.
     gbind (params_from_array (Suc index) ps) (\<lambda>result. Some (Done (l @ [lf_char] @ result))))"

definition getParamsFromJsonArray :: "jvalue \<Rightarrow> string gen" where
  "getParamsFromJsonArray params = gbind (Some (getObject params)) (params_from_array 0)"

definition getParamsFromJsonObject :: "jvalue \<Rightarrow> string gen" where
  "getParamsFromJsonObject params =
     gbind (Some (getObject params)) (each (\<lambda>(key, v).
       gbind (argsDefineTemplate key (quoted key) (getType v)) (\<lambda>l. Some (Done (l @ [lf_char])))))"

definition stub_name :: "string \<Rightarrow> string" where
  "stub_name name = name @ ''Stub''"

definition service_macro_name :: "service_info \<Rightarrow> string" where
  "service_macro_name info = upper (svc_name info) @ ''SERVICESTUB''"

definition service_user_class :: "service_info \<Rightarrow> string" where
  "service_user_class info = svc_name info @ ''Service''"

definition service_class_name :: "service_info \<Rightarrow> string" where
  "service_class_name info = svc_name info @ ''ServiceStub''"

definition getStubProcedureBindings :: "service_info \<Rightarrow> string gen" where
  "getStubProcedureBindings info =
     each (\<lambda>p.
       gbind (getGenericParams (rr_params p)) (\<lambda>procedureParams.
       gbind (ended (stubProcedureBindTemplate (rr_name p) (service_class_name info)
           (stub_name (rr_name p)) procedureParams)) (\<lambda>binding.
         Some (Done (binding @ [lf_char])))))
     (rpcReturn info)"

definition procedure_definition :: "string \<Rightarrow> jvalue \<Rightarrow> string gen" where
  "procedure_definition name params =
     (if getSize params > 0 then
        gbind (getParamsFromJsonArray params) (\<lambda>fromArray.
        gbind (getParamsFromJsonObject params) (\<lambda>fromObject.
        gbind (service_args params) (\<lambda>procedureArgs.
          ended (stubProcedureDefineTemplate fromArray fromObject (stub_name name) name procedureArgs))))
      else ended (stubProcedureDefaultTemplate (stub_name name) name))"

definition getStubProcedureDefinitions :: "service_info \<Rightarrow> string gen" where
  "getStubProcedureDefinitions info =
     each (\<lambda>r. gbind (procedure_definition (rr_name r) (rr_params r)) (\<lambda>text.
       Some (Done (text @ [lf_char])))) (rpcReturn info)"

definition getStubNotifyBindings :: "service_info \<Rightarrow> string gen" where
  "getStubNotifyBindings info =
     each (\<lambda>p.
       gbind (getGenericParams (rn_params p)) (\<lambda>notifyParams.
       gbind (ended (stubNotifyBindTemplate (rn_name p) (service_class_name info)
           (stub_name (rn_name p)) notifyParams)) (\<lambda>binding.
         Some (Done (binding @ [lf_char])))))
     (rpcNotify info)"

definition notify_definition :: "string \<Rightarrow> jvalue \<Rightarrow> string gen" where
  "notify_definition name params =
     (if getSize params > 0 then
        gbind (getParamsFromJsonArray params) (\<lambda>fromArray.
        gbind (getParamsFromJsonObject params) (\<lambda>fromObject.
        gbind (service_args params) (\<lambda>notifyArgs.
          ended (stubNotifyDefineTemplate fromArray fromObject (stub_name name) name notifyArgs))))
      else ended (stubNotifyDefaultTemplate (stub_name name) name))"

definition getStubNotifyDefinitions :: "service_info \<Rightarrow> string gen" where
  "getStubNotifyDefinitions info =
     each (\<lambda>r. gbind (notify_definition (rn_name r) (rn_params r)) (\<lambda>text.
       Some (Done (text @ [lf_char])))) (rpcNotify info)"

definition service_getStub :: "service_info \<Rightarrow> string gen" where
  "service_getStub info =
     gbind (getStubProcedureBindings info) (\<lambda>bindings.
     gbind (getStubNotifyBindings info) (\<lambda>notify_bindings.
     gbind (getStubProcedureDefinitions info) (\<lambda>procedure_definitions.
     gbind (getStubNotifyDefinitions info) (\<lambda>notify_definitions.
       ended (servicesStubTemplate (service_macro_name info) (service_user_class info)
         (service_class_name info) (svc_name info)
         (bindings @ notify_bindings) (procedure_definitions @ notify_definitions))))))"

section \<open>What is generated\<close>

text \<open>
  The text of the stub: every template filled at once. A parameter is read in a line of its own,
  from its place in an array or from its key in an object.
\<close>

definition getter_text :: "jvalue \<Rightarrow> string" where
  "getter_text v = (case getter (getType v) of Done m \<Rightarrow> m | _ \<Rightarrow> [])"

definition type_text :: "jvalue \<Rightarrow> string" where
  "type_text v = (case json_type (getType v) of Done t \<Rightarrow> t | _ \<Rightarrow> [])"

definition param_line :: "string \<Rightarrow> string \<times> jvalue \<Rightarrow> string" where
  "param_line i p = ''auto '' @ fst p @ '' = params['' @ i @ '']'' @ getter_text (snd p) @ '';'' @ [lf_char]"

fun lines_from_array :: "nat \<Rightarrow> members \<Rightarrow> string" where
  "lines_from_array i [] = []"
| "lines_from_array i (p # ps) = param_line (dec i) p @ lines_from_array (Suc i) ps"

definition lines_from_object :: "members \<Rightarrow> string" where
  "lines_from_object ms = concat (map (\<lambda>p. param_line (quoted (fst p)) p) ms)"

definition arg_list :: "members \<Rightarrow> string" where
  "arg_list ms = concat (map (\<lambda>p. fst p @ '', '') ms)"

definition param_list :: "members \<Rightarrow> string" where
  "param_list ms = concat (map (\<lambda>p. '', '' @ [lf_char] @ quoted (fst p) @ '', '' @ type_text (snd p)) ms)"

definition procedure_binding :: "string \<Rightarrow> rpc_return \<Rightarrow> string" where
  "procedure_binding c r = filled procedure_bind_text
     [(''procedureName'', rr_name r), (''stubClassName'', c), (''stubProcedureName'', rr_name r @ ''Stub''),
      (''procedureParams'', param_list (members_of (rr_params r)))] @ [lf_char]"

definition notify_binding :: "string \<Rightarrow> rpc_notify \<Rightarrow> string" where
  "notify_binding c r = filled notify_bind_text
     [(''notifyName'', rn_name r), (''stubClassName'', c), (''stubNotifyName'', rn_name r @ ''Stub''),
      (''notifyParams'', param_list (members_of (rn_params r)))] @ [lf_char]"

definition procedure_text :: "string \<Rightarrow> jvalue \<Rightarrow> string" where
  "procedure_text name p =
     (let ms = members_of p in
      if ms \<noteq> [] then filled stub_procedure_text
        [(''paramsFromJsonArray'', lines_from_array 0 ms), (''paramsFromJsonObject'', lines_from_object ms),
         (''stubProcedureName'', name @ ''Stub''), (''procedureName'', name), (''procedureArgs'', arg_list ms)]
      else filled stub_procedure_default_text
        [(''stubProcedureName'', name @ ''Stub''), (''procedureName'', name)])"

definition notify_text :: "string \<Rightarrow> jvalue \<Rightarrow> string" where
  "notify_text name p =
     (let ms = members_of p in
      if ms \<noteq> [] then filled stub_notify_text
        [(''notifyName'', name), (''stubNotifyName'', name @ ''Stub''), (''notifyArgs'', arg_list ms),
         (''paramsFromJsonArray'', lines_from_array 0 ms), (''paramsFromJsonObject'', lines_from_object ms)]
      else filled stub_notify_default_text
        [(''stubNotifyName'', name @ ''Stub''), (''notifyName'', name)])"

definition service_text :: "service_info \<Rightarrow> string" where
  "service_text info = (let c = svc_name info @ ''ServiceStub'' in filled service_stub_text
     [(''macroName'', upper (svc_name info) @ ''SERVICESTUB''), (''userClassName'', svc_name info @ ''Service''),
      (''stubClassName'', c), (''serviceName'', svc_name info),
      (''stubProcedureBindings'',
        concat (map (procedure_binding c) (rpcReturn info)) @ concat (map (notify_binding c) (rpcNotify info))),
      (''stubProcedureDefinitions'',
        concat (map (\<lambda>r. procedure_text (rr_name r) (rr_params r) @ [lf_char]) (rpcReturn info)) @
        concat (map (\<lambda>r. notify_text (rn_name r) (rn_params r) @ [lf_char]) (rpcNotify info)))])"

lemma service_templates_wf:
  "wf_items (scan service_stub_text)" "wf_items (scan procedure_bind_text)" "wf_items (scan stub_procedure_text)"
  "wf_items (scan stub_procedure_default_text)" "wf_items (scan notify_bind_text)"
  "wf_items (scan stub_notify_text)" "wf_items (scan stub_notify_default_text)"
  unfolding service_stub_text_def procedure_bind_text_def stub_procedure_text_def stub_procedure_default_text_def
    notify_bind_text_def stub_notify_text_def stub_notify_default_text_def
  by (rule wf_unlines, simp add: scan_eval)+

text \<open>An argument: three holes, one of them in brackets.\<close>

lemma args_define_ok:
  assumes "plain_name k" "CHR ''['' \<notin> set i" "i \<noteq> []" "\<not> is_letter (hd i)" "getter t = Done m"
  shows "argsDefineTemplate k i t = Some (Done (''auto '' @ k @ '' = params['' @ i @ '']'' @ m @ '';''))"
proof -
  obtain c cs where i: "i = c # cs" using assms(3) by (cases i) auto
  have m: "CHR ''['' \<notin> set m" using assms(5) by (cases t) auto
  have k: "CHR ''['' \<notin> set (''auto '' @ k @ '' = params'')" using assms(1) by (simp add: plain_name_def)
  note skip = find_sub_skip [OF k] index_skip [OF assms(2) [unfolded i]]
  have h: "''[arg]'' = hole ''arg''" "''[index]'' = hole ''index''" "''[method]'' = hole ''method''"
    by (simp_all add: hole_def)
  have 1: "replaceAll (''auto '' @ hole ''arg'' @ '' = params[[index]][method];'') (hole ''arg'') k =
      Some (''auto '' @ k @ '' = params[[index]][method];'')"
    by (rule replaceAll_once)
      (use skip(1) [of "''arg''" "''[[index]][method];''"] in \<open>simp_all add: hole_def\<close>)
  have 2: "replaceAll ((''auto '' @ k @ '' = params['') @ hole ''index'' @ '']'' @ hole ''method'' @ '';'') (hole ''index'') i =
      Some ((''auto '' @ k @ '' = params['') @ i @ '']'' @ hole ''method'' @ '';'')"
  proof (rule replaceAll_once)
    show "find_sub (hole ''index'') ((''auto '' @ k @ '' = params['') @ hole ''index'' @ '']'' @ hole ''method'' @ '';'')
        = Some (length (''auto '' @ k @ '' = params[''))"
      using skip(1) [of "''index''" "''[[index]][method];''"] by (simp add: hole_def)
    have "find_sub (hole ''index'') (''['' @ i @ '']'' @ hole ''method'' @ '';'') = None"
      using skip(2) [of "''index''" "'']'' @ hole ''method'' @ '';''"] assms(4) by (simp add: i hole_def is_letter_def byte_of_def)
    then show "find_sub (hole ''index'') ((''auto '' @ k @ '' = params['') @ i @ '']'' @ hole ''method'' @ '';'') = None"
      using skip(1) [of "''index''" "''['' @ i @ '']'' @ hole ''method'' @ '';''"] by simp
  qed
  have 3: "replaceAll ((''auto '' @ k @ '' = params['' @ i @ '']'') @ hole ''method'' @ '';'') (hole ''method'') m =
      Some ((''auto '' @ k @ '' = params['' @ i @ '']'') @ m @ '';'')"
  proof (rule replaceAll_once)
    have "find_sub (hole ''method'') (''['' @ i @ '']'' @ hole ''method'' @ '';'') = Some (Suc (Suc (length i)))"
      using skip(2) [of "''method''" "'']'' @ hole ''method'' @ '';''"] assms(4) by (simp add: i hole_def is_letter_def byte_of_def)
    then show "find_sub (hole ''method'') ((''auto '' @ k @ '' = params['' @ i @ '']'') @ hole ''method'' @ '';'')
        = Some (length (''auto '' @ k @ '' = params['' @ i @ '']''))"
      using skip(1) [of "''method''" "''['' @ i @ '']'' @ hole ''method'' @ '';''"] by simp
    have "CHR ''['' \<notin> set ('']'' @ m @ '';'')" using m by simp
    from find_sub_skip [OF this, of "''method''" "[]"]
    have "find_sub (hole ''method'') (''['' @ i @ '']'' @ m @ '';'') = None"
      using skip(2) [of "''method''" "'']'' @ m @ '';''"] assms(4) by (simp add: i hole_def is_letter_def byte_of_def)
    then show "find_sub (hole ''method'') ((''auto '' @ k @ '' = params['' @ i @ '']'') @ m @ '';'') = None"
      using skip(1) [of "''method''" "''['' @ i @ '']'' @ m @ '';''"] by simp
  qed
  show ?thesis
    using 1 2 3 unfolding hole_def by (simp add: argsDefineTemplate_def args_define_text_def assms(5))
qed
lemma service_holes:
  "holes (scan service_stub_text) = [''macroName'', ''macroName'', ''userClassName'', ''stubClassName'', ''stubClassName'', ''userClassName'', ''userClassName'', ''stubProcedureBindings'', ''serviceName'', ''stubClassName'', ''stubProcedureDefinitions'', ''macroName'']"
  "holes (scan procedure_bind_text) = [''procedureName'', ''stubClassName'', ''stubProcedureName'', ''procedureParams'']"
  "holes (scan stub_procedure_text) = [''stubProcedureName'', ''paramsFromJsonArray'', ''procedureName'', ''procedureArgs'', ''paramsFromJsonObject'', ''procedureName'', ''procedureArgs'']"
  "holes (scan stub_procedure_default_text) = [''stubProcedureName'', ''procedureName'']"
  "holes (scan notify_bind_text) = [''notifyName'', ''stubClassName'', ''stubNotifyName'', ''notifyParams'']"
  "holes (scan stub_notify_text) = [''stubNotifyName'', ''paramsFromJsonArray'', ''NotifyName'', ''notifyArgs'', ''paramsFromJsonObject'', ''NotifyName'', ''notifyArgs'']"
  "holes (scan stub_notify_default_text) = [''stubNotifyName'', ''notifyName'']"
  unfolding service_stub_text_def procedure_bind_text_def stub_procedure_text_def stub_procedure_default_text_def
    notify_bind_text_def stub_notify_text_def stub_notify_default_text_def holes_unlines
  by (simp add: scan_eval)+

lemma wf_items_bracket: "\<not> is_letter c \<Longrightarrow> wf_items (C c # xs) \<Longrightarrow> wf_items (C (CHR ''['') # C c # xs)"
  by simp

lemma makes_args:
  assumes "plain_name k" "CHR ''['' \<notin> set i" "i \<noteq> []" "\<not> is_letter (hd i)" "getType v \<noteq> TYPE_NULL"
  shows "makes (gbind (argsDefineTemplate k i (getType v)) (\<lambda>l. Some (Done (l @ [lf_char])))) (param_line i (k, v)) {}"
proof -
  obtain m where m: "getter (getType v) = Done m" "CHR ''['' \<notin> set m" using assms(5) by (cases v) auto
  obtain c cs where i: "i = c # cs" using assms(3) by (cases i) auto
  let ?xs = "lit (''auto '' @ k @ '' = params['' @ i @ '']'' @ m @ '';'')"
  have "makes (argsDefineTemplate k i (getType v)) (flat ?xs) {}"
  proof (rule makesI)
    show "argsDefineTemplate k i (getType v) = Some (Done (flat ?xs))"
      by (simp only: flat_lit) (rule args_define_ok [OF assms(1-4) m(1)])
    have "wf_items (lit (''auto '' @ k @ '' = params''))" using assms(1) by (intro wf_lit) (simp add: plain_name_def)
    moreover have "wf_items (lit (''['' @ i @ '']'' @ m @ '';''))"
      using assms(2,4) m(2) wf_lit [of "i @ '']'' @ m @ '';''"] by (simp add: i)
    ultimately have "wf_items (lit (''auto '' @ k @ '' = params'') @ lit (''['' @ i @ '']'' @ m @ '';''))" by (rule wf_append)
    then show "wf_items ?xs" by simp
  qed simp
  from makes_line [OF this] show ?thesis by (simp add: param_line_def getter_text_def m(1))
qed

lemma digit_not_letter: "is_digit c \<Longrightarrow> \<not> is_letter c \<and> c \<noteq> CHR ''[''"
  by (auto simp: is_digit_def is_letter_def byte_of_def)

lemma dec_plain: "dec n \<noteq> [] \<and> CHR ''['' \<notin> set (dec n) \<and> \<not> is_letter (hd (dec n))"
  using dec_digits [of _ n] digit_not_letter by (auto dest: hd_in_set)

lemma quoted_plain: "plain_name k \<Longrightarrow> quoted k \<noteq> [] \<and> CHR ''['' \<notin> set (quoted k) \<and> \<not> is_letter (hd (quoted k))"
  by (auto simp: quoted_def plain_name_def is_letter_def byte_of_def)

lemma params_from_array_makes:
  "list_all (\<lambda>(key, v). plain_name key \<and> getType v \<noteq> TYPE_NULL) ms \<Longrightarrow>
     makes (params_from_array i ms) (lines_from_array i ms) {}"
proof (induction i ms rule: params_from_array.induct)
  case (1 i) show ?case using makes_plain [of "[]"] by simp
next
  case (2 i k v ps)
  then have "makes (gbind (argsDefineTemplate k (dec i) (getType v)) (\<lambda>s. Some (Done (s @ [lf_char]))))
      (param_line (dec i) (k, v)) {}"
    using dec_plain by (intro makes_args) auto
  from makes_append [OF this] 2
  have "makes (gbind (gbind (argsDefineTemplate k (dec i) (getType v)) (\<lambda>s. Some (Done (s @ [lf_char]))))
      (\<lambda>s. gbind (params_from_array (Suc i) ps) (\<lambda>t. Some (Done (s @ t)))))
      (param_line (dec i) (k, v) @ lines_from_array (Suc i) ps) {}" by fastforce
  then show ?case
    by (cases "argsDefineTemplate k (dec i) (getType v)" rule: gbind.cases [of "(g, f)" for g f])
      (auto simp: append_assoc)
qed

lemma params_ok_elem:
  "list_all (\<lambda>(key, v). plain_name key \<and> getType v \<noteq> TYPE_NULL) ms \<Longrightarrow> (k, v) \<in> set ms \<Longrightarrow>
     plain_name k \<and> getType v \<noteq> TYPE_NULL"
  by (auto simp: list_all_iff)

text \<open>The pieces of a plain description have no holes.\<close>

lemma pieces_make:
  assumes "plain_params p"
  shows "makes (getParamsFromJsonArray p) (lines_from_array 0 (members_of p)) {}"
    "makes (getParamsFromJsonObject p) (lines_from_object (members_of p)) {}"
    "makes (service_args p) (arg_list (members_of p)) {}"
    "makes (getGenericParams p) (param_list (members_of p)) {}"
proof -
  obtain ms where ms: "p = JObject ms" "list_all (\<lambda>(key, v). plain_name key \<and> getType v \<noteq> TYPE_NULL) ms"
    using assms by (cases p) auto
  note e = params_ok_elem [OF ms(2)]
  have all: "makes (each f ms) (concat (map t ms)) {}"
    if "\<And>k v. (k, v) \<in> set ms \<Longrightarrow> makes (f (k, v)) (t (k, v)) {}" for f :: "string \<times> jvalue \<Rightarrow> string gen" and t
    using makes_each [of ms f t "\<lambda>_. {}"] that by force
  show "makes (getParamsFromJsonArray p) (lines_from_array 0 (members_of p)) {}"
    using params_from_array_makes [OF ms(2)] by (simp add: getParamsFromJsonArray_def ms(1))
  show "makes (getParamsFromJsonObject p) (lines_from_object (members_of p)) {}"
    unfolding getParamsFromJsonObject_def lines_from_object_def ms(1) getObject.simps gbind.simps members_of.simps
    by (rule all) (use e quoted_plain in \<open>auto intro!: makes_args\<close>)
  show "makes (service_args p) (arg_list (members_of p)) {}"
    unfolding service_args_def arg_list_def ms(1) getObject.simps gbind.simps members_of.simps
    by (rule all) (use e in \<open>auto intro!: makes_plain simp: plain_name_def\<close>)
  show "makes (getGenericParams p) (param_list (members_of p)) {}"
    unfolding getGenericParams_def param_list_def ms(1) getObject.simps gbind.simps members_of.simps
  proof (rule all)
    fix k v assume "(k, v) \<in> set ms"
    note kv = e [OF this]
    then obtain t where t: "json_type (getType v) = Done t" "CHR ''['' \<notin> set t" by (cases "getType v") auto
    then show "makes (case (k, v) of (key, v) \<Rightarrow> gbind (Some (json_type (getType v))) (\<lambda>type.
        Some (Done ('', '' @ [lf_char] @ quoted key @ '', '' @ type))))
        ('', '' @ [lf_char] @ quoted (fst (k, v)) @ '', '' @ type_text (snd (k, v))) {}"
      using kv quoted_plain [of k] makes_plain [of "'', '' @ [lf_char] @ quoted k @ '', '' @ t"]
      by (simp add: type_text_def)
  qed
qed

lemma bind_template:
  assumes "plain_name c"
  shows "plain_name (rr_name r) \<Longrightarrow> plain_params (rr_params r) \<Longrightarrow> makes (gbind (getGenericParams (rr_params r)) (\<lambda>ps.
      gbind (ended (stubProcedureBindTemplate (rr_name r) c (stub_name (rr_name r)) ps))
        (\<lambda>binding. Some (Done (binding @ [lf_char]))))) (procedure_binding c r) {}"
    "plain_name (rn_name q) \<Longrightarrow> plain_params (rn_params q) \<Longrightarrow> makes (gbind (getGenericParams (rn_params q)) (\<lambda>ps.
      gbind (ended (stubNotifyBindTemplate (rn_name q) c (stub_name (rn_name q)) ps))
        (\<lambda>binding. Some (Done (binding @ [lf_char]))))) (notify_binding c q) {}"
proof -
  assume r: "plain_name (rr_name r)" "plain_params (rr_params r)"
  let ?a = "rr_name r"
  have s: "CHR ''['' \<notin> set (stub_name ?a)" using r(1) by (simp add: stub_name_def plain_name_def)
  show "makes (gbind (getGenericParams (rr_params r)) (\<lambda>ps.
      gbind (ended (stubProcedureBindTemplate ?a c (stub_name ?a) ps)) (\<lambda>binding. Some (Done (binding @ [lf_char])))))
      (procedure_binding c r) {}"
    unfolding procedure_binding_def
  proof (rule makes_cases [OF pieces_make(4) [OF r(2)]], rule makes_line)
    fix xs assume xs: "param_list (members_of (rr_params r)) = flat xs" "wf_items xs" "set (holes xs) = {}"
    show "makes (ended (stubProcedureBindTemplate ?a c (stub_name ?a) (flat xs)))
        (filled procedure_bind_text [(''procedureName'', ?a), (''stubClassName'', c), (''stubProcedureName'', ?a @ ''Stub''),
          (''procedureParams'', param_list (members_of (rr_params r)))]) {}"
      using makes_replaces [OF service_templates_wf(2), of "[(''procedureName'', lit ?a), (''stubClassName'', lit c),
          (''stubProcedureName'', lit (stub_name ?a)), (''procedureParams'', xs)]"] assms r(1) s xs
      by (simp add: stubProcedureBindTemplate_def hole_def scan_eval service_holes plain_name_def stub_name_def)
  qed
next
  assume r: "plain_name (rn_name q)" "plain_params (rn_params q)"
  let ?a = "rn_name q"
  have s: "CHR ''['' \<notin> set (stub_name ?a)" using r(1) by (simp add: stub_name_def plain_name_def)
  show "makes (gbind (getGenericParams (rn_params q)) (\<lambda>ps.
      gbind (ended (stubNotifyBindTemplate ?a c (stub_name ?a) ps)) (\<lambda>binding. Some (Done (binding @ [lf_char])))))
      (notify_binding c q) {}"
    unfolding notify_binding_def
  proof (rule makes_cases [OF pieces_make(4) [OF r(2)]], rule makes_line)
    fix xs assume xs: "param_list (members_of (rn_params q)) = flat xs" "wf_items xs" "set (holes xs) = {}"
    show "makes (ended (stubNotifyBindTemplate ?a c (stub_name ?a) (flat xs)))
        (filled notify_bind_text [(''notifyName'', ?a), (''stubClassName'', c), (''stubNotifyName'', ?a @ ''Stub''),
          (''notifyParams'', param_list (members_of (rn_params q)))]) {}"
      using makes_replaces [OF service_templates_wf(5), of "[(''notifyName'', lit ?a), (''stubClassName'', lit c),
          (''stubNotifyName'', lit (stub_name ?a)), (''notifyParams'', xs)]"] assms r(1) s xs
      by (simp add: stubNotifyBindTemplate_def hole_def scan_eval service_holes plain_name_def stub_name_def)
  qed
qed

lemma plain_params_size: "plain_params p \<Longrightarrow> getSize p > 0 \<longleftrightarrow> members_of p \<noteq> []"
  by (cases p) auto

lemma procedure_definition_makes:
  assumes "plain_name a" "plain_params p"
  shows "makes (procedure_definition a p) (procedure_text a p) {}"
proof (cases "getSize p > 0")
  case True
  have s: "CHR ''['' \<notin> set (stub_name a)" using assms(1) by (simp add: stub_name_def plain_name_def)
  show ?thesis
    unfolding procedure_definition_def if_P [OF True]
  proof (rule makes_cases [OF pieces_make(1) [OF assms(2)]], rule makes_cases [OF pieces_make(2) [OF assms(2)]],
      rule makes_cases [OF pieces_make(3) [OF assms(2)]])
    fix xs ys zs assume h: "lines_from_array 0 (members_of p) = flat xs" "wf_items xs" "set (holes xs) = {}"
      "lines_from_object (members_of p) = flat ys" "wf_items ys" "set (holes ys) = {}"
      "arg_list (members_of p) = flat zs" "wf_items zs" "set (holes zs) = {}"
    show "makes (ended (stubProcedureDefineTemplate (flat xs) (flat ys) (stub_name a) a (flat zs))) (procedure_text a p) {}"
      using makes_replaces [OF service_templates_wf(3), of "[(''paramsFromJsonArray'', xs), (''paramsFromJsonObject'', ys),
          (''stubProcedureName'', lit (stub_name a)), (''procedureName'', lit a), (''procedureArgs'', zs)]"] assms(1) s h
        True plain_params_size [OF assms(2)]
      by (simp add: stubProcedureDefineTemplate_def procedure_text_def hole_def scan_eval service_holes plain_name_def
          stub_name_def)
  qed
next
  case False
  then show ?thesis
    using makes_replaces [OF service_templates_wf(4), of "[(''stubProcedureName'', lit (stub_name a)), (''procedureName'', lit a)]"]
      assms(1) plain_params_size [OF assms(2)]
    by (simp add: procedure_definition_def stubProcedureDefaultTemplate_def procedure_text_def hole_def scan_eval
        service_holes plain_name_def stub_name_def)
qed

lemma notify_definition_makes:
  assumes "plain_name a" "plain_params p"
  shows "makes (notify_definition a p) (notify_text a p) (if getSize p > 0 then {''NotifyName''} else {})"
proof (cases "getSize p > 0")
  case True
  have s: "CHR ''['' \<notin> set (stub_name a)" using assms(1) by (simp add: stub_name_def plain_name_def)
  show ?thesis
    unfolding notify_definition_def if_P [OF True]
  proof (rule makes_cases [OF pieces_make(1) [OF assms(2)]], rule makes_cases [OF pieces_make(2) [OF assms(2)]],
      rule makes_cases [OF pieces_make(3) [OF assms(2)]])
    fix xs ys zs assume h: "lines_from_array 0 (members_of p) = flat xs" "wf_items xs" "set (holes xs) = {}"
      "lines_from_object (members_of p) = flat ys" "wf_items ys" "set (holes ys) = {}"
      "arg_list (members_of p) = flat zs" "wf_items zs" "set (holes zs) = {}"
    show "makes (ended (stubNotifyDefineTemplate (flat xs) (flat ys) (stub_name a) a (flat zs))) (notify_text a p)
        {''NotifyName''}"
      using makes_replaces [OF service_templates_wf(6), of "[(''notifyName'', lit a), (''stubNotifyName'', lit (stub_name a)),
          (''notifyArgs'', zs), (''paramsFromJsonArray'', xs), (''paramsFromJsonObject'', ys)]"] assms(1) s h
        True plain_params_size [OF assms(2)]
      by (simp add: stubNotifyDefineTemplate_def notify_text_def hole_def scan_eval service_holes plain_name_def
          stub_name_def)
  qed
next
  case False
  then show ?thesis
    using makes_replaces [OF service_templates_wf(7), of "[(''stubNotifyName'', lit (stub_name a)), (''notifyName'', lit a)]"]
      assms(1) plain_params_size [OF assms(2)]
    by (simp add: notify_definition_def stubNotifyDefaultTemplate_def notify_text_def hole_def scan_eval service_holes
        plain_name_def stub_name_def)
qed

text \<open>
  The whole stub: on plain names the generator ends with that text, and a hole is left in it exactly
  when a notification has parameters.
\<close>

lemma service_stub_makes:
  assumes "plain_info info"
  shows "makes (service_getStub info) (service_text info)
    (if \<exists>r\<in>set (rpcNotify info). getSize (rn_params r) > 0 then {''NotifyName''} else {})"
proof -
  have s: "plain_name (svc_name info)"
    and rr: "r \<in> set (rpcReturn info) \<Longrightarrow> plain_name (rr_name r) \<and> plain_params (rr_params r)"
    and rn: "q \<in> set (rpcNotify info) \<Longrightarrow> plain_name (rn_name q) \<and> plain_params (rn_params q)" for r q
    using assms by (auto simp: plain_info_def list_all_iff)
  let ?c = "service_class_name info"
  have c: "plain_name ?c" using s by (simp add: service_class_name_def plain_name_def)
  have pb: "makes (getStubProcedureBindings info) (concat (map (procedure_binding ?c) (rpcReturn info))) {}"
    unfolding getStubProcedureBindings_def
    using makes_each [where N = "\<lambda>_. {}" and xs = "rpcReturn info"] bind_template(1) [OF c] rr by simp
  have nb: "makes (getStubNotifyBindings info) (concat (map (notify_binding ?c) (rpcNotify info))) {}"
    unfolding getStubNotifyBindings_def
    using makes_each [where N = "\<lambda>_. {}" and xs = "rpcNotify info"] bind_template(2) [OF c] rn by simp
  have pd: "makes (getStubProcedureDefinitions info)
      (concat (map (\<lambda>r. procedure_text (rr_name r) (rr_params r) @ [lf_char]) (rpcReturn info))) {}"
    unfolding getStubProcedureDefinitions_def
    using makes_each [where N = "\<lambda>_. {}" and xs = "rpcReturn info"] makes_line [OF procedure_definition_makes] rr by simp
  have nd: "makes (getStubNotifyDefinitions info)
      (concat (map (\<lambda>r. notify_text (rn_name r) (rn_params r) @ [lf_char]) (rpcNotify info)))
      (\<Union>r\<in>set (rpcNotify info). if getSize (rn_params r) > 0 then {''NotifyName''} else {})"
    unfolding getStubNotifyDefinitions_def
    by (rule makes_each, rule makes_line, rule notify_definition_makes) (use rn in auto)
  let ?N = "if \<exists>r\<in>set (rpcNotify info). getSize (rn_params r) > 0 then {''NotifyName''} else {}"
  have N: "(\<Union>r\<in>set (rpcNotify info). if getSize (rn_params r) > 0 then {''NotifyName''} else {}) = ?N" by auto
  show ?thesis
    unfolding service_getStub_def
  proof (rule makes_cases [OF pb], rule makes_cases [OF nb], rule makes_cases [OF pd],
      rule makes_cases [OF nd [unfolded N]])
    fix b b' d d'
    assume t: "concat (map (procedure_binding ?c) (rpcReturn info)) = flat b"
      "concat (map (notify_binding ?c) (rpcNotify info)) = flat b'"
      "concat (map (\<lambda>r. procedure_text (rr_name r) (rr_params r) @ [lf_char]) (rpcReturn info)) = flat d"
      "concat (map (\<lambda>r. notify_text (rn_name r) (rn_params r) @ [lf_char]) (rpcNotify info)) = flat d'"
      and h: "wf_items b" "set (holes b) = {}" "wf_items b'" "set (holes b') = {}"
        "wf_items d" "set (holes d) = {}" "wf_items d'" "set (holes d') = ?N"
    let ?\<sigma> = "[(''macroName'', lit (service_macro_name info)), (''userClassName'', lit (service_user_class info)),
        (''stubClassName'', lit ?c), (''serviceName'', lit (svc_name info)),
        (''stubProcedureBindings'', b @ b'), (''stubProcedureDefinitions'', d @ d')]"
    have "CHR ''['' \<notin> set (service_macro_name info)" "CHR ''['' \<notin> set (service_user_class info)"
      using s plain_upper [OF s] by (simp_all add: service_macro_name_def service_user_class_def plain_name_def)
    then have "\<forall>(n, ts)\<in>set ?\<sigma>. name_ok n \<and> wf_items ts \<and> set (holes ts) \<inter> fst ` set ?\<sigma> = {}"
      using s c h by (auto simp: scan_eval plain_name_def split: if_splits)
    note m = makes_replaces [OF service_templates_wf(1) this]
    have "filled service_stub_text (map (\<lambda>(n, ts). (n, flat ts)) ?\<sigma>) = service_text info"
      unfolding service_text_def Let_def t [unfolded service_class_name_def]
      by (simp add: service_macro_name_def service_user_class_def service_class_name_def)
    with m h show "makes (ended (servicesStubTemplate (service_macro_name info) (service_user_class info)
        ?c (svc_name info) (flat b @ flat b') (flat d @ flat d'))) (service_text info) ?N"
      by (simp add: servicesStubTemplate_def hole_def service_holes)
  qed
qed

end
