(* ===== verification/OrdMap.thy ===== *)
theory OrdMap
  imports Prelude "HOL-Library.List_Lexorder" "HOL-Library.Char_ord"
begin

text \<open>
  \<open>std::map\<close> and \<open>std::set\<close>: association lists in the order of their keys, so that iterating over
  them is going through the list. Strings are ordered byte by byte, as \<open>std::string\<close> compares.
\<close>

type_synonym ('k, 'v) omap = "('k \<times> 'v) list"

definition ordered :: "('k::linorder, 'v) omap \<Rightarrow> bool" where
  "ordered m \<longleftrightarrow> sorted_wrt (<) (map fst m)"

text \<open>\<open>m[k] = v\<close>.\<close>

fun put :: "'k::linorder \<Rightarrow> 'v \<Rightarrow> ('k, 'v) omap \<Rightarrow> ('k, 'v) omap" where
  "put k v [] = [(k, v)]"
| "put k v ((k', v') # m) =
     (if k < k' then (k, v) # (k', v') # m
      else if k = k' then (k, v) # m
      else (k', v') # put k v m)"

text \<open>\<open>erase(k)\<close>.\<close>

definition del :: "'k \<Rightarrow> ('k, 'v) omap \<Rightarrow> ('k, 'v) omap" where
  "del k m = filter (\<lambda>p. fst p \<noteq> k) m"

lemma keys_put: "set (map fst (put k v m)) = insert k (set (map fst m))"
  by (induction k v m rule: put.induct) auto

lemma ordered_put: "ordered m \<Longrightarrow> ordered (put k v m)"
  unfolding ordered_def
proof (induction k v m rule: put.induct)
  case (2 k v k' v' m)
  then have s: "sorted_wrt (<) (map fst m)" "\<forall>x\<in>set (map fst m). k' < x" by auto
  consider "k < k'" | "k = k'" | "k' < k" by force
  then show ?case
  proof cases
    case 3
    then have "sorted_wrt (<) (map fst (put k v m))" using 2 s by force
    with 3 s keys_put [of k v m] show ?thesis by auto
  qed (use s in auto)
qed simp

lemma ordered_del: "ordered m \<Longrightarrow> ordered (del k m)"
  unfolding ordered_def del_def by (induction m) auto

lemma ordered_distinct: "ordered m \<Longrightarrow> distinct (map fst m)"
  by (auto simp: ordered_def strict_sorted_iff)

lemma lookup_put: "ordered m \<Longrightarrow> map_of (put k v m) = (map_of m)(k \<mapsto> v)"
proof (induction k v m rule: put.induct)
  case (2 k v k' v' m)
  then show ?case by (auto simp: ordered_def fun_upd_twist)
qed auto

lemma lookup_del: "map_of (del k m) = (map_of m)(k := None)"
  by (induction m) (auto simp: del_def)

lemma ordered_Nil [simp]: "ordered []"
  by (simp add: ordered_def)

text \<open>The contract of a map, as the code that looks things up in one uses it.\<close>

locale key_map =
  fixes ok :: "'m \<Rightarrow> bool" and look :: "'m \<Rightarrow> 'k \<Rightarrow> 'v option" and empty :: 'm
    and ins :: "'k \<Rightarrow> 'v \<Rightarrow> 'm \<Rightarrow> 'm" and rem :: "'k \<Rightarrow> 'm \<Rightarrow> 'm"
  assumes empty_ok: "ok empty" "look empty k = None"
    and ins_ok: "ok m \<Longrightarrow> ok (ins k v m)" "ok m \<Longrightarrow> look (ins k v m) = (look m)(k \<mapsto> v)"
    and rem_ok: "ok m \<Longrightarrow> ok (rem k m)" "ok m \<Longrightarrow> look (rem k m) = (look m)(k := None)"
begin

lemma ins_all: "ok m \<Longrightarrow> ok (fold (\<lambda>(k, v). ins k v) kvs m) \<and> look (fold (\<lambda>(k, v). ins k v) kvs m) = look m ++ map_of (rev kvs)"
  by (induction kvs arbitrary: m) (auto simp: ins_ok map_add_def fun_eq_iff split: option.splits)

lemma rem_ins: "ok m \<Longrightarrow> look m k = None \<Longrightarrow> look (rem k (ins k v m)) = look m"
  by (simp add: ins_ok rem_ok fun_upd_idem)

end

interpretation om: key_map ordered map_of "[]" put del
  by unfold_locales (auto simp: ordered_put ordered_del lookup_put lookup_del)

end
