(* ===== verification/NetHttp.thy ===== *)
theory NetHttp
  imports NetBuffer OrdMap
begin

text \<open>
  The HTTP server: \<open>net/HttpRequst.h\<close>, \<open>HttpContext\<close>, \<open>HttpRespond\<close> and \<open>HttpServer\<close>. The user's
  callback is a parameter, so is the time a message is received; what is done to the
  connection is the list of its actions.
\<close>

section \<open>Requests\<close>

datatype http_method = Get | Post | Head | Put | Delete | Invaild

datatype http_version = Http10 | Http11 | Unknown

record http_request =
  rq_method :: http_method
  rq_version :: http_version
  rq_path :: string
  rq_query :: string
  rq_time :: i64
  rq_headers :: "(string, string) omap"

definition request_init :: http_request where
  "request_init = \<lparr>rq_method = Invaild, rq_version = Unknown, rq_path = [], rq_query = [], rq_time = 0, rq_headers = []\<rparr>"

definition method_of :: "string \<Rightarrow> http_method" where
  "method_of s =
     (if s = ''GET'' then Get else if s = ''POST'' then Post else if s = ''HEAD'' then Head
      else if s = ''PUT'' then Put else if s = ''DELETE'' then Delete else Invaild)"

definition setMethod :: "string \<Rightarrow> http_request \<Rightarrow> bool \<times> http_request" where
  "setMethod s r = (method_of s \<noteq> Invaild, r\<lparr>rq_method := method_of s\<rparr>)"

definition isspace :: "char \<Rightarrow> bool" where
  "isspace c \<longleftrightarrow> c = CHR '' '' \<or> 9 \<le> byte_of c \<and> byte_of c \<le> 13"

text \<open>\<open>addHeader\<close> on a line and the index of its colon: blanks around the value are dropped.\<close>

definition addHeader :: "string \<Rightarrow> nat \<Rightarrow> http_request \<Rightarrow> http_request" where
  "addHeader l colon r =
     (let headname = take colon l;
          val = dropWhile isspace (drop (Suc colon) l);
          val = rev (dropWhile isspace (rev val))
      in r\<lparr>rq_headers := put headname val (rq_headers r)\<rparr>)"

definition getHeader :: "string \<Rightarrow> http_request \<Rightarrow> string" where
  "getHeader headname r = (case map_of (rq_headers r) headname of Some v \<Rightarrow> v | None \<Rightarrow> [])"

section \<open>The parser\<close>

datatype part = RequestLine | Headers | Body | End

record http_context =
  hc_request :: http_request
  part :: part

definition context_init :: http_context where
  "context_init = \<lparr>hc_request = request_init, part = RequestLine\<rparr>"

text \<open>\<open>std::find\<close>: the index of the first such character, or the length.\<close>

definition find_char :: "char \<Rightarrow> string \<Rightarrow> nat" where
  "find_char c s = length (takeWhile (\<lambda>x. x \<noteq> c) s)"

text \<open>
  \<open>partOnRequestLine\<close> with positions relative to \<open>start\<close>. The question mark is looked for from
  the start of the line; no method has one.
\<close>

definition partOnRequestLine :: "string \<Rightarrow> http_request \<Rightarrow> bool \<times> http_request" where
  "partOnRequestLine l r =
     (let space = find_char CHR '' '' l in
      if space = length l then (False, r)
      else let (valid, r) = setMethod (take space l) r in
      if \<not> valid then (False, r)
      else let begin' = Suc space; space = begin' + find_char CHR '' '' (drop begin' l) in
      if space = length l then (False, r)
      else let question = find_char CHR ''?'' (take space l);
               r = (if question \<noteq> space
                    then r\<lparr>rq_path := take (question - begin') (drop begin' l),
                           rq_query := take (space - question) (drop question l)\<rparr>
                    else r\<lparr>rq_path := take (space - begin') (drop begin' l)\<rparr>);
               v = drop (Suc space) l in
      if length v = 8 \<and> take 7 v = ''HTTP/1.'' then
        (if v ! 7 = CHR ''1'' then (True, r\<lparr>rq_version := Http11\<rparr>)
         else if v ! 7 = CHR ''0'' then (True, r\<lparr>rq_version := Http10\<rparr>)
         else (False, r))
      else (False, r))"

text \<open>
  \<open>parseRequst\<close>. The loop has no exit in the parts \<open>Body\<close> and \<open>End\<close>: None is a loop that never ends.
\<close>

partial_function (option) parse_loop ::
    "i64 \<Rightarrow> bool \<Rightarrow> http_context \<Rightarrow> buffer \<Rightarrow> (bool \<times> http_context \<times> buffer) option" where
  "parse_loop t right ctx b =
     (case part ctx of
        RequestLine \<Rightarrow>
          (case findCRLF b of
             None \<Rightarrow> Some (right, ctx, b)
           | Some crlf \<Rightarrow>
               let (right, r) = partOnRequestLine (range_of b (readerIndex b) crlf) (hc_request ctx) in
               if right
               then parse_loop t right \<lparr>hc_request = r\<lparr>rq_time := t\<rparr>, part = Headers\<rparr> (retrieveUntil (crlf + 2) b)
               else Some (right, ctx\<lparr>hc_request := r\<rparr>, b))
      | Headers \<Rightarrow>
          (case findCRLF b of
             None \<Rightarrow> Some (right, ctx, b)
           | Some crlf \<Rightarrow>
               let l = range_of b (readerIndex b) crlf; colon = find_char CHR '':'' l in
               if colon \<noteq> length l
               then parse_loop t right (ctx\<lparr>hc_request := addHeader l colon (hc_request ctx)\<rparr>) (retrieveUntil (crlf + 2) b)
               else Some (right, ctx\<lparr>part := End\<rparr>, retrieveUntil (crlf + 2) b))
      | Body \<Rightarrow> parse_loop t right ctx b
      | End \<Rightarrow> parse_loop t right ctx b)"

definition parseRequst :: "i64 \<Rightarrow> http_context \<Rightarrow> buffer \<Rightarrow> (bool \<times> http_context \<times> buffer) option" where
  "parseRequst t ctx b = parse_loop t True ctx b"

definition parseAll :: "http_context \<Rightarrow> bool" where
  "parseAll ctx \<longleftrightarrow> part ctx = End"

definition reset_context :: "http_context \<Rightarrow> http_context" where
  "reset_context ctx = \<lparr>hc_request = request_init, part = RequestLine\<rparr>"

section \<open>Responses\<close>

text \<open>The status is printed as its number; the enumerator after \<open>r400BadRequest\<close> has the value 401.\<close>

datatype http_status = r200Succeed | r404Notfound | r301MovePermanently | r400BadRequest | rUnknown

fun status_code :: "http_status \<Rightarrow> nat" where
  "status_code r200Succeed = 200"
| "status_code r404Notfound = 404"
| "status_code r301MovePermanently = 301"
| "status_code r400BadRequest = 400"
| "status_code rUnknown = 401"

record http_respond =
  rs_headers :: "(string, string) omap"
  rs_status :: http_status
  rs_message :: string
  rs_body :: string
  rs_close :: bool

definition respond_init :: "bool \<Rightarrow> http_respond" where
  "respond_init close = \<lparr>rs_headers = [], rs_status = rUnknown, rs_message = [], rs_body = [], rs_close = close\<rparr>"

definition rs_addHeader :: "string \<Rightarrow> string \<Rightarrow> http_respond \<Rightarrow> http_respond" where
  "rs_addHeader headname v r = r\<lparr>rs_headers := put headname v (rs_headers r)\<rparr>"

text \<open>\<open>snprintf\<close> into a buffer of 32 bytes keeps 31 characters.\<close>

definition snprintf32 :: "string \<Rightarrow> string" where
  "snprintf32 s = take 31 s"

fun append_headers :: "(string, string) omap \<Rightarrow> buffer \<Rightarrow> buffer" where
  "append_headers [] out = out"
| "append_headers ((name, v) # hs) out =
     append_headers hs (append_bytes crlf_bytes (append_bytes v (append_bytes '': '' (append_bytes name out))))"

definition appendToBuffer :: "http_respond \<Rightarrow> buffer \<Rightarrow> buffer" where
  "appendToBuffer r out =
     (let out = append_bytes (snprintf32 (''HTTP/1.1 '' @ dec (status_code (rs_status r)) @ '' '')) out;
          out = append_bytes (rs_message r) out;
          out = append_bytes crlf_bytes out;
          out = (if rs_close r then append_bytes (''Connection: close'' @ crlf_bytes) out
                 else append_bytes (''Connection: Keep-Alive'' @ crlf_bytes)
                        (append_bytes (snprintf32 (''Content-Length: '' @ dec (length (rs_body r)) @ crlf_bytes)) out));
          out = append_headers (rs_headers r) out;
          out = append_bytes crlf_bytes out
      in append_bytes (rs_body r) out)"

section \<open>The server\<close>

datatype conn_action = Send string | Shutdown

type_synonym http_callback = "http_request \<Rightarrow> http_respond \<Rightarrow> http_respond"

definition default_HttpCallback :: http_callback where
  "default_HttpCallback rq r = r\<lparr>rs_status := r404Notfound, rs_message := ''NotFound'', rs_close := True\<rparr>"

definition closes :: "http_request \<Rightarrow> bool" where
  "closes rq \<longleftrightarrow> (let connection = getHeader ''Connection'' rq in
     connection = ''close'' \<or> rq_version rq = Http10 \<and> connection \<noteq> ''Keep-Alive'')"

definition onRequest :: "http_callback \<Rightarrow> http_request \<Rightarrow> conn_action list" where
  "onRequest cb rq =
     (let r = cb rq (respond_init (closes rq));
          message = fst (retrieveAsString (appendToBuffer r buffer_init))
      in Send message # (if rs_close r then [Shutdown] else []))"

text \<open>A new context for every message that arrives.\<close>

definition http_onMessage :: "http_callback \<Rightarrow> i64 \<Rightarrow> buffer \<Rightarrow> (conn_action list \<times> buffer) option" where
  "http_onMessage cb now b =
     map_option (\<lambda>(right, ctx, b).
       ((if right then [] else [Send '' 400 Bad Request '', Shutdown]) @
        (if parseAll ctx then onRequest cb (hc_request ctx) else []), b))
     (parseRequst now context_init b)"

section \<open>Lines\<close>

lemma find_char_at: "c \<notin> set u \<Longrightarrow> find_char c (u @ c # s) = length u"
  unfolding find_char_def by (subst takeWhile_append2) auto

lemma find_char_none: "find_char c u = length u \<longleftrightarrow> c \<notin> set u"
proof
  assume "find_char c u = length u"
  then have "takeWhile (\<lambda>x. x \<noteq> c) u = u"
    by (metis append_eq_conv_conj find_char_def order_refl take_all takeWhile_eq_take)
  then show "c \<notin> set u" by (metis (mono_tags, lifting) set_takeWhileD)
next
  assume "c \<notin> set u"
  then have "takeWhile (\<lambda>x. x \<noteq> c) u = u" unfolding takeWhile_eq_all_conv by blast
  then show "find_char c u = length u" by (simp only: find_char_def)
qed

text \<open>What the parser does with the line at the front of the buffer.\<close>

lemma crlf_found:
  assumes "buffer_inv b" "findCRLF b = Some crlf"
  obtains i where "find_sub crlf_bytes (content b) = Some i" "crlf = readerIndex b + i"
    "range_of b (readerIndex b) crlf = take i (content b)" "i + 2 \<le> length (content b)"
    "buffer_inv (retrieveUntil (crlf + 2) b)" "content (retrieveUntil (crlf + 2) b) = drop (i + 2) (content b)"
proof -
  from assms(2) obtain i where i: "find_sub crlf_bytes (content b) = Some i" "crlf = readerIndex b + i"
    by (auto simp: findCRLF_def)
  have len: "i + 2 \<le> length (content b)"
    using find_sub_Some [OF i(1)] by (simp add: crlf_bytes_def)
  have "range_of b (readerIndex b) crlf = take i (content b)"
    using len content_length [OF assms(1)] by (simp add: content_def range_of_def i(2) min_def readableBytes_def)
  with that i len retrieveUntil_ok [OF assms(1), of "crlf + 2"] show thesis by simp
qed

lemma crlf_line:
  assumes "buffer_inv b" "content b = l @ crlf_bytes @ rest" "cr_char \<notin> set l"
  obtains crlf where "findCRLF b = Some crlf" "range_of b (readerIndex b) crlf = l"
    "buffer_inv (retrieveUntil (crlf + 2) b)" "content (retrieveUntil (crlf + 2) b) = rest"
proof -
  have f: "find_sub crlf_bytes (content b) = Some (length l)"
    unfolding assms(2) by (rule bq.find_crlf_line [OF assms(3)])
  then have "findCRLF b = Some (readerIndex b + length l)" by (simp add: findCRLF_def)
  from crlf_found [OF assms(1) this] that [OF this] f assms(2) show thesis
    by (auto simp: crlf_bytes_def)
qed

text \<open>The loop ends when it is entered at the request line or the headers, and in no other part.\<close>

lemma parse_loop_ends:
  "buffer_inv b \<Longrightarrow> part ctx = RequestLine \<or> part ctx = Headers \<Longrightarrow> \<exists>y. parse_loop t right ctx b = Some y"
proof (induction "length (content b)" arbitrary: right ctx b rule: less_induct)
  case less
  show ?case
  proof (cases "findCRLF b")
    case None
    then show ?thesis using less.prems(2) by (subst parse_loop.simps) auto
  next
    case (Some crlf)
    from crlf_found [OF less.prems(1) Some] obtain i where i: "i + 2 \<le> length (content b)"
      "buffer_inv (retrieveUntil (crlf + 2) b)" "content (retrieveUntil (crlf + 2) b) = drop (i + 2) (content b)"
      by blast
    then have "length (content (retrieveUntil (crlf + 2) b)) < length (content b)" by simp
    from less.hyps [OF this i(2)] less.prems(2) Some show ?thesis
      by (subst parse_loop.simps) (auto simp: Let_def split: prod.split)
  qed
qed

lemma parse_loop_stuck:
  assumes "parse_loop t right ctx b = Some y" shows "part ctx = RequestLine \<or> part ctx = Headers"
proof (rule parse_loop.raw_induct [where P = "\<lambda>t right ctx b y. part ctx = RequestLine \<or> part ctx = Headers", OF _ assms])
  fix f and t :: i64 and right ctx b y
  assume IH: "\<And>t right ctx b y. f t right ctx b = Some y \<Longrightarrow> part ctx = RequestLine \<or> part ctx = Headers"
    and "(case part ctx of
        RequestLine \<Rightarrow>
          (case findCRLF b of
             None \<Rightarrow> Some (right, ctx, b)
           | Some crlf \<Rightarrow>
               let (right, r) = partOnRequestLine (range_of b (readerIndex b) crlf) (hc_request ctx) in
               if right
               then f t right \<lparr>hc_request = r\<lparr>rq_time := t\<rparr>, part = Headers\<rparr> (retrieveUntil (crlf + 2) b)
               else Some (right, ctx\<lparr>hc_request := r\<rparr>, b))
      | Headers \<Rightarrow>
          (case findCRLF b of
             None \<Rightarrow> Some (right, ctx, b)
           | Some crlf \<Rightarrow>
               let l = range_of b (readerIndex b) crlf; colon = find_char CHR '':'' l in
               if colon \<noteq> length l
               then f t right (ctx\<lparr>hc_request := addHeader l colon (hc_request ctx)\<rparr>) (retrieveUntil (crlf + 2) b)
               else Some (right, ctx\<lparr>part := End\<rparr>, retrieveUntil (crlf + 2) b))
      | Body \<Rightarrow> f t right ctx b
      | End \<Rightarrow> f t right ctx b) = Some y"
  then have step: "part ctx = Body \<or> part ctx = End \<Longrightarrow> f t right ctx b = Some y" by auto
  show "part ctx = RequestLine \<or> part ctx = Headers"
    using IH [OF step] by (cases "part ctx") simp_all
qed

section \<open>Whole requests\<close>

fun method_name :: "http_method \<Rightarrow> string" where
  "method_name Get = ''GET''"
| "method_name Post = ''POST''"
| "method_name Head = ''HEAD''"
| "method_name Put = ''PUT''"
| "method_name Delete = ''DELETE''"
| "method_name Invaild = ''''"

definition target_ok :: "string \<Rightarrow> string \<Rightarrow> bool" where
  "target_ok p q \<longleftrightarrow> CHR '' '' \<notin> set (p @ q) \<and> CHR ''?'' \<notin> set p \<and> cr_char \<notin> set (p @ q) \<and>
     (q = [] \<or> hd q = CHR ''?'')"

definition request_text :: "http_method \<Rightarrow> string \<Rightarrow> string \<Rightarrow> http_version \<Rightarrow> string" where
  "request_text m p q v =
     method_name m @ '' '' @ p @ q @ '' HTTP/1.'' @ (if v = Http11 then ''1'' else ''0'')"

definition header_text :: "string \<times> string \<Rightarrow> string" where
  "header_text h = fst h @ '': '' @ snd h"

definition header_ok :: "string \<times> string \<Rightarrow> bool" where
  "header_ok h \<longleftrightarrow> CHR '':'' \<notin> set (fst h) \<and> cr_char \<notin> set (fst h @ snd h) \<and>
     (snd h = [] \<or> \<not> isspace (hd (snd h)) \<and> \<not> isspace (last (snd h)))"

definition headers_text :: "(string \<times> string) list \<Rightarrow> string" where
  "headers_text hs = concat (map (\<lambda>h. header_text h @ crlf_bytes) hs)"

lemma method_name_of: "m \<noteq> Invaild \<Longrightarrow> method_of (method_name m) = m \<and> CHR '' '' \<notin> set (method_name m) \<and>
    CHR ''?'' \<notin> set (method_name m) \<and> cr_char \<notin> set (method_name m)"
  by (cases m) (auto simp: method_of_def)

lemma request_line_ok:
  assumes "m \<noteq> Invaild" "target_ok p q" "v \<noteq> Unknown"
  shows "partOnRequestLine (request_text m p q v) r =
    (True, r\<lparr>rq_method := m, rq_path := p, rq_query := (if q = [] then rq_query r else q), rq_version := v\<rparr>)"
proof -
  let ?n = "method_name m" and ?v = "''HTTP/1.'' @ (if v = Http11 then ''1'' else ''0'')"
  have l: "request_text m p q v = ?n @ CHR '' '' # (p @ q) @ CHR '' '' # ?v" by (simp add: request_text_def)
  note n = method_name_of [OF assms(1)]
  have s1: "find_char CHR '' '' (request_text m p q v) = length ?n"
    unfolding l by (rule find_char_at) (use n in simp)
  have s2: "find_char CHR '' '' (drop (Suc (length ?n)) (request_text m p q v)) = length (p @ q)"
    unfolding l using find_char_at [of "CHR '' ''" "p @ q" ?v] assms(2) by (simp add: target_ok_def)
  have up: "take (Suc (length ?n) + length (p @ q)) (request_text m p q v) = ?n @ CHR '' '' # p @ q"
    unfolding l by simp
  have quest: "find_char CHR ''?'' (?n @ CHR '' '' # p @ q) = (if q = [] then Suc (length ?n) + length p else Suc (length ?n) + length p)"
  proof (cases q)
    case Nil
    then show ?thesis using n assms(2) find_char_none [of "CHR ''?''" "?n @ CHR '' '' # p @ q"] by (simp add: target_ok_def)
  next
    case (Cons c q')
    then show ?thesis
      using n assms(2) find_char_at [of "CHR ''?''" "?n @ CHR '' '' # p" q'] by (simp add: target_ok_def)
  qed
  have v8: "drop (Suc (Suc (length ?n) + length (p @ q))) (request_text m p q v) = ?v"
    unfolding l by simp
  have neq: "length ?n \<noteq> length (request_text m p q v)" "Suc (length ?n) + length (p @ q) \<noteq> length (request_text m p q v)"
    unfolding l by simp_all
  have tk: "take (length ?n) (request_text m p q v) = ?n"
    "take (length p) (drop (Suc (length ?n)) (request_text m p q v)) = p"
    "drop (Suc (length ?n) + length p) (request_text m p q v) = q @ CHR '' '' # ?v"
    unfolding l by simp_all
  have vv: "v = Http11 \<or> v = Http10" using assms(3) by (cases v) auto
  show ?thesis
    unfolding partOnRequestLine_def Let_def s1 setMethod_def tk(1) split_beta fst_conv snd_conv s2 up quest v8
    using n neq tk vv assms(1) by (auto simp: eval_nat_numeral)
qed

lemma addHeader_ok:
  assumes "header_ok h"
  shows "addHeader (header_text h) (find_char CHR '':'' (header_text h)) r =
      r\<lparr>rq_headers := put (fst h) (snd h) (rq_headers r)\<rparr>"
    "find_char CHR '':'' (header_text h) \<noteq> length (header_text h)"
proof -
  obtain n v where h: "h = (n, v)" by fastforce
  have c: "find_char CHR '':'' (n @ CHR '':'' # CHR '' '' # v) = length n"
    by (rule find_char_at) (use assms in \<open>simp add: header_ok_def h\<close>)
  have sp: "isspace CHR '' ''" by (simp add: isspace_def)
  have "dropWhile isspace v = v \<and> rev (dropWhile isspace (rev v)) = v"
    using assms by (auto simp: header_ok_def h dropWhile_eq_self_iff hd_rev rev_swap)
  then show "addHeader (header_text h) (find_char CHR '':'' (header_text h)) r =
      r\<lparr>rq_headers := put (fst h) (snd h) (rq_headers r)\<rparr>"
    using c sp by (simp add: addHeader_def header_text_def h Let_def)
  show "find_char CHR '':'' (header_text h) \<noteq> length (header_text h)"
    using c by (simp add: header_text_def h)
qed

lemma header_no_cr: "header_ok h \<Longrightarrow> cr_char \<notin> set (header_text h)"
  by (auto simp: header_ok_def header_text_def)

lemma parse_headers:
  assumes "buffer_inv b" "content b = headers_text hs @ crlf_bytes @ rest" "list_all header_ok hs" "part ctx = Headers"
  shows "\<exists>b'. parse_loop t right ctx b =
      Some (right, \<lparr>hc_request = (hc_request ctx)\<lparr>rq_headers := fold (\<lambda>(n, v). put n v) hs (rq_headers (hc_request ctx))\<rparr>, part = End\<rparr>, b') \<and>
    buffer_inv b' \<and> content b' = rest"
  using assms
proof (induction hs arbitrary: ctx b)
  case Nil
  then have "content b = [] @ crlf_bytes @ rest" by (simp add: headers_text_def)
  from crlf_line [OF Nil.prems(1) this] obtain crlf where c: "findCRLF b = Some crlf"
    "range_of b (readerIndex b) crlf = []" "buffer_inv (retrieveUntil (crlf + 2) b)" "content (retrieveUntil (crlf + 2) b) = rest"
    by auto
  have "find_char CHR '':'' [] = 0" by (simp add: find_char_def)
  with c Nil.prems(4) show ?case by (subst parse_loop.simps) (simp add: Let_def)
next
  case (Cons h hs)
  then have ok: "header_ok h" "list_all header_ok hs"
    and b: "content b = header_text h @ crlf_bytes @ headers_text hs @ crlf_bytes @ rest"
    by (simp_all add: headers_text_def)
  from crlf_line [OF Cons.prems(1) b header_no_cr [OF ok(1)]] obtain crlf where c: "findCRLF b = Some crlf"
    "range_of b (readerIndex b) crlf = header_text h" "buffer_inv (retrieveUntil (crlf + 2) b)"
    "content (retrieveUntil (crlf + 2) b) = headers_text hs @ crlf_bytes @ rest" .
  let ?ctx = "ctx\<lparr>hc_request := (hc_request ctx)\<lparr>rq_headers := put (fst h) (snd h) (rq_headers (hc_request ctx))\<rparr>\<rparr>"
  have "parse_loop t right ctx b = parse_loop t right ?ctx (retrieveUntil (crlf + 2) b)"
    using c Cons.prems(4) addHeader_ok [OF ok(1)] by (subst parse_loop.simps) (simp add: Let_def)
  with Cons.IH [OF c(3,4) ok(2), of ?ctx] Cons.prems(4) show ?case by (cases h) simp
qed

text \<open>A whole request is parsed to what it says, and is taken off the buffer.\<close>

definition whole_request ::
    "http_method \<Rightarrow> string \<Rightarrow> string \<Rightarrow> http_version \<Rightarrow> (string \<times> string) list \<Rightarrow> string" where
  "whole_request m p q v hs = request_text m p q v @ crlf_bytes @ headers_text hs @ crlf_bytes"

definition request_for ::
    "http_method \<Rightarrow> string \<Rightarrow> string \<Rightarrow> http_version \<Rightarrow> (string \<times> string) list \<Rightarrow> i64 \<Rightarrow> http_request" where
  "request_for m p q v hs t =
     \<lparr>rq_method = m, rq_version = v, rq_path = p, rq_query = q, rq_time = t,
      rq_headers = fold (\<lambda>(n, v). put n v) hs []\<rparr>"

lemma request_no_cr: "m \<noteq> Invaild \<Longrightarrow> target_ok p q \<Longrightarrow> cr_char \<notin> set (request_text m p q v)"
  using method_name_of [of m] by (auto simp: target_ok_def request_text_def)

lemma parse_request_line:
  assumes "buffer_inv b" "content b = request_text m p q v @ crlf_bytes @ rest"
    and "m \<noteq> Invaild" "target_ok p q" "v \<noteq> Unknown"
  obtains b' where "buffer_inv b'" "content b' = rest"
    "parseRequst t context_init b = parse_loop t True \<lparr>hc_request = request_for m p q v [] t, part = Headers\<rparr> b'"
proof -
  from crlf_line [OF assms(1,2) request_no_cr [OF assms(3,4)]] obtain crlf where c: "findCRLF b = Some crlf"
    "range_of b (readerIndex b) crlf = request_text m p q v" "buffer_inv (retrieveUntil (crlf + 2) b)"
    "content (retrieveUntil (crlf + 2) b) = rest" .
  have "parseRequst t context_init b =
      parse_loop t True \<lparr>hc_request = request_for m p q v [] t, part = Headers\<rparr> (retrieveUntil (crlf + 2) b)"
    unfolding parseRequst_def
    using c request_line_ok [OF assms(3-5)]
    by (subst parse_loop.simps) (simp add: context_init_def request_init_def request_for_def)
  with that c show thesis by blast
qed

lemma parse_whole:
  assumes "buffer_inv b" "content b = whole_request m p q v hs @ rest"
    and "m \<noteq> Invaild" "target_ok p q" "v \<noteq> Unknown" "list_all header_ok hs"
  shows "\<exists>b'. parseRequst t context_init b = Some (True, \<lparr>hc_request = request_for m p q v hs t, part = End\<rparr>, b') \<and>
    buffer_inv b' \<and> content b' = rest"
proof -
  have "content b = request_text m p q v @ crlf_bytes @ (headers_text hs @ crlf_bytes @ rest)"
    using assms(2) by (simp add: whole_request_def)
  from parse_request_line [OF assms(1) this assms(3-5)] obtain b' where
    "buffer_inv b'" "content b' = headers_text hs @ crlf_bytes @ rest"
    "parseRequst t context_init b = parse_loop t True \<lparr>hc_request = request_for m p q v [] t, part = Headers\<rparr> b'" .
  with parse_headers [OF this(1,2) assms(6), of "\<lparr>hc_request = request_for m p q v [] t, part = Headers\<rparr>" t True]
  show ?thesis by (simp add: request_for_def)
qed

text \<open>A header that is given twice has its last value.\<close>

lemma header_lookup:
  "getHeader n (request_for m p q v hs t) = (case map_of (rev hs) n of Some x \<Rightarrow> x | None \<Rightarrow> [])"
  using om.ins_all [of "[]" hs] by (simp add: getHeader_def request_for_def)

section \<open>Messages\<close>

text \<open>What is sent for a response.\<close>

definition respond_text :: "http_respond \<Rightarrow> string" where
  "respond_text r =
     ''HTTP/1.1 '' @ dec (status_code (rs_status r)) @ '' '' @ rs_message r @ crlf_bytes @
     (if rs_close r then ''Connection: close'' @ crlf_bytes
      else ''Content-Length: '' @ dec (length (rs_body r)) @ crlf_bytes @ ''Connection: Keep-Alive'' @ crlf_bytes) @
     headers_text (rs_headers r) @ crlf_bytes @ rs_body r"

lemma append_headers_ok:
  "buffer_inv b \<Longrightarrow> buffer_inv (append_headers hs b) \<and> content (append_headers hs b) = content b @ headers_text hs"
  by (induction hs b rule: append_headers.induct) (simp_all add: headers_text_def header_text_def append_ok)

lemma short_dec: "n < 10 ^ 13 \<Longrightarrow> length (dec n) \<le> 13"
  by (rule length_dec_le) simp_all

lemma status_short: "length (dec (status_code s)) \<le> 3"
  by (cases s) (simp_all add: run_simps)

lemma respond_appended:
  assumes "buffer_inv b" "length (rs_body r) < 10 ^ 13"
  shows "buffer_inv (appendToBuffer r b) \<and> content (appendToBuffer r b) = content b @ respond_text r"
proof -
  have "snprintf32 (''HTTP/1.1 '' @ dec (status_code (rs_status r)) @ '' '') = ''HTTP/1.1 '' @ dec (status_code (rs_status r)) @ '' ''"
    unfolding snprintf32_def by (rule take_all) (use status_short [of "rs_status r"] in simp)
  moreover have "snprintf32 (''Content-Length: '' @ dec (length (rs_body r)) @ crlf_bytes) =
      ''Content-Length: '' @ dec (length (rs_body r)) @ crlf_bytes"
    unfolding snprintf32_def by (rule take_all) (use short_dec [OF assms(2)] in \<open>simp add: crlf_bytes_def\<close>)
  ultimately show ?thesis
    using assms(1) by (simp add: appendToBuffer_def respond_text_def append_ok append_headers_ok)
qed

lemma message_answered:
  assumes "buffer_inv b" "content b = whole_request m p q v hs @ rest"
    and "m \<noteq> Invaild" "target_ok p q" "v \<noteq> Unknown" "list_all header_ok hs"
    and "r = cb (request_for m p q v hs t) (respond_init (closes (request_for m p q v hs t)))"
      "length (rs_body r) < 10 ^ 13"
  shows "\<exists>b'. http_onMessage cb t b = Some (Send (respond_text r) # (if rs_close r then [Shutdown] else []), b') \<and>
    buffer_inv b' \<and> content b' = rest"
proof -
  from parse_whole [OF assms(1-6), of t] obtain b' where
    b': "parseRequst t context_init b = Some (True, \<lparr>hc_request = request_for m p q v hs t, part = End\<rparr>, b')"
      "buffer_inv b'" "content b' = rest" by blast
  moreover have "onRequest cb (request_for m p q v hs t) = Send (respond_text r) # (if rs_close r then [Shutdown] else [])"
    using respond_appended [OF buffer_init_ok(1) assms(8)] buffer_init_ok(2) assms(7)
    by (simp add: onRequest_def Let_def retrieveAsString_def)
  ultimately show ?thesis by (simp add: http_onMessage_def parseAll_def)
qed

text \<open>
  A request whose head arrives in two reads: the first is parsed into a context that is thrown
  away, and the second is taken for a new request.
\<close>

lemma method_invalid: "method_of (take (find_char CHR '' '' l) l) = Invaild \<Longrightarrow> fst (partOnRequestLine l r) = False"
  by (simp add: partOnRequestLine_def setMethod_def Let_def)

lemma split_head:
  assumes "buffer_inv b" "content b = request_text m p q v @ crlf_bytes"
    and "m \<noteq> Invaild" "target_ok p q" "v \<noteq> Unknown"
    and "header_ok h" "method_of (take (find_char CHR '' '' (header_text h)) (header_text h)) = Invaild"
  shows "\<exists>b'. http_onMessage cb t b = Some ([], b') \<and>
    (\<exists>b''. http_onMessage cb t' (append_bytes (headers_text (h # hs) @ crlf_bytes) b') =
      Some ([Send '' 400 Bad Request '', Shutdown], b''))"
proof -
  have "content b = request_text m p q v @ crlf_bytes @ []" using assms(2) by simp
  from parse_request_line [OF assms(1) this assms(3-5)] obtain b' where b': "buffer_inv b'" "content b' = []"
    "parseRequst t context_init b = parse_loop t True \<lparr>hc_request = request_for m p q v [] t, part = Headers\<rparr> b'" .
  have "findCRLF b' = None" using b'(2) by (simp add: findCRLF_def crlf_bytes_def)
  then have first: "http_onMessage cb t b = Some ([], b')"
    unfolding http_onMessage_def b'(3) by (subst parse_loop.simps) (simp add: parseAll_def)
  let ?b = "append_bytes (headers_text (h # hs) @ crlf_bytes) b'"
  have "buffer_inv ?b" "content ?b = header_text h @ crlf_bytes @ (headers_text hs @ crlf_bytes)"
    using append_ok [OF b'(1)] b'(2) by (simp_all add: headers_text_def)
  from crlf_line [OF this header_no_cr [OF assms(6)]] obtain crlf where c: "findCRLF ?b = Some crlf"
    "range_of ?b (readerIndex ?b) crlf = header_text h" by blast
  obtain r where "partOnRequestLine (header_text h) request_init = (False, r)"
    using method_invalid [OF assms(7), of request_init] by (cases "partOnRequestLine (header_text h) request_init") auto
  then have "parseRequst t' context_init ?b = Some (False, \<lparr>hc_request = r, part = RequestLine\<rparr>, ?b)"
    unfolding parseRequst_def using c by (subst parse_loop.simps) (simp add: context_init_def)
  then have "http_onMessage cb t' ?b = Some ([Send '' 400 Bad Request '', Shutdown], ?b)"
    by (simp add: http_onMessage_def parseAll_def)
  with first show ?thesis by blast
qed

end
