(* ===== verification/NetPoller.thy ===== *)
theory NetPoller
  imports OrdMap "HOL-Library.Word"
begin

unbundle bit_operations_syntax

text \<open>
  \<open>net/Channel\<close> and \<open>net/Poller\<close>: the events each channel asks for, the poller's table, and the calls
  of \<open>epoll_ctl\<close> it makes, which the state keeps in their order. A channel is known by its
  address, a number; the callbacks set on it are flags.
\<close>

section \<open>Channels\<close>

definition POLLIN :: i32 where "POLLIN = 1"
definition POLLPRI :: i32 where "POLLPRI = 2"
definition POLLOUT :: i32 where "POLLOUT = 4"
definition POLLERR :: i32 where "POLLERR = 8"
definition POLLHUP :: i32 where "POLLHUP = 16"
definition POLLNVAL :: i32 where "POLLNVAL = 32"
definition POLLRDHUP :: i32 where "POLLRDHUP = 0x2000"

definition NoneEventFlag :: i32 where "NoneEventFlag = 0"
definition ReadEventFlag :: i32 where "ReadEventFlag = POLLIN OR POLLPRI"
definition WriteEventFlag :: i32 where "WriteEventFlag = POLLOUT"

datatype event_callback = ReadCallback | WriteCallback | ErrorCallback | CloseCallback

record channel =
  ch_fd :: int
  ch_events :: i32
  ch_current :: i32
  ch_index :: int
  ch_callbacks :: "event_callback list"

definition channel_init :: "int \<Rightarrow> channel" where
  "channel_init fd = \<lparr>ch_fd = fd, ch_events = 0, ch_current = 0, ch_index = - 1, ch_callbacks = []\<rparr>"

definition set_callback :: "event_callback \<Rightarrow> channel \<Rightarrow> channel" where
  "set_callback cb ch = ch\<lparr>ch_callbacks := cb # ch_callbacks ch\<rparr>"

definition isNoneEvent :: "channel \<Rightarrow> bool" where
  "isNoneEvent ch \<longleftrightarrow> ch_events ch = NoneEventFlag"

definition isWriting :: "channel \<Rightarrow> bool" where
  "isWriting ch \<longleftrightarrow> ch_events ch AND WriteEventFlag \<noteq> 0"

text \<open>\<open>handleEvent\<close>: the callbacks it calls, those set on the channel, in this order.\<close>

definition handleEvent :: "channel \<Rightarrow> event_callback list" where
  "handleEvent ch =
     (let cur = ch_current ch; on = (\<lambda>b cb. if b \<and> cb \<in> set (ch_callbacks ch) then [cb] else []) in
      on (cur AND POLLHUP \<noteq> 0 \<and> cur AND POLLIN = 0) CloseCallback @
      on (cur AND (POLLERR OR POLLNVAL) \<noteq> 0) ErrorCallback @
      on (cur AND (POLLIN OR POLLPRI OR POLLRDHUP) \<noteq> 0) ReadCallback @
      on (cur AND POLLOUT \<noteq> 0) WriteCallback)"

section \<open>The poller\<close>

datatype ctl_op = EPOLL_CTL_ADD | EPOLL_CTL_MOD | EPOLL_CTL_DEL

type_synonym ctl = "ctl_op \<times> int \<times> i32 \<times> nat"

definition New :: int where "New = - 1"
definition Deleted :: int where "Deleted = 2"
definition Added :: int where "Added = 1"

record poller =
  p_store :: "nat \<Rightarrow> channel"
  p_channels :: "(int, nat) omap"
  p_ctl :: "ctl list"
  p_room :: nat

definition poller_init :: "(nat \<Rightarrow> channel) \<Rightarrow> poller" where
  "poller_init store = \<lparr>p_store = store, p_channels = [], p_ctl = [], p_room = 16\<rparr>"

definition set_channel :: "nat \<Rightarrow> channel \<Rightarrow> poller \<Rightarrow> poller" where
  "set_channel c ch p = p\<lparr>p_store := (p_store p)(c := ch)\<rparr>"

text \<open>\<open>Poller::update\<close>: the call of \<open>epoll_ctl\<close>.\<close>

definition poller_update :: "ctl_op \<Rightarrow> nat \<Rightarrow> poller \<Rightarrow> poller" where
  "poller_update operation c p =
     p\<lparr>p_ctl := p_ctl p @ [(operation, ch_fd (p_store p c), ch_events (p_store p c), c)]\<rparr>"

definition updateChannel :: "nat \<Rightarrow> poller \<Rightarrow> poller" where
  "updateChannel c p =
     (let ch = p_store p c; idx = ch_index ch; fd = ch_fd ch in
      if idx = New \<or> idx = Deleted then
        let p = (if idx = New then p\<lparr>p_channels := put fd c (p_channels p)\<rparr> else p);
            p = set_channel c (ch\<lparr>ch_index := Added\<rparr>) p
        in poller_update EPOLL_CTL_ADD c p
      else if isNoneEvent ch then
        let p = poller_update EPOLL_CTL_DEL c p
        in set_channel c (ch\<lparr>ch_index := Deleted\<rparr>) p
      else poller_update EPOLL_CTL_MOD c p)"

definition removeChannel :: "nat \<Rightarrow> poller \<Rightarrow> poller" where
  "removeChannel c p =
     (let ch = p_store p c;
          p = p\<lparr>p_channels := del (ch_fd ch) (p_channels p)\<rparr>;
          p = (if ch_index ch = 1 then poller_update EPOLL_CTL_DEL c p else p)
      in set_channel c (ch\<lparr>ch_index := New\<rparr>) p)"

text \<open>The channel's own operations, each of which updates the poller.\<close>

definition with_events :: "(i32 \<Rightarrow> i32) \<Rightarrow> nat \<Rightarrow> poller \<Rightarrow> poller" where
  "with_events f c p =
     updateChannel c (set_channel c ((p_store p c)\<lparr>ch_events := f (ch_events (p_store p c))\<rparr>) p)"

definition enableReading :: "nat \<Rightarrow> poller \<Rightarrow> poller" where
  "enableReading = with_events (\<lambda>e. e OR ReadEventFlag)"

definition enableWriting :: "nat \<Rightarrow> poller \<Rightarrow> poller" where
  "enableWriting = with_events (\<lambda>e. e OR WriteEventFlag)"

definition disableWriting :: "nat \<Rightarrow> poller \<Rightarrow> poller" where
  "disableWriting = with_events (\<lambda>e. e AND NOT WriteEventFlag)"

text \<open>\<open>events_|NoneEventFlag\<close> computes a value that nothing takes.\<close>

definition disableAll :: "nat \<Rightarrow> poller \<Rightarrow> poller" where
  "disableAll = with_events (\<lambda>e. e)"

text \<open>
  \<open>poll\<close>, given what \<open>epoll_wait\<close> delivered: the active channels, in order, their current events
  set; the list for the next call is doubled when it was full.
\<close>

fun fillActiveChannels :: "(i32 \<times> nat) list \<Rightarrow> poller \<Rightarrow> nat list \<times> poller" where
  "fillActiveChannels [] p = ([], p)"
| "fillActiveChannels ((ev, c) # es) p =
     (let (cs, p) = fillActiveChannels es (set_channel c ((p_store p c)\<lparr>ch_current := ev\<rparr>) p) in (c # cs, p))"

definition poll :: "(i32 \<times> nat) list \<Rightarrow> poller \<Rightarrow> nat list \<times> poller" where
  "poll es p =
     (let (cs, p) = fillActiveChannels es p
      in (cs, if es \<noteq> [] \<and> length es = p_room p then p\<lparr>p_room := p_room p * 2\<rparr> else p))"

section \<open>The interest list\<close>

text \<open>
  What \<open>epoll_ctl\<close> documents: adding a descriptor that is registered fails, as does changing or
  removing one that is not. None is a failed call.
\<close>

fun kernel :: "ctl \<Rightarrow> (int \<rightharpoonup> i32 \<times> nat) \<Rightarrow> (int \<rightharpoonup> i32 \<times> nat) option" where
  "kernel (EPOLL_CTL_ADD, fd, ev, c) K = (if K fd = None then Some (K(fd \<mapsto> (ev, c))) else None)"
| "kernel (EPOLL_CTL_MOD, fd, ev, c) K = (if K fd = None then None else Some (K(fd \<mapsto> (ev, c))))"
| "kernel (EPOLL_CTL_DEL, fd, ev, c) K = (if K fd = None then None else Some (K(fd := None)))"

fun kernel_run :: "ctl list \<Rightarrow> (int \<rightharpoonup> i32 \<times> nat) \<Rightarrow> (int \<rightharpoonup> i32 \<times> nat) option" where
  "kernel_run [] K = Some K"
| "kernel_run (op # ops) K = Option.bind (kernel op K) (kernel_run ops)"

lemma kernel_run_append: "kernel_run (xs @ ys) K = Option.bind (kernel_run xs K) (kernel_run ys)"
proof (induction xs arbitrary: K)
  case (Cons op xs)
  then show ?case by (cases "kernel op K") auto
qed simp

text \<open>
  What a poller does with its channels, one operation after the other. A descriptor may be closed and
  given to another channel, when the first has been removed: of the channels with one descriptor, one
  at most is known to the poller, and only that one, or any when none is, is operated on.
\<close>

definition sole :: "nat set \<Rightarrow> poller \<Rightarrow> nat \<Rightarrow> bool" where
  "sole U p c \<longleftrightarrow> c \<in> U \<and>
     (\<forall>d\<in>U. d \<noteq> c \<longrightarrow> ch_fd (p_store p d) = ch_fd (p_store p c) \<longrightarrow> ch_index (p_store p d) = New)"

inductive poller_step :: "nat set \<Rightarrow> poller \<Rightarrow> poller \<Rightarrow> bool" for U where
  reading: "sole U p c \<Longrightarrow> poller_step U p (enableReading c p)"
| writing: "sole U p c \<Longrightarrow> poller_step U p (enableWriting c p)"
| not_writing: "sole U p c \<Longrightarrow> poller_step U p (disableWriting c p)"
| none: "sole U p c \<Longrightarrow> poller_step U p (disableAll c p)"
| remove: "sole U p c \<Longrightarrow> poller_step U p (removeChannel c p)"
| waited: "set (map snd es) \<subseteq> U \<Longrightarrow> poller_step U p (snd (poll es p))"

text \<open>The interest list is what the channels ask for.\<close>

definition poller_inv :: "(nat \<Rightarrow> int) \<Rightarrow> nat set \<Rightarrow> poller \<Rightarrow> bool" where
  "poller_inv fd U p \<longleftrightarrow>
     (\<forall>c\<in>U. ch_fd (p_store p c) = fd c \<and> ch_index (p_store p c) \<in> {New, Added, Deleted}) \<and>
     (\<exists>K. kernel_run (p_ctl p) Map.empty = Some K \<and>
       (\<forall>f e c. K f = Some (e, c) \<longleftrightarrow>
         c \<in> U \<and> f = fd c \<and> ch_index (p_store p c) = Added \<and> e = ch_events (p_store p c))) \<and>
     ordered (p_channels p) \<and>
     (\<forall>f c. map_of (p_channels p) f = Some c \<longleftrightarrow> c \<in> U \<and> f = fd c \<and> ch_index (p_store p c) \<noteq> New)"

lemma index_consts [simp]: "New \<noteq> Added" "New \<noteq> Deleted" "Added \<noteq> New" "Added \<noteq> Deleted" "Deleted \<noteq> New" "Deleted \<noteq> Added"
  by (simp_all add: New_def Added_def Deleted_def)

text \<open>The facts a step of channel \<open>c\<close> starts from.\<close>

lemma poller_invE:
  assumes "poller_inv fd U p" "sole U p c"
  obtains K where "kernel_run (p_ctl p) Map.empty = Some K"
    "\<And>f e d. K f = Some (e, d) \<longleftrightarrow> d \<in> U \<and> f = fd d \<and> ch_index (p_store p d) = Added \<and> e = ch_events (p_store p d)"
    "K (fd c) = (if ch_index (p_store p c) = Added then Some (ch_events (p_store p c), c) else None)"
    "ordered (p_channels p)"
    "\<And>f d. map_of (p_channels p) f = Some d \<longleftrightarrow> d \<in> U \<and> f = fd d \<and> ch_index (p_store p d) \<noteq> New"
    "\<And>d. d \<in> U \<Longrightarrow> ch_fd (p_store p d) = fd d \<and> ch_index (p_store p d) \<in> {New, Added, Deleted}"
    "c \<in> U" "\<And>d. d \<in> U \<Longrightarrow> fd d = fd c \<Longrightarrow> d = c \<or> ch_index (p_store p d) = New"
proof -
  obtain K where K: "kernel_run (p_ctl p) Map.empty = Some K"
    "\<And>f e d. K f = Some (e, d) \<longleftrightarrow> d \<in> U \<and> f = fd d \<and> ch_index (p_store p d) = Added \<and> e = ch_events (p_store p d)"
    using assms(1) by (auto simp: poller_inv_def)
  have u: "\<And>d. d \<in> U \<Longrightarrow> ch_fd (p_store p d) = fd d \<and> ch_index (p_store p d) \<in> {New, Added, Deleted}"
    and c: "c \<in> U" and s: "\<And>d. d \<in> U \<Longrightarrow> fd d = fd c \<Longrightarrow> d = c \<or> ch_index (p_store p d) = New"
    using assms by (auto simp: poller_inv_def sole_def)
  have "K (fd c) = (if ch_index (p_store p c) = Added then Some (ch_events (p_store p c), c) else None)"
  proof (cases "K (fd c)")
    case (Some x)
    then obtain e d where "x = (e, d)" "d \<in> U" "fd d = fd c" "ch_index (p_store p d) = Added" "e = ch_events (p_store p d)"
      using K(2) by (cases x) auto
    moreover from this(2-4) have "d = c" using s by fastforce
    ultimately show ?thesis using Some by simp
  next
    case None
    then show ?thesis using K(2) [of "fd c"] c by auto
  qed
  moreover have "ordered (p_channels p)"
    and "\<And>f d. map_of (p_channels p) f = Some d \<longleftrightarrow> d \<in> U \<and> f = fd d \<and> ch_index (p_store p d) \<noteq> New"
    using assms(1) by (auto simp: poller_inv_def)
  ultimately show ?thesis using K u c s by (intro that) assumption+
qed

lemma updateChannel_inv:
  assumes P: "poller_inv fd U p" and c: "sole U p c"
  shows "poller_inv fd U (with_events f c p)"
proof -
  let ?ch = "p_store p c"
  obtain K where K: "kernel_run (p_ctl p) Map.empty = Some K"
    "\<And>f e d. K f = Some (e, d) \<longleftrightarrow> d \<in> U \<and> f = fd d \<and> ch_index (p_store p d) = Added \<and> e = ch_events (p_store p d)"
    "K (fd c) = (if ch_index ?ch = Added then Some (ch_events ?ch, c) else None)"
    and o: "ordered (p_channels p)"
    and m: "\<And>f d. map_of (p_channels p) f = Some d \<longleftrightarrow> d \<in> U \<and> f = fd d \<and> ch_index (p_store p d) \<noteq> New"
    and u: "\<And>d. d \<in> U \<Longrightarrow> ch_fd (p_store p d) = fd d \<and> ch_index (p_store p d) \<in> {New, Added, Deleted}"
    and cU: "c \<in> U" and s: "\<And>d. d \<in> U \<Longrightarrow> fd d = fd c \<Longrightarrow> d = c \<or> ch_index (p_store p d) = New"
    using P c by (rule poller_invE) (rule that; assumption)
  have fd: "ch_fd ?ch = fd c" using u cU by blast
  consider "ch_index ?ch = New" | "ch_index ?ch = Deleted" | "ch_index ?ch = Added" using u [OF cU] by auto
  then show ?thesis
  proof cases
    case 1
    then show ?thesis
      unfolding poller_inv_def with_events_def updateChannel_def set_channel_def poller_update_def Let_def
      using K fd o m u cU by (auto simp: kernel_run_append ordered_put lookup_put dest: s s [OF _ sym])
  next
    case 2
    then show ?thesis
      unfolding poller_inv_def with_events_def updateChannel_def set_channel_def poller_update_def Let_def
      using K fd o m u cU by (auto simp: kernel_run_append dest: s s [OF _ sym])
  next
    case 3
    then show ?thesis
      unfolding poller_inv_def with_events_def updateChannel_def set_channel_def poller_update_def Let_def
      using K fd o m u cU by (auto simp: kernel_run_append dest: s s [OF _ sym]) (metis K(2) option.distinct(1))
  qed
qed

lemma removeChannel_inv:
  assumes P: "poller_inv fd U p" and c: "sole U p c"
  shows "poller_inv fd U (removeChannel c p)"
proof -
  let ?ch = "p_store p c"
  obtain K where K: "kernel_run (p_ctl p) Map.empty = Some K"
    "\<And>f e d. K f = Some (e, d) \<longleftrightarrow> d \<in> U \<and> f = fd d \<and> ch_index (p_store p d) = Added \<and> e = ch_events (p_store p d)"
    "K (fd c) = (if ch_index ?ch = Added then Some (ch_events ?ch, c) else None)"
    and o: "ordered (p_channels p)"
    and m: "\<And>f d. map_of (p_channels p) f = Some d \<longleftrightarrow> d \<in> U \<and> f = fd d \<and> ch_index (p_store p d) \<noteq> New"
    and u: "\<And>d. d \<in> U \<Longrightarrow> ch_fd (p_store p d) = fd d \<and> ch_index (p_store p d) \<in> {New, Added, Deleted}"
    and cU: "c \<in> U" and s: "\<And>d. d \<in> U \<Longrightarrow> fd d = fd c \<Longrightarrow> d = c \<or> ch_index (p_store p d) = New"
    using P c by (rule poller_invE) (rule that; assumption)
  have fd: "ch_fd ?ch = fd c" using u cU by blast
  have one: "ch_index ?ch = 1 \<longleftrightarrow> ch_index ?ch = Added" by (simp add: Added_def)
  show ?thesis
    unfolding poller_inv_def removeChannel_def set_channel_def poller_update_def Let_def one
    using K fd o m u cU by (auto simp: kernel_run_append ordered_del lookup_del dest: s s [OF _ sym])
qed

lemma fillActive_store:
  "(\<forall>d. ch_fd (p_store (snd (fillActiveChannels es p)) d) = ch_fd (p_store p d) \<and>
     ch_index (p_store (snd (fillActiveChannels es p)) d) = ch_index (p_store p d) \<and>
     ch_events (p_store (snd (fillActiveChannels es p)) d) = ch_events (p_store p d)) \<and>
   p_ctl (snd (fillActiveChannels es p)) = p_ctl p \<and> p_channels (snd (fillActiveChannels es p)) = p_channels p"
  by (induction es p rule: fillActiveChannels.induct)
    (auto simp: set_channel_def split_beta)

lemma poller_inv_same:
  "(\<forall>d. ch_fd (p_store q d) = ch_fd (p_store p d) \<and> ch_index (p_store q d) = ch_index (p_store p d) \<and>
      ch_events (p_store q d) = ch_events (p_store p d)) \<and> p_ctl q = p_ctl p \<and> p_channels q = p_channels p \<Longrightarrow>
    poller_inv fd U q = poller_inv fd U p"
  by (simp add: poller_inv_def)

lemma poll_inv: "poller_inv fd U p \<Longrightarrow> poller_inv fd U (snd (poll es p))"
proof -
  assume "poller_inv fd U p"
  then have "poller_inv fd U (snd (fillActiveChannels es p))"
    using poller_inv_same [OF fillActive_store] by blast
  then show ?thesis
    using poller_inv_same [of "snd (poll es p)" "snd (fillActiveChannels es p)"] by (auto simp: poll_def split_beta)
qed

lemma poller_step_inv: "poller_step U p q \<Longrightarrow> poller_inv fd U p \<Longrightarrow> poller_inv fd U q"
  by (induction rule: poller_step.induct)
    (auto simp: enableReading_def enableWriting_def disableWriting_def disableAll_def
      updateChannel_inv removeChannel_inv poll_inv)

lemma poller_reach_inv:
  assumes "(poller_step U)\<^sup>*\<^sup>* p q" "poller_inv fd U p"
  shows "poller_inv fd U q"
  using assms by (induction rule: rtranclp_induct) (auto intro: poller_step_inv)

lemma poller_init_inv:
  "(\<And>c. c \<in> U \<Longrightarrow> store c = channel_init (fd c)) \<Longrightarrow> poller_inv fd U (poller_init store)"
  by (auto simp: poller_inv_def poller_init_def channel_init_def New_def Added_def)

text \<open>With descriptors that are all different every operation on a channel is allowed.\<close>

lemma sole_inj: "poller_inv fd U p \<Longrightarrow> inj_on fd U \<Longrightarrow> c \<in> U \<Longrightarrow> sole U p c"
  by (auto simp: poller_inv_def sole_def inj_on_def)

end
