(* ===== verification/NetLoop.thy ===== *)
theory NetLoop
  imports Prelude
begin

text \<open>
  \<open>net/EventLoop\<close>: the queue of functors other threads and the loop's own handlers put in, and the
  wake-ups that keep the loop from sleeping on them; and \<open>net/EventLoopThreadPool\<close>, which deals
  out its loops in turn. What a functor queues when it runs is a parameter.
\<close>

section \<open>The state of a loop\<close>

text \<open>
  Where the loop's thread is: at the test of \<open>quit_\<close>, in \<open>epoll_wait\<close>, handling events, with functors
  left to run, or out of the loop.
\<close>

datatype 'f phase = Testing | Polling | Handling | Running "'f list" | Ended

text \<open>
  \<open>lp_wakes\<close> is the counter of the event descriptor, \<open>lp_waking\<close> the number of other threads that are
  inside \<open>queueInLoop\<close>, past the mutex and before \<open>weakup\<close>; \<open>lp_queued\<close> and \<open>lp_ran\<close> record what was
  queued and what was run.
\<close>

record 'f loop =
  lp_phase :: "'f phase"
  lp_pending :: "'f list"
  lp_calling :: bool
  lp_wakes :: nat
  lp_waking :: nat
  lp_quit :: bool
  lp_queued :: "'f list"
  lp_ran :: "'f list"

definition loop_init :: "'f loop" where
  "loop_init = \<lparr>lp_phase = Testing, lp_pending = [], lp_calling = False, lp_wakes = 0, lp_waking = 0,
     lp_quit = False, lp_queued = [], lp_ran = []\<rparr>"

definition weakup :: "'f loop \<Rightarrow> 'f loop" where
  "weakup lp = lp\<lparr>lp_wakes := Suc (lp_wakes lp)\<rparr>"

definition loop_handleRead :: "'f loop \<Rightarrow> 'f loop" where
  "loop_handleRead lp = lp\<lparr>lp_wakes := 0\<rparr>"

text \<open>\<open>queueInLoop\<close> pushes under the mutex, and tests and wakes when it has let go of it.\<close>

definition push_functor :: "'f \<Rightarrow> 'f loop \<Rightarrow> 'f loop" where
  "push_functor cb lp = lp\<lparr>lp_pending := lp_pending lp @ [cb], lp_queued := lp_queued lp @ [cb]\<rparr>"

definition wake_queued :: "bool \<Rightarrow> 'f loop \<Rightarrow> 'f loop" where
  "wake_queued in_loop_thread lp = (if \<not> in_loop_thread \<or> lp_calling lp then weakup lp else lp)"

definition queueInLoop :: "bool \<Rightarrow> 'f \<Rightarrow> 'f loop \<Rightarrow> 'f loop" where
  "queueInLoop in_loop_thread cb lp = wake_queued in_loop_thread (push_functor cb lp)"

text \<open>A functor that runs queues the functors \<open>spawn\<close> tells.\<close>

definition run_functor :: "('f \<Rightarrow> 'f list) \<Rightarrow> 'f \<Rightarrow> 'f loop \<Rightarrow> 'f loop" where
  "run_functor spawn f lp = fold (queueInLoop True) (spawn f) (lp\<lparr>lp_ran := lp_ran lp @ [f]\<rparr>)"

text \<open>\<open>runInLoop\<close>: at once in the loop's thread (which is no queued functor), queued from elsewhere.\<close>

definition runInLoop :: "('f \<Rightarrow> 'f list) \<Rightarrow> bool \<Rightarrow> 'f \<Rightarrow> 'f loop \<Rightarrow> 'f loop" where
  "runInLoop spawn in_loop_thread cb lp =
     (if in_loop_thread then fold (queueInLoop True) (spawn cb) lp else queueInLoop False cb lp)"

text \<open>\<open>doPendingFunctor\<close> begins by taking the queue over.\<close>

definition take_pending :: "'f loop \<Rightarrow> 'f loop" where
  "take_pending lp = lp\<lparr>lp_calling := True, lp_pending := [], lp_phase := Running (lp_pending lp)\<rparr>"

definition end_pending :: "'f loop \<Rightarrow> 'f loop" where
  "end_pending lp = lp\<lparr>lp_calling := False, lp_phase := Testing\<rparr>"

text \<open>All of it, when no other thread comes in between.\<close>

definition doPendingFunctor :: "('f \<Rightarrow> 'f list) \<Rightarrow> 'f loop \<Rightarrow> 'f loop" where
  "doPendingFunctor spawn lp = end_pending (fold (run_functor spawn) (lp_pending lp) (take_pending lp))"

definition loop_quit :: "'f loop \<Rightarrow> 'f loop" where
  "loop_quit lp = lp\<lparr>lp_quit := True\<rparr>"

section \<open>The loop and the other threads\<close>

text \<open>
  The body of \<open>loop()\<close> in its steps, any of which another thread's \<open>quit\<close> or one half of its
  \<open>queueInLoop\<close> may precede: the push, which the mutex makes one step, or the wake-up. The loop can leave
  \<open>epoll_wait\<close> at any time: for an event or after its timeout.
\<close>

inductive loop_step :: "('f \<Rightarrow> 'f list) \<Rightarrow> 'f loop \<Rightarrow> 'f loop \<Rightarrow> bool" for spawn where
  other_pushes: "loop_step spawn lp (push_functor f (lp\<lparr>lp_waking := Suc (lp_waking lp)\<rparr>))"
| other_wakes: "lp_waking lp = Suc n \<Longrightarrow> loop_step spawn lp (wake_queued False (lp\<lparr>lp_waking := n\<rparr>))"
| quit: "loop_step spawn lp (loop_quit lp)"
| stays: "lp_phase lp = Testing \<Longrightarrow> \<not> lp_quit lp \<Longrightarrow> loop_step spawn lp (lp\<lparr>lp_phase := Polling\<rparr>)"
| leaves: "lp_phase lp = Testing \<Longrightarrow> lp_quit lp \<Longrightarrow> loop_step spawn lp (lp\<lparr>lp_phase := Ended\<rparr>)"
| woken: "lp_phase lp = Polling \<Longrightarrow> loop_step spawn lp (lp\<lparr>lp_phase := Handling\<rparr>)"
| read_wakeup: "lp_phase lp = Handling \<Longrightarrow> loop_step spawn lp (loop_handleRead lp)"
| handler: "lp_phase lp = Handling \<Longrightarrow> loop_step spawn lp (runInLoop spawn True f lp)"
| handler_queues: "lp_phase lp = Handling \<Longrightarrow> loop_step spawn lp (queueInLoop True f lp)"
| begin_pending: "lp_phase lp = Handling \<Longrightarrow> loop_step spawn lp (take_pending lp)"
| run_next: "lp_phase lp = Running (f # fs) \<Longrightarrow> loop_step spawn lp (run_functor spawn f (lp\<lparr>lp_phase := Running fs\<rparr>))"
| done_pending: "lp_phase lp = Running [] \<Longrightarrow> loop_step spawn lp (end_pending lp)"

inductive_cases loop_stepE: "loop_step spawn lp lp'"

fun left_to_run :: "'f phase \<Rightarrow> 'f list" where
  "left_to_run (Running fs) = fs"
| "left_to_run _ = []"

definition loop_inv :: "'f loop \<Rightarrow> bool" where
  "loop_inv lp \<longleftrightarrow>
     lp_queued lp = lp_ran lp @ left_to_run (lp_phase lp) @ lp_pending lp \<and>
     (lp_calling lp \<longleftrightarrow> (\<exists>fs. lp_phase lp = Running fs)) \<and>
     (lp_phase lp \<noteq> Handling \<longrightarrow> lp_pending lp \<noteq> [] \<longrightarrow> 0 < lp_wakes lp \<or> 0 < lp_waking lp)"

lemma loop_init_inv: "loop_inv loop_init"
  by (simp add: loop_inv_def loop_init_def)

lemmas queue_defs = queueInLoop_def push_functor_def wake_queued_def weakup_def

lemma queue_phase [simp]:
  "lp_phase (queueInLoop b f lp) = lp_phase lp" "lp_calling (queueInLoop b f lp) = lp_calling lp"
  "lp_ran (queueInLoop b f lp) = lp_ran lp"
  "lp_queued (queueInLoop b f lp) = lp_queued lp @ [f]" "lp_pending (queueInLoop b f lp) = lp_pending lp @ [f]"
  by (simp_all add: queue_defs)

lemma queue_inv:
  "loop_inv lp \<Longrightarrow> \<not> b \<or> lp_phase lp \<notin> {Testing, Polling, Ended} \<Longrightarrow> loop_inv (queueInLoop b f lp)"
  by (cases "lp_phase lp") (auto simp: loop_inv_def queue_defs)

lemma queue_all_inv:
  "loop_inv lp \<Longrightarrow> lp_phase lp \<notin> {Testing, Polling, Ended} \<Longrightarrow> loop_inv (fold (queueInLoop True) fs lp)"
  by (induction fs arbitrary: lp) (auto simp: queue_inv)

lemma queue_all_fields:
  "lp_phase (fold (queueInLoop True) fs lp) = lp_phase lp"
  "lp_calling (fold (queueInLoop True) fs lp) = lp_calling lp"
  "lp_pending (fold (queueInLoop True) fs lp) = lp_pending lp @ fs"
  "lp_ran (fold (queueInLoop True) fs lp) = lp_ran lp"
  by (induction fs arbitrary: lp) simp_all

lemma run_inv:
  assumes "loop_inv lp" "lp_phase lp = Running (f # fs)"
  shows "loop_inv (run_functor spawn f (lp\<lparr>lp_phase := Running fs\<rparr>))"
  unfolding run_functor_def by (rule queue_all_inv) (use assms in \<open>auto simp: loop_inv_def\<close>)

lemma loop_step_inv: "loop_step spawn lp lp' \<Longrightarrow> loop_inv lp \<Longrightarrow> loop_inv lp'"
proof (induction rule: loop_step.induct)
  case (run_next lp f fs) then show ?case by (simp add: run_inv)
qed (auto simp: queue_inv queue_all_inv runInLoop_def,
    auto simp: loop_inv_def queue_defs loop_quit_def loop_handleRead_def take_pending_def end_pending_def)

lemma loop_reach_inv:
  assumes "(loop_step spawn)\<^sup>*\<^sup>* loop_init lp" shows "loop_inv lp"
  using assms by (induction rule: rtranclp_induct) (auto intro: loop_step_inv loop_init_inv)

text \<open>Run without interruption, \<open>doPendingFunctor\<close> runs what was queued, in order, and keeps the rest.\<close>

lemma run_all:
  "lp_ran (fold (run_functor spawn) fs lp) = lp_ran lp @ fs"
  "lp_pending (fold (run_functor spawn) fs lp) = lp_pending lp @ concat (map spawn fs)"
  "lp_calling (fold (run_functor spawn) fs lp) = lp_calling lp"
  by (induction fs arbitrary: lp) (simp_all add: run_functor_def queue_all_fields)

lemma doPending_ok:
  "lp_ran (doPendingFunctor spawn lp) = lp_ran lp @ lp_pending lp"
  "lp_pending (doPendingFunctor spawn lp) = concat (map spawn (lp_pending lp))"
  by (simp_all add: doPendingFunctor_def end_pending_def take_pending_def run_all)

section \<open>The pool of loops\<close>

record pool =
  pl_base :: nat
  pl_loops :: "nat list"
  pl_next :: nat
  pl_threads :: nat

definition pool_init :: "nat \<Rightarrow> pool" where
  "pool_init base = \<lparr>pl_base = base, pl_loops = [], pl_next = 0, pl_threads = 0\<rparr>"

definition setThreadNums :: "nat \<Rightarrow> pool \<Rightarrow> pool" where
  "setThreadNums n p = p\<lparr>pl_threads := n\<rparr>"

text \<open>\<open>start\<close>, with the loops the new threads made.\<close>

definition pool_start :: "(nat \<Rightarrow> nat) \<Rightarrow> pool \<Rightarrow> pool" where
  "pool_start started p = p\<lparr>pl_loops := pl_loops p @ map started [0..<pl_threads p]\<rparr>"

definition getNextLoop :: "pool \<Rightarrow> nat \<times> pool" where
  "getNextLoop p =
     (if pl_loops p \<noteq> [] then
        let l = pl_loops p ! pl_next p; n = Suc (pl_next p)
        in (l, p\<lparr>pl_next := (if length (pl_loops p) \<le> n then 0 else n)\<rparr>)
      else (pl_base p, p))"

fun next_loops :: "nat \<Rightarrow> pool \<Rightarrow> nat list" where
  "next_loops 0 p = []"
| "next_loops (Suc n) p = (let (l, p) = getNextLoop p in l # next_loops n p)"

lemma next_loops_round:
  assumes "pl_loops p \<noteq> []" "pl_next p < length (pl_loops p)"
  shows "next_loops n p = map (\<lambda>i. pl_loops p ! ((pl_next p + i) mod length (pl_loops p))) [0..<n]"
  using assms
proof (induction n arbitrary: p)
  case (Suc n)
  let ?m = "length (pl_loops p)"
  let ?q = "p\<lparr>pl_next := Suc (pl_next p) mod ?m\<rparr>"
  have g: "getNextLoop p = (pl_loops p ! pl_next p, ?q)"
    using Suc.prems by (auto simp: getNextLoop_def Let_def mod_less le_Suc_eq not_le)
  have "next_loops n ?q = map (\<lambda>i. pl_loops p ! ((Suc (pl_next p) mod ?m + i) mod ?m)) [0..<n]"
    using Suc.IH [of ?q] Suc.prems by simp
  then have "next_loops (Suc n) p = pl_loops p ! pl_next p # map (\<lambda>i. pl_loops p ! ((pl_next p + Suc i) mod ?m)) [0..<n]"
    by (simp add: g mod_simps)
  also have "\<dots> = map (\<lambda>i. pl_loops p ! ((pl_next p + i) mod ?m)) [0..<Suc n]"
    using Suc.prems by (simp add: upt_rec [of 0 "Suc n"] map_Suc_upt [symmetric] comp_def del: upt_Suc map_Suc_upt)
  finally show ?case .
qed simp

end
