(* ===== verification/NetTimer.thy ===== *)
theory NetTimer
  imports JsonDouble "HOL-Library.Product_Lexorder"
begin

text \<open>
  \<open>base/Timestamp.h\<close>, \<open>net/Timer\<close> and \<open>net/TimerQueue\<close>. A timer is known by its address, a number;
  the set of the queue is the list of its pairs of a time and an address, in their order. The
  effect a callback has on the queue is a parameter.
\<close>

section \<open>Timestamps\<close>

type_synonym timestamp = i64

definition kMicroSecondsPerSecond :: int where
  "kMicroSecondsPerSecond = 1000 * 1000"

definition valid_time :: "timestamp \<Rightarrow> bool" where
  "valid_time t \<longleftrightarrow> 0 <s t"

definition invalid_time :: timestamp where
  "invalid_time = 0"

definition time_less :: "timestamp \<Rightarrow> timestamp \<Rightarrow> bool" where
  "time_less l r \<longleftrightarrow> l <s r"

definition secondSinceEpoch :: "timestamp \<Rightarrow> int" where
  "secondSinceEpoch t = (if 0 \<le> sint t then sint t div kMicroSecondsPerSecond else - (- sint t div kMicroSecondsPerSecond))"

definition fromUnixTime :: "int \<Rightarrow> int \<Rightarrow> timestamp" where
  "fromUnixTime t microseconds = word_of_int (t * kMicroSecondsPerSecond + microseconds)"

text \<open>\<open>addTime\<close>: None where the conversion of the product to an integer is undefined.\<close>

definition addTime :: "timestamp \<Rightarrow> double \<Rightarrow> timestamp option" where
  "addTime t seconds =
     map_option (\<lambda>delta. t + delta) (double_to_int64 (double_mul seconds (double_of_int kMicroSecondsPerSecond)))"

section \<open>Timers\<close>

record timer =
  tm_callback :: nat
  tm_expiration :: timestamp
  tm_interval :: double
  tm_repeat :: bool

definition timer_init :: "nat \<Rightarrow> timestamp \<Rightarrow> double \<Rightarrow> timer" where
  "timer_init cb when' interval =
     \<lparr>tm_callback = cb, tm_expiration = when', tm_interval = interval, tm_repeat = double_gt0 interval\<rparr>"

definition restart :: "timestamp \<Rightarrow> timer \<Rightarrow> timer option" where
  "restart now tm =
     (if tm_repeat tm then map_option (\<lambda>t. tm\<lparr>tm_expiration := t\<rparr>) (addTime now (tm_interval tm))
      else Some (tm\<lparr>tm_expiration := invalid_time\<rparr>))"

section \<open>The queue\<close>

type_synonym entry = "int \<times> nat"

record timer_queue =
  tq_timers :: "entry list"
  tq_heap :: "nat \<rightharpoonup> timer"
  tq_armed :: "timestamp option"

definition queue_init :: timer_queue where
  "queue_init = \<lparr>tq_timers = [], tq_heap = Map.empty, tq_armed = None\<rparr>"

text \<open>\<open>howMuchTimeFromNow\<close>: seconds and nanoseconds, a hundred microseconds at least.\<close>

definition howMuchTimeFromNow :: "timestamp \<Rightarrow> timestamp \<Rightarrow> int \<times> int" where
  "howMuchTimeFromNow when' now =
     (let d = sint (when' - now); microseconds = (if d < 100 then 100 else d)
      in (microseconds div kMicroSecondsPerSecond, (microseconds mod kMicroSecondsPerSecond) * 1000))"

definition resetTimerfd :: "timestamp \<Rightarrow> timer_queue \<Rightarrow> timer_queue" where
  "resetTimerfd t q = q\<lparr>tq_armed := Some t\<rparr>"

text \<open>\<open>insert\<close>: whether the earliest time changed; an entry already there fails the assert.\<close>

definition timer_insert :: "nat \<Rightarrow> timer_queue \<Rightarrow> (unit, bool \<times> timer_queue) outcome" where
  "timer_insert t q =
     (case tq_heap q t of
        None \<Rightarrow> Abort
      | Some tm \<Rightarrow>
          let w = sint (tm_expiration tm);
              earliestChanged = (case tq_timers q of [] \<Rightarrow> True | e # _ \<Rightarrow> w < fst e)
          in require ((w, t) \<notin> set (tq_timers q))
               (Done (earliestChanged, q\<lparr>tq_timers := insort (w, t) (tq_timers q)\<rparr>)))"

definition addTimerInLoop :: "nat \<Rightarrow> timer_queue \<Rightarrow> (unit, timer_queue) outcome" where
  "addTimerInLoop t q =
     obind (timer_insert t q) (\<lambda>(earliestChanged, q).
       Done (case tq_heap q t of
               Some tm \<Rightarrow> if earliestChanged then resetTimerfd (tm_expiration tm) q else q
             | None \<Rightarrow> q))"

text \<open>\<open>addTimer\<close> makes the timer at a new address and adds it in the loop.\<close>

definition addTimer :: "nat \<Rightarrow> nat \<Rightarrow> timestamp \<Rightarrow> double \<Rightarrow> timer_queue \<Rightarrow> (unit, timer_queue) outcome" where
  "addTimer t cb when' interval q =
     addTimerInLoop t (q\<lparr>tq_heap := (tq_heap q)(t \<mapsto> timer_init cb when' interval)\<rparr>)"

definition UINTPTR_MAX :: nat where "UINTPTR_MAX = 2 ^ 64 - 1"

text \<open>\<open>lower_bound\<close> of an ordered set splits it before the first entry that is not smaller.\<close>

definition getExpired :: "timestamp \<Rightarrow> timer_queue \<Rightarrow> (unit, entry list \<times> timer_queue) outcome" where
  "getExpired now q =
     (let sentry = (sint now, UINTPTR_MAX);
          before = takeWhile (\<lambda>e. e < sentry) (tq_timers q);
          rest = dropWhile (\<lambda>e. e < sentry) (tq_timers q)
      in require (rest = [] \<or> sint now < fst (hd rest)) (Done (before, q\<lparr>tq_timers := rest\<rparr>)))"

fun reset_entries :: "timestamp \<Rightarrow> entry list \<Rightarrow> timer_queue \<Rightarrow> (unit, timer_queue) outcome" where
  "reset_entries now [] q = Done q"
| "reset_entries now ((w, t) # es) q =
     (case tq_heap q t of
        None \<Rightarrow> Abort
      | Some tm \<Rightarrow>
          if tm_repeat tm then
            (case restart now tm of
               None \<Rightarrow> Abort
             | Some tm' \<Rightarrow>
                 obind (timer_insert t (q\<lparr>tq_heap := (tq_heap q)(t \<mapsto> tm')\<rparr>)) (\<lambda>(_, q). reset_entries now es q))
          else reset_entries now es (q\<lparr>tq_heap := (tq_heap q)(t := None)\<rparr>))"

definition tq_reset :: "timestamp \<Rightarrow> entry list \<Rightarrow> timer_queue \<Rightarrow> (unit, timer_queue) outcome" where
  "tq_reset now expried q =
     obind (reset_entries now expried q) (\<lambda>q.
       let nextExpire = (case tq_timers q of
             [] \<Rightarrow> invalid_time
           | (w, t) # _ \<Rightarrow> (case tq_heap q t of Some tm \<Rightarrow> tm_expiration tm | None \<Rightarrow> invalid_time))
       in Done (if valid_time nextExpire then resetTimerfd nextExpire q else q))"

text \<open>The callbacks run in turn; \<open>effect\<close> is what the callback with a number does to the queue.\<close>

fun run_timers :: "(nat \<Rightarrow> timer_queue \<Rightarrow> timer_queue) \<Rightarrow> entry list \<Rightarrow> timer_queue \<Rightarrow> (unit, nat list \<times> timer_queue) outcome" where
  "run_timers effect [] q = Done ([], q)"
| "run_timers effect ((w, t) # es) q =
     (case tq_heap q t of
        None \<Rightarrow> Abort
      | Some tm \<Rightarrow> obind (run_timers effect es (effect (tm_callback tm) q)) (\<lambda>(cbs, q). Done (tm_callback tm # cbs, q)))"

definition timer_handleRead ::
    "(nat \<Rightarrow> timer_queue \<Rightarrow> timer_queue) \<Rightarrow> timestamp \<Rightarrow> timer_queue \<Rightarrow> (unit, nat list \<times> timer_queue) outcome" where
  "timer_handleRead effect now q =
     obind (getExpired now q) (\<lambda>(expried, q).
     obind (run_timers effect expried q) (\<lambda>(cbs, q).
     obind (tq_reset now expried q) (\<lambda>q. Done (cbs, q))))"

section \<open>Invariant\<close>

text \<open>The set is ordered, and each entry is a live timer under the time it expires, once.\<close>

definition tq_inv :: "timer_queue \<Rightarrow> bool" where
  "tq_inv q \<longleftrightarrow> sorted (tq_timers q) \<and> distinct (map snd (tq_timers q)) \<and>
     (\<forall>(w, t)\<in>set (tq_timers q). t < UINTPTR_MAX \<and> (\<exists>tm. tq_heap q t = Some tm \<and> w = sint (tm_expiration tm)))"

lemma queue_init_inv: "tq_inv queue_init"
  by (simp add: tq_inv_def queue_init_def)

lemma insert_ok:
  assumes "tq_inv q" "tq_heap q t = Some tm" "t \<notin> snd ` set (tq_timers q)" "t < UINTPTR_MAX"
  shows "\<exists>ch. timer_insert t q = Done (ch, q\<lparr>tq_timers := insort (sint (tm_expiration tm), t) (tq_timers q)\<rparr>)"
    "tq_inv (q\<lparr>tq_timers := insort (sint (tm_expiration tm), t) (tq_timers q)\<rparr>)"
proof -
  have "(sint (tm_expiration tm), t) \<notin> set (tq_timers q)" using assms(3) by force
  then show "\<exists>ch. timer_insert t q = Done (ch, q\<lparr>tq_timers := insort (sint (tm_expiration tm), t) (tq_timers q)\<rparr>)"
    using assms(2) by (simp add: timer_insert_def Let_def)
  have "distinct (map snd (insort e es)) \<longleftrightarrow> snd e \<notin> snd ` set es \<and> distinct (map snd es)" for e and es :: "entry list"
    by (induction es) (auto simp: set_insort_key)
  then show "tq_inv (q\<lparr>tq_timers := insort (sint (tm_expiration tm), t) (tq_timers q)\<rparr>)"
    using assms by (auto simp: tq_inv_def set_insort_key sorted_insort)
qed

lemma addTimer_ok:
  assumes "tq_inv q" "tq_heap q t = None" "t < UINTPTR_MAX"
  shows "\<exists>q'. addTimer t cb w i q = Done q' \<and> tq_inv q' \<and> tq_heap q' = (tq_heap q)(t \<mapsto> timer_init cb w i) \<and>
    tq_timers q' = insort (sint w, t) (tq_timers q)"
proof -
  let ?q = "q\<lparr>tq_heap := (tq_heap q)(t \<mapsto> timer_init cb w i)\<rparr>"
  have n: "t \<notin> snd ` set (tq_timers q)" using assms(1,2) by (force simp: tq_inv_def)
  then have inv: "tq_inv ?q" using assms(1) by (force simp: tq_inv_def)
  have h: "tq_heap ?q t = Some (timer_init cb w i)" by simp
  from insert_ok [OF inv h _ assms(3)] n obtain ch where
    "timer_insert t ?q = Done (ch, ?q\<lparr>tq_timers := insort (sint w, t) (tq_timers q)\<rparr>)"
    "tq_inv (?q\<lparr>tq_timers := insort (sint w, t) (tq_timers q)\<rparr>)"
    by (auto simp: timer_init_def)
  then show ?thesis
    by (auto simp: addTimer_def addTimerInLoop_def resetTimerfd_def tq_inv_def)
qed

text \<open>What has expired, in order; the assert on what is left never fails.\<close>

lemma before_sentry:
  "t < UINTPTR_MAX \<Longrightarrow> (w, t) < (sint now, UINTPTR_MAX) \<longleftrightarrow> w \<le> sint now"
  by auto

lemma sorted_split:
  assumes "sorted es" "\<And>e. e \<in> set es \<Longrightarrow> P e \<longleftrightarrow> Q e" "\<And>e e'. e \<le> e' \<Longrightarrow> P e' \<Longrightarrow> P e"
  shows "takeWhile P es = filter Q es \<and> dropWhile P es = filter (\<lambda>e. \<not> Q e) es"
  using assms(1,2)
proof (induction es)
  case (Cons e es)
  show ?case
  proof (cases "P e")
    case True with Cons show ?thesis by auto
  next
    case False
    with Cons.prems(1) assms(3) have "\<forall>e'\<in>set es. \<not> P e'" by auto
    with Cons.prems(2) False show ?thesis by (auto simp: filter_empty_conv filter_id_conv)
  qed
qed simp

lemma getExpired_ok:
  assumes "tq_inv q"
  shows "getExpired now q =
    Done (filter (\<lambda>e. fst e \<le> sint now) (tq_timers q), q\<lparr>tq_timers := filter (\<lambda>e. sint now < fst e) (tq_timers q)\<rparr>)"
proof -
  let ?P = "\<lambda>e. e < (sint now, UINTPTR_MAX)"
  have split: "takeWhile ?P (tq_timers q) = filter (\<lambda>e. fst e \<le> sint now) (tq_timers q) \<and>
      dropWhile ?P (tq_timers q) = filter (\<lambda>e. \<not> fst e \<le> sint now) (tq_timers q)"
  proof (rule sorted_split)
    show "sorted (tq_timers q)" using assms by (simp add: tq_inv_def)
    show "?P e \<longleftrightarrow> fst e \<le> sint now" if "e \<in> set (tq_timers q)" for e
      using assms that before_sentry by (cases e) (auto simp: tq_inv_def)
    show "?P e" if "e \<le> e'" "?P e'" for e e' using that by (rule le_less_trans)
  qed
  have "filter (\<lambda>e. sint now < fst e) es = [] \<or> sint now < fst (hd (filter (\<lambda>e. sint now < fst e) es))"
    for es :: "entry list"
    by (induction es) auto
  then show ?thesis
    unfolding getExpired_def Let_def split [THEN conjunct1] split [THEN conjunct2] not_le by (simp only: require_True)
qed

text \<open>The expired timers, once taken out: those that repeat go back in, the others are deleted.\<close>

definition next_time :: "timestamp \<Rightarrow> timer \<Rightarrow> timestamp" where
  "next_time now tm = (case addTime now (tm_interval tm) of Some t \<Rightarrow> t | None \<Rightarrow> 0)"

definition rearmed :: "timestamp \<Rightarrow> entry list \<Rightarrow> timer_queue \<Rightarrow> timer_queue \<Rightarrow> bool" where
  "rearmed now es q q' \<longleftrightarrow> tq_inv q' \<and>
    (\<forall>t tm. t \<in> snd ` set es \<longrightarrow> tq_heap q t = Some tm \<longrightarrow>
      tq_heap q' t = (if tm_repeat tm then Some (tm\<lparr>tm_expiration := next_time now tm\<rparr>) else None) \<and>
      (tm_repeat tm \<longrightarrow> (sint (next_time now tm), t) \<in> set (tq_timers q'))) \<and>
    (\<forall>t. t \<notin> snd ` set es \<longrightarrow> tq_heap q' t = tq_heap q t) \<and>
    set (tq_timers q) \<subseteq> set (tq_timers q') \<and> snd ` set (tq_timers q') \<subseteq> snd ` set (tq_timers q) \<union> snd ` set es"

text \<open>One entry put back or deleted, then the rest.\<close>

lemma rearmed_Cons:
  assumes "rearmed now es r q'" "tq_heap q t = Some tm" "t \<notin> snd ` set es"
    and "tq_heap r = (tq_heap q)(t := (if tm_repeat tm then Some (tm\<lparr>tm_expiration := next_time now tm\<rparr>) else None))"
    and "tq_timers r = (if tm_repeat tm then insort (sint (next_time now tm), t) (tq_timers q) else tq_timers q)"
  shows "rearmed now ((w, t) # es) q q'"
  unfolding rearmed_def
proof (intro conjI allI impI)
  have R: "\<And>u um. u \<in> snd ` set es \<Longrightarrow> tq_heap r u = Some um \<Longrightarrow>
      tq_heap q' u = (if tm_repeat um then Some (um\<lparr>tm_expiration := next_time now um\<rparr>) else None)"
    "\<And>u um. u \<in> snd ` set es \<Longrightarrow> tq_heap r u = Some um \<Longrightarrow> tm_repeat um \<Longrightarrow>
      (sint (next_time now um), u) \<in> set (tq_timers q')"
    "\<And>u. u \<notin> snd ` set es \<Longrightarrow> tq_heap q' u = tq_heap r u" "set (tq_timers r) \<subseteq> set (tq_timers q')"
    using assms(1) unfolding rearmed_def by blast+
  fix u um assume u: "u \<in> snd ` set ((w, t) # es)" "tq_heap q u = Some um"
  have other: "u \<noteq> t \<Longrightarrow> u \<in> snd ` set es \<and> tq_heap r u = Some um" using u assms(4) by auto
  have this_one: "u = t \<Longrightarrow> um = tm \<and> tq_heap q' u = tq_heap r u" using u(2) assms(2,3) R(3) by simp
  show "tq_heap q' u = (if tm_repeat um then Some (um\<lparr>tm_expiration := next_time now um\<rparr>) else None)"
  proof (cases "u = t")
    case True with this_one assms(4) show ?thesis by simp
  next
    case False with other R(1) show ?thesis by blast
  qed
  assume "tm_repeat um"
  show "(sint (next_time now um), u) \<in> set (tq_timers q')"
  proof (cases "u = t")
    case True
    with this_one \<open>tm_repeat um\<close> assms(5) have "(sint (next_time now um), u) \<in> set (tq_timers r)"
      by (simp add: set_insort_key)
    with R(4) show ?thesis by blast
  next
    case False
    with other \<open>tm_repeat um\<close> R(2) show ?thesis by blast
  qed
next
  show "tq_inv q'" using assms(1) by (simp add: rearmed_def)
  have sub: "set (tq_timers r) \<subseteq> set (tq_timers q')" "snd ` set (tq_timers q') \<subseteq> snd ` set (tq_timers r) \<union> snd ` set es"
    using assms(1) by (simp_all add: rearmed_def)
  have r: "set (tq_timers q) \<subseteq> set (tq_timers r)" "snd ` set (tq_timers r) \<subseteq> insert t (snd ` set (tq_timers q))"
    using assms(5) by (auto simp: set_insort_key)
  show "set (tq_timers q) \<subseteq> set (tq_timers q')" using sub(1) r(1) by (rule subset_trans [rotated])
  show "snd ` set (tq_timers q') \<subseteq> snd ` set (tq_timers q) \<union> snd ` set ((w, t) # es)" using sub(2) r(2) by auto
next
  fix u assume "u \<notin> snd ` set ((w, t) # es)"
  then have "u \<notin> snd ` set es" "u \<noteq> t" by auto
  then show "tq_heap q' u = tq_heap q u" using assms(1,4) by (simp add: rearmed_def)
qed

definition due :: "timestamp \<Rightarrow> entry list \<Rightarrow> timer_queue \<Rightarrow> bool" where
  "due now es q \<longleftrightarrow> distinct (map snd es) \<and> snd ` set es \<inter> snd ` set (tq_timers q) = {} \<and>
    (\<forall>(w, t)\<in>set es. t < UINTPTR_MAX \<and>
      (\<exists>tm. tq_heap q t = Some tm \<and> (tm_repeat tm \<longrightarrow> addTime now (tm_interval tm) \<noteq> None)))"

lemma reset_entries_ok: "tq_inv q \<Longrightarrow> due now es q \<Longrightarrow> \<exists>q'. reset_entries now es q = Done q' \<and> rearmed now es q q'"
proof (induction es arbitrary: q)
  case (Cons e es)
  obtain w t where e: "e = (w, t)" by fastforce
  obtain tm where tm: "tq_heap q t = Some tm" "tm_repeat tm \<longrightarrow> addTime now (tm_interval tm) \<noteq> None" "t < UINTPTR_MAX"
    using Cons.prems(2) e by (auto simp: due_def)
  have t: "t \<notin> snd ` set es" "t \<notin> snd ` set (tq_timers q)" using Cons.prems(2) e by (auto simp: due_def)
  let ?tm = "tm\<lparr>tm_expiration := next_time now tm\<rparr>"
  let ?h = "if tm_repeat tm then Some ?tm else None"
  let ?ts = "if tm_repeat tm then insort (sint (next_time now tm), t) (tq_timers q) else tq_timers q"
  let ?r = "q\<lparr>tq_heap := (tq_heap q)(t := ?h), tq_timers := ?ts\<rparr>"
  have inv: "tq_inv (q\<lparr>tq_heap := (tq_heap q)(t := ?h)\<rparr>)" using Cons.prems(1) t(2) by (force simp: tq_inv_def)
  have ins: "tm_repeat tm \<Longrightarrow> \<exists>ch. timer_insert t (q\<lparr>tq_heap := (tq_heap q)(t := ?h)\<rparr>) = Done (ch, ?r)"
    and r: "tq_inv ?r"
    using insert_ok [OF inv _ _ tm(3), of ?tm] t(2) inv by auto
  have step: "reset_entries now (e # es) q = reset_entries now es ?r"
    using tm ins e by (cases "tm_repeat tm") (auto simp: restart_def next_time_def)
  have "due now es ?r"
    using Cons.prems(2) t e unfolding due_def by (force simp: set_insort_key)
  from Cons.IH [OF r this] obtain q' where "reset_entries now es ?r = Done q'" "rearmed now es ?r q'" by blast
  then show ?case
    using step rearmed_Cons [OF _ tm(1) t(1), of now ?r q' w] e by auto
qed (simp add: rearmed_def)

lemma tq_reset_ok:
  assumes "tq_inv q" "due now es q"
  shows "\<exists>q'. tq_reset now es q = Done q' \<and> rearmed now es q q'"
proof -
  from reset_entries_ok [OF assms] obtain q' where q': "reset_entries now es q = Done q'" "rearmed now es q q'" by blast
  have "rearmed now es q (resetTimerfd w q')" for w
    using q'(2) by (simp add: rearmed_def resetTimerfd_def tq_inv_def)
  with q' show ?thesis by (simp add: tq_reset_def Let_def)
qed

section \<open>A timer event\<close>

text \<open>What a callback may do to the queue: add timers, at new addresses.\<close>

definition adds_timers :: "(nat \<Rightarrow> timer_queue \<Rightarrow> timer_queue) \<Rightarrow> bool" where
  "adds_timers effect \<longleftrightarrow> (\<forall>cb q. tq_inv q \<longrightarrow> tq_inv (effect cb q) \<and> tq_heap q \<subseteq>\<^sub>m tq_heap (effect cb q) \<and>
     set (tq_timers q) \<subseteq> set (tq_timers (effect cb q)) \<and>
     snd ` set (tq_timers (effect cb q)) \<subseteq> snd ` set (tq_timers q) \<union> - dom (tq_heap q))"

lemma run_timers_ok:
  assumes "adds_timers effect" "tq_inv q" "\<forall>(w, t)\<in>set es. tq_heap q t \<noteq> None"
  shows "\<exists>q'. run_timers effect es q = Done (map (\<lambda>e. tm_callback (the (tq_heap q (snd e)))) es, q') \<and>
    tq_inv q' \<and> tq_heap q \<subseteq>\<^sub>m tq_heap q' \<and> set (tq_timers q) \<subseteq> set (tq_timers q') \<and>
    snd ` set (tq_timers q') \<subseteq> snd ` set (tq_timers q) \<union> - dom (tq_heap q)"
  using assms(2,3)
proof (induction es arbitrary: q)
  case (Cons e es)
  obtain w t tm where e: "e = (w, t)" "tq_heap q t = Some tm" using Cons.prems(2) by (cases e) auto
  let ?r = "effect (tm_callback tm) q"
  have r: "tq_inv ?r" "tq_heap q \<subseteq>\<^sub>m tq_heap ?r" "set (tq_timers q) \<subseteq> set (tq_timers ?r)"
    "snd ` set (tq_timers ?r) \<subseteq> snd ` set (tq_timers q) \<union> - dom (tq_heap q)"
    using assms(1) Cons.prems(1) by (auto simp: adds_timers_def)
  have heap: "tq_heap q t \<noteq> None \<Longrightarrow> tq_heap ?r t = tq_heap q t" for t using r(2) by (force simp: map_le_def)
  have "\<forall>(w, t)\<in>set es. tq_heap ?r t \<noteq> None" using Cons.prems(2) heap by fastforce
  from Cons.IH [OF r(1) this] obtain q' where q': "run_timers effect es ?r = Done (map (\<lambda>e. tm_callback (the (tq_heap ?r (snd e)))) es, q')"
    "tq_inv q'" "tq_heap ?r \<subseteq>\<^sub>m tq_heap q'" "set (tq_timers ?r) \<subseteq> set (tq_timers q')"
    "snd ` set (tq_timers q') \<subseteq> snd ` set (tq_timers ?r) \<union> - dom (tq_heap ?r)" by blast
  have "map (\<lambda>e. tm_callback (the (tq_heap ?r (snd e)))) es = map (\<lambda>e. tm_callback (the (tq_heap q (snd e)))) es"
    using Cons.prems(2) heap by (intro map_cong) fastforce+
  moreover have "tq_heap q \<subseteq>\<^sub>m tq_heap q'" using r(2) q'(3) by (rule map_le_trans)
  moreover have "- dom (tq_heap ?r) \<subseteq> - dom (tq_heap q)" using map_le_implies_dom_le [OF r(2)] by blast
  moreover from this have "snd ` set (tq_timers q') \<subseteq> snd ` set (tq_timers q) \<union> - dom (tq_heap q)" using q'(5) r(4) by blast
  moreover have "set (tq_timers q) \<subseteq> set (tq_timers q')" using r(3) q'(4) by (rule subset_trans)
  ultimately show ?case using e q'(1,2) by simp
qed auto

text \<open>
  A timer event runs the callbacks of all timers that have expired, in the order of their times,
  and fails no assert; the queue is left in order.
\<close>

lemma timer_event:
  assumes "adds_timers effect" "tq_inv q"
    and "\<forall>t tm. tq_heap q t = Some tm \<longrightarrow> tm_repeat tm \<longrightarrow> addTime now (tm_interval tm) \<noteq> None"
  shows "\<exists>q'. timer_handleRead effect now q =
      Done (map (\<lambda>e. tm_callback (the (tq_heap q (snd e)))) (filter (\<lambda>e. fst e \<le> sint now) (tq_timers q)), q') \<and> tq_inv q' \<and>
    (\<forall>(w, t)\<in>set (tq_timers q). \<forall>tm. w \<le> sint now \<longrightarrow> tq_heap q t = Some tm \<longrightarrow>
      tq_heap q' t = (if tm_repeat tm then Some (tm\<lparr>tm_expiration := next_time now tm\<rparr>) else None) \<and>
      (tm_repeat tm \<longrightarrow> (sint (next_time now tm), t) \<in> set (tq_timers q')))"
proof -
  let ?es = "filter (\<lambda>e. fst e \<le> sint now) (tq_timers q)"
  let ?q = "q\<lparr>tq_timers := filter (\<lambda>e. sint now < fst e) (tq_timers q)\<rparr>"
  have es: "\<forall>(w, t)\<in>set ?es. t < UINTPTR_MAX \<and> tq_heap q t \<noteq> None" "distinct (map snd ?es)"
    using assms(2) by (auto simp: tq_inv_def distinct_map_filter)
  have "t \<notin> snd ` set (tq_timers ?q)" if t: "t \<in> snd ` set ?es" for t
  proof
    assume "t \<in> snd ` set (tq_timers ?q)"
    with t obtain w w' where "(w, t) \<in> set (tq_timers q)" "(w', t) \<in> set (tq_timers q)" "w \<le> sint now" "sint now < w'" by auto
    moreover have "inj_on snd (set (tq_timers q))" using assms(2) by (simp add: tq_inv_def distinct_map)
    ultimately show False using inj_onD [of snd "set (tq_timers q)" "(w, t)" "(w', t)"] by simp
  qed
  then have dis: "snd ` set ?es \<inter> snd ` set (tq_timers ?q) = {}" by blast
  have q: "tq_inv ?q" using assms(2) by (auto simp: tq_inv_def sorted_wrt_filter distinct_map_filter)
  from run_timers_ok [OF assms(1) q, of ?es] es obtain q' where
    q': "run_timers effect ?es ?q = Done (map (\<lambda>e. tm_callback (the (tq_heap q (snd e)))) ?es, q')" "tq_inv q'"
      "tq_heap q \<subseteq>\<^sub>m tq_heap q'" "snd ` set (tq_timers q') \<subseteq> snd ` set (tq_timers ?q) \<union> - dom (tq_heap q)" by auto
  have "due now ?es q'"
    unfolding due_def
  proof (intro conjI)
    have "snd ` set ?es \<subseteq> dom (tq_heap q)" using es(1) by force
    then show "snd ` set ?es \<inter> snd ` set (tq_timers q') = {}" using q'(4) dis by blast
    show "\<forall>(w, t)\<in>set ?es. t < UINTPTR_MAX \<and>
        (\<exists>tm. tq_heap q' t = Some tm \<and> (tm_repeat tm \<longrightarrow> addTime now (tm_interval tm) \<noteq> None))"
      using es(1) q'(3) assms(3) by (fastforce simp: map_le_def dom_def)
  qed (rule es(2))
  from tq_reset_ok [OF q'(2) this] obtain q'' where "tq_reset now ?es q' = Done q''" and re: "rearmed now ?es q' q''" by blast
  have again: "tq_heap q'' t = (if tm_repeat tm then Some (tm\<lparr>tm_expiration := next_time now tm\<rparr>) else None) \<and>
      (tm_repeat tm \<longrightarrow> (sint (next_time now tm), t) \<in> set (tq_timers q''))"
    if "(w, t) \<in> set (tq_timers q)" "w \<le> sint now" "tq_heap q t = Some tm" for w t tm
  proof -
    have "t \<in> snd ` set ?es" using that(1,2) by force
    moreover have "tq_heap q' t = Some tm" using q'(3) that(3) by (force simp: map_le_def)
    ultimately show ?thesis using re by (simp add: rearmed_def)
  qed
  have "timer_handleRead effect now q = Done (map (\<lambda>e. tm_callback (the (tq_heap q (snd e)))) ?es, q'')"
    using q'(1) \<open>tq_reset now ?es q' = Done q''\<close> by (simp add: timer_handleRead_def getExpired_ok [OF assms(2)])
  moreover have "tq_inv q''" using re by (simp add: rearmed_def)
  ultimately show ?thesis using again by blast
qed

text \<open>The time a descriptor is armed with is positive and its nanoseconds are in range.\<close>

lemma howMuchTime_bounds:
  "howMuchTimeFromNow w now = (s, ns) \<Longrightarrow> 0 \<le> s \<and> 0 \<le> ns \<and> ns < 10 ^ 9 \<and> (0 < s \<or> 100000 \<le> ns)"
proof -
  have "0 \<le> d div 1000000 \<and> 0 \<le> d mod 1000000 * 1000 \<and> d mod 1000000 * 1000 < 10 ^ 9 \<and>
      (0 < d div 1000000 \<or> 100000 \<le> d mod 1000000 * 1000)" if "100 \<le> d" for d :: int
  proof (cases "d < 1000000")
    case False
    then have "0 < d div 1000000" by (simp add: pos_imp_zdiv_pos_iff)
    then show ?thesis by simp
  qed (use that in simp)
  from this [of "sint (w - now)"] show "howMuchTimeFromNow w now = (s, ns) \<Longrightarrow> ?thesis"
    by (auto simp: howMuchTimeFromNow_def kMicroSecondsPerSecond_def Let_def not_less split: if_splits)
qed

end
