(* ===== verification/NetTcp.thy ===== *)
theory NetTcp
  imports NetBuffer NetPoller
begin

text \<open>
  \<open>net/TcpConnection\<close>: a connection with its state, its buffers and the functors other threads have
  queued for it. What the system calls return is a parameter; \<open>cn_sent\<close> are the bytes the
  kernel took, in order, and \<open>cn_calls\<close> the user's callbacks called.
\<close>

section \<open>Connections\<close>

datatype conn_state = Connecting | Connected | Disconnecting | Disconnected

datatype conn_callback = ConnectionCb | MessageCb int | CloseCb | WriteCompleteCb | HighWaterMarkCb nat

datatype conn_functor = FSend string | FShutdown | FClose | FCall conn_callback

record conn =
  cn_state :: conn_state
  cn_channel :: channel
  cn_in :: buffer
  cn_out :: buffer
  cn_highWaterMark :: nat
  cn_writeComplete :: bool
  cn_highWater :: bool
  cn_queue :: "conn_functor list"
  cn_sent :: string
  cn_shut :: bool
  cn_calls :: "conn_callback list"

text \<open>The constructor leaves \<open>state_\<close> undefined; it is set before it is read.\<close>

definition conn_init :: "int \<Rightarrow> conn" where
  "conn_init fd =
     \<lparr>cn_state = Connecting,
      cn_channel = fold set_callback [ReadCallback, WriteCallback, CloseCallback, ErrorCallback] (channel_init fd),
      cn_in = buffer_init, cn_out = buffer_init, cn_highWaterMark = 64 * 1024 * 1024,
      cn_writeComplete = False, cn_highWater = False, cn_queue = [], cn_sent = [], cn_shut = False, cn_calls = []\<rparr>"

definition conn_writing :: "conn \<Rightarrow> bool" where
  "conn_writing c \<longleftrightarrow> isWriting (cn_channel c)"

definition conn_enableWriting :: "conn \<Rightarrow> conn" where
  "conn_enableWriting c = c\<lparr>cn_channel := (cn_channel c)\<lparr>ch_events := ch_events (cn_channel c) OR WriteEventFlag\<rparr>\<rparr>"

definition conn_disableWriting :: "conn \<Rightarrow> conn" where
  "conn_disableWriting c = c\<lparr>cn_channel := (cn_channel c)\<lparr>ch_events := ch_events (cn_channel c) AND NOT WriteEventFlag\<rparr>\<rparr>"

definition conn_enableReading :: "conn \<Rightarrow> conn" where
  "conn_enableReading c = c\<lparr>cn_channel := (cn_channel c)\<lparr>ch_events := ch_events (cn_channel c) OR ReadEventFlag\<rparr>\<rparr>"

definition conn_call :: "conn_callback \<Rightarrow> conn \<Rightarrow> conn" where
  "conn_call cb c = c\<lparr>cn_calls := cn_calls c @ [cb]\<rparr>"

definition conn_queue :: "conn_functor \<Rightarrow> conn \<Rightarrow> conn" where
  "conn_queue f c = c\<lparr>cn_queue := cn_queue c @ [f]\<rparr>"

definition connectEstablished :: "conn \<Rightarrow> conn" where
  "connectEstablished c = conn_call ConnectionCb (conn_enableReading (c\<lparr>cn_state := Connected\<rparr>))"

definition connectDestroyed :: "conn \<Rightarrow> conn" where
  "connectDestroyed c = conn_call ConnectionCb (c\<lparr>cn_state := Disconnected\<rparr>)"

definition connected :: "conn \<Rightarrow> bool" where
  "connected c \<longleftrightarrow> cn_state c = Connected"

text \<open>\<open>handleClose\<close>; \<open>disableAll\<close> changes nothing.\<close>

definition conn_handleClose :: "conn \<Rightarrow> (unit, conn) outcome" where
  "conn_handleClose c = require (cn_state c = Connected \<or> cn_state c = Disconnecting) (Done (conn_call CloseCb c))"

definition conn_handleRead :: "int + string \<Rightarrow> conn \<Rightarrow> (unit, conn) outcome" where
  "conn_handleRead readv c =
     (let (n, err, b) = readFd readv (cn_in c); c = c\<lparr>cn_in := b\<rparr> in
      if n > 0 then Done (conn_call (MessageCb n) c)
      else if n = 0 then conn_handleClose c
      else Done c)"

definition shutdownInLoop :: "conn \<Rightarrow> conn" where
  "shutdownInLoop c = (if \<not> conn_writing c then c\<lparr>cn_shut := True\<rparr> else c)"

text \<open>The part of \<open>sendInLoop\<close> that keeps what was not written: it is there twice.\<close>

definition keep_rest :: "nat \<Rightarrow> string \<Rightarrow> conn \<Rightarrow> conn" where
  "keep_rest n message c =
     (let c = c\<lparr>cn_out := append_bytes (drop n message) (cn_out c)\<rparr>
      in if \<not> conn_writing c then conn_enableWriting c else c)"

text \<open>\<open>sendInLoop\<close>; \<open>wr\<close> is what \<open>write\<close> returns, if it is called.\<close>

definition sendInLoop :: "int \<Rightarrow> string \<Rightarrow> conn \<Rightarrow> conn" where
  "sendInLoop wr message c =
     (let len = length message;
          direct = (\<not> conn_writing c \<and> readableBytes (cn_out c) = 0);
          n = (if direct \<and> 0 \<le> wr then nat wr else 0);
          remaining = len - n;
          c = (if direct \<and> 0 \<le> wr then
                 (let c = c\<lparr>cn_sent := cn_sent c @ take n message\<rparr>
                  in if remaining = 0 \<and> cn_writeComplete c then conn_queue (FCall WriteCompleteCb) c else c)
               else c);
          c = (if remaining > 0 then
                 (let oldLen = readableBytes (cn_out c);
                      c = (if oldLen + remaining > cn_highWaterMark c \<and> oldLen < cn_highWaterMark c \<and> cn_highWater c
                           then conn_queue (FCall (HighWaterMarkCb (oldLen + remaining))) c else c)
                  in keep_rest n message c)
               else c)
      in if n < length message then keep_rest n message c else c)"

definition send :: "bool \<Rightarrow> int \<Rightarrow> string \<Rightarrow> conn \<Rightarrow> conn" where
  "send in_loop_thread wr message c =
     (if cn_state c = Connected then
        if in_loop_thread then sendInLoop wr message c else conn_queue (FSend message) c
      else c)"

definition conn_handleWrite :: "int \<Rightarrow> conn \<Rightarrow> conn" where
  "conn_handleWrite wr c =
     (if conn_writing c then
        if wr > 0 then
          (let c = c\<lparr>cn_sent := cn_sent c @ take (nat wr) (content (cn_out c)), cn_out := retrieve (nat wr) (cn_out c)\<rparr> in
           if readableBytes (cn_out c) = 0 then
             (let c = conn_disableWriting c in if cn_state c = Disconnecting then shutdownInLoop c else c)
           else c)
        else c
      else c)"

definition conn_shutdown :: "bool \<Rightarrow> conn \<Rightarrow> conn" where
  "conn_shutdown in_loop_thread c =
     (if cn_state c = Connected then
        let c = c\<lparr>cn_state := Disconnecting\<rparr>
        in if in_loop_thread then shutdownInLoop c else conn_queue FShutdown c
      else c)"

definition forceClose :: "conn \<Rightarrow> conn" where
  "forceClose c = conn_queue FClose c"

text \<open>A queued functor runs in the loop.\<close>

fun conn_run :: "int \<Rightarrow> conn_functor \<Rightarrow> conn \<Rightarrow> (unit, conn) outcome" where
  "conn_run wr (FSend m) c = Done (sendInLoop wr m c)"
| "conn_run wr FShutdown c = Done (shutdownInLoop c)"
| "conn_run wr FClose c = conn_handleClose c"
| "conn_run wr (FCall cb) c = Done (conn_call cb c)"

section \<open>A connection among its events\<close>

text \<open>
  \<open>write\<close> returns at most the number of bytes it was given. The message callback may take any part
  of the input. A step is labelled with what it did with a message: passed it to \<open>sendInLoop\<close> at
  once, handed it to the loop from another thread, or ran the functor with one that was handed. With a
  message that reaches \<open>sendInLoop\<close> goes the number of its bytes that \<open>write\<close> took directly.
\<close>

datatype conn_label = Quiet | Sends string nat | Hands string | Runs string nat

definition taken :: "int \<Rightarrow> conn \<Rightarrow> nat" where
  "taken wr c = (if \<not> conn_writing c \<and> content (cn_out c) = [] then nat wr else 0)"

fun run_label :: "int \<Rightarrow> conn \<Rightarrow> conn_functor \<Rightarrow> conn_label" where
  "run_label wr c (FSend m) = Runs m (taken wr c)"
| "run_label wr c _ = Quiet"

inductive conn_does :: "conn_label \<Rightarrow> conn \<Rightarrow> conn \<Rightarrow> bool" where
  established: "cn_state c = Connecting \<Longrightarrow> conn_does Quiet c (connectEstablished c)"
| sent_here: "wr \<le> int (length m) \<Longrightarrow>
    conn_does (if connected c then Sends m (taken wr c) else Quiet) c (send True wr m c)"
| sent_elsewhere: "conn_does (if connected c then Hands m else Quiet) c (send False 0 m c)"
| shut_down: "conn_does Quiet c (conn_shutdown in_loop_thread c)"
| force_closed: "conn_does Quiet c (forceClose c)"
| functor_run: "cn_queue c = f # fs \<Longrightarrow> (\<And>m. f = FSend m \<Longrightarrow> wr \<le> int (length m)) \<Longrightarrow>
    conn_run wr f (c\<lparr>cn_queue := fs\<rparr>) = Done c' \<Longrightarrow> conn_does (run_label wr c f) c c'"
| writable: "wr \<le> int (length (content (cn_out c))) \<Longrightarrow> conn_does Quiet c (conn_handleWrite wr c)"
| readable: "conn_handleRead readv c = Done c' \<Longrightarrow> conn_does Quiet c c'"
| input_taken: "conn_does Quiet c (c\<lparr>cn_in := retrieve n (cn_in c)\<rparr>)"
| destroyed: "conn_does Quiet c (connectDestroyed c)"

text \<open>A sequence of steps and the labels along it.\<close>

inductive conn_trace :: "conn \<Rightarrow> conn_label list \<Rightarrow> conn \<Rightarrow> bool" where
  at_start: "conn_trace c [] c"
| one_more: "conn_trace c ls c' \<Longrightarrow> conn_does l c' c'' \<Longrightarrow> conn_trace c (ls @ [l]) c''"

text \<open>
  The messages that reached \<open>sendInLoop\<close>, those other threads handed to the loop, those of these that
  the loop has run, and those that are still in its queue.
\<close>

fun passed :: "conn_label list \<Rightarrow> (string \<times> nat) list" where
  "passed [] = []"
| "passed (Sends m n # ls) = (m, n) # passed ls"
| "passed (Runs m n # ls) = (m, n) # passed ls"
| "passed (_ # ls) = passed ls"

fun handed :: "conn_label list \<Rightarrow> string list" where
  "handed [] = []"
| "handed (Hands m # ls) = m # handed ls"
| "handed (_ # ls) = handed ls"

fun handed_run :: "conn_label list \<Rightarrow> string list" where
  "handed_run [] = []"
| "handed_run (Runs m n # ls) = m # handed_run ls"
| "handed_run (_ # ls) = handed_run ls"

fun waiting :: "conn_functor list \<Rightarrow> string list" where
  "waiting [] = []"
| "waiting (FSend m # fs) = m # waiting fs"
| "waiting (_ # fs) = waiting fs"

lemma passed_append [simp]: "passed (ls @ ls') = passed ls @ passed ls'"
  by (induction ls rule: passed.induct) auto

lemma handed_append [simp]: "handed (ls @ ls') = handed ls @ handed ls'"
  by (induction ls rule: handed.induct) auto

lemma handed_run_append [simp]: "handed_run (ls @ ls') = handed_run ls @ handed_run ls'"
  by (induction ls rule: handed_run.induct) auto

lemma waiting_append [simp]: "waiting (fs @ fs') = waiting fs @ waiting fs'"
  by (induction fs rule: waiting.induct) auto

text \<open>The loop waits for the socket to be writable exactly while bytes are kept for it.\<close>

definition conn_inv :: "conn \<Rightarrow> bool" where
  "conn_inv c \<longleftrightarrow> buffer_inv (cn_in c) \<and> buffer_inv (cn_out c) \<and>
     (conn_writing c \<longleftrightarrow> content (cn_out c) \<noteq> []) \<and>
     (cn_state c = Connecting \<longrightarrow> cn_sent c = [] \<and> content (cn_out c) = [] \<and> \<not> cn_shut c \<and>
       (\<forall>f\<in>set (cn_queue c). f = FClose \<or> (\<exists>cb. f = FCall cb)))"

lemma write_flag [simp]:
  "conn_writing (conn_enableWriting c)" "\<not> conn_writing (conn_disableWriting c)"
  "conn_writing (conn_enableReading c) \<longleftrightarrow> conn_writing c"
proof -
  have "(e OR 4 :: i32) AND 4 \<noteq> 0" for e
  proof
    assume "(e OR 4) AND 4 = 0"
    then have "bit ((e OR 4) AND 4 :: i32) 2 = bit (0 :: i32) 2" by simp
    then show False by (simp add: bit_simps)
  qed
  then show "conn_writing (conn_enableWriting c)"
    by (simp add: conn_writing_def conn_enableWriting_def isWriting_def WriteEventFlag_def POLLOUT_def)
  have "(e AND NOT 4 :: i32) AND 4 = 0" for e by (rule bit_word_eqI) (simp add: bit_simps)
  then show "\<not> conn_writing (conn_disableWriting c)"
    by (simp add: conn_writing_def conn_disableWriting_def isWriting_def WriteEventFlag_def POLLOUT_def)
  have "(e OR (1 OR 2) :: i32) AND 4 = e AND 4" for e
    by (simp add: bit.conj_disj_distrib2)
  then show "conn_writing (conn_enableReading c) \<longleftrightarrow> conn_writing c"
    by (simp add: conn_writing_def conn_enableReading_def isWriting_def WriteEventFlag_def ReadEventFlag_def
        POLLOUT_def POLLIN_def POLLPRI_def)
qed


section \<open>What each operation does with the bytes\<close>

lemma conn_sel [simp]:
  "cn_in (conn_call cb c) = cn_in c" "cn_out (conn_call cb c) = cn_out c" "cn_sent (conn_call cb c) = cn_sent c"
  "cn_state (conn_call cb c) = cn_state c" "cn_shut (conn_call cb c) = cn_shut c" "conn_writing (conn_call cb c) = conn_writing c"
  "cn_in (conn_queue f c) = cn_in c" "cn_out (conn_queue f c) = cn_out c" "cn_sent (conn_queue f c) = cn_sent c"
  "cn_state (conn_queue f c) = cn_state c" "cn_shut (conn_queue f c) = cn_shut c" "conn_writing (conn_queue f c) = conn_writing c"
  "cn_in (conn_enableWriting c) = cn_in c" "cn_out (conn_enableWriting c) = cn_out c"
  "cn_sent (conn_enableWriting c) = cn_sent c" "cn_state (conn_enableWriting c) = cn_state c" "cn_shut (conn_enableWriting c) = cn_shut c"
  "cn_in (conn_disableWriting c) = cn_in c" "cn_out (conn_disableWriting c) = cn_out c"
  "cn_sent (conn_disableWriting c) = cn_sent c" "cn_state (conn_disableWriting c) = cn_state c" "cn_shut (conn_disableWriting c) = cn_shut c"
  "cn_in (conn_enableReading c) = cn_in c" "cn_out (conn_enableReading c) = cn_out c"
  "cn_sent (conn_enableReading c) = cn_sent c" "cn_state (conn_enableReading c) = cn_state c" "cn_shut (conn_enableReading c) = cn_shut c"
  by (simp_all add: conn_call_def conn_queue_def conn_enableWriting_def conn_disableWriting_def conn_enableReading_def conn_writing_def)

lemma conn_queue_sel [simp]:
  "cn_queue (conn_call cb c) = cn_queue c" "cn_queue (conn_queue f c) = cn_queue c @ [f]"
  "cn_queue (conn_enableWriting c) = cn_queue c" "cn_queue (conn_disableWriting c) = cn_queue c"
  "cn_queue (conn_enableReading c) = cn_queue c"
  by (simp_all add: conn_call_def conn_queue_def conn_enableWriting_def conn_disableWriting_def conn_enableReading_def)

lemma conn_writing_upd [simp]:
  "conn_writing (c\<lparr>cn_sent := x\<rparr>) = conn_writing c" "conn_writing (c\<lparr>cn_out := b\<rparr>) = conn_writing c"
  "conn_writing (c\<lparr>cn_in := b\<rparr>) = conn_writing c" "conn_writing (c\<lparr>cn_shut := y\<rparr>) = conn_writing c"
  "conn_writing (c\<lparr>cn_state := st\<rparr>) = conn_writing c" "conn_writing (c\<lparr>cn_queue := q\<rparr>) = conn_writing c"
  by (simp_all add: conn_writing_def)

text \<open>Nothing but the bytes and the interest in writing matters for the stream.\<close>

definition stream :: "conn \<Rightarrow> string" where
  "stream c = cn_sent c @ content (cn_out c)"

lemma readable_iff: "buffer_inv b \<Longrightarrow> readableBytes b = 0 \<longleftrightarrow> content b = []"
  using content_length [of b] by auto

lemma keep_rest_ok:
  assumes "buffer_inv (cn_out c)"
  shows "buffer_inv (cn_out (keep_rest n m c))" "content (cn_out (keep_rest n m c)) = content (cn_out c) @ drop n m"
    "conn_writing (keep_rest n m c)" "cn_sent (keep_rest n m c) = cn_sent c" "cn_in (keep_rest n m c) = cn_in c"
    "cn_state (keep_rest n m c) = cn_state c" "cn_shut (keep_rest n m c) = cn_shut c" "cn_queue (keep_rest n m c) = cn_queue c"
  using append_ok [OF assms] by (simp_all add: keep_rest_def Let_def)


text \<open>
  What a call of \<open>sendInLoop\<close> adds to the stream: the message if \<open>write\<close> took all of it, and
  otherwise the message with its rest once more.
\<close>

definition added :: "int \<Rightarrow> string \<Rightarrow> conn \<Rightarrow> string" where
  "added wr m c = m @ drop (taken wr c) m"

lemma sendInLoop_ok:
  assumes inv: "buffer_inv (cn_out c)" and out: "conn_writing c \<longleftrightarrow> content (cn_out c) \<noteq> []"
    and wr: "wr \<le> int (length m)"
  shows "buffer_inv (cn_out (sendInLoop wr m c))" (is ?buf)
    and "conn_writing (sendInLoop wr m c) \<longleftrightarrow> content (cn_out (sendInLoop wr m c)) \<noteq> []" (is ?writing)
    and "stream (sendInLoop wr m c) = stream c @ added wr m c" (is ?stream)
    and "cn_in (sendInLoop wr m c) = cn_in c" (is ?in) and "cn_state (sendInLoop wr m c) = cn_state c" (is ?state)
    and "cn_shut (sendInLoop wr m c) = cn_shut c" (is ?shut)
    and "waiting (cn_queue (sendInLoop wr m c)) = waiting (cn_queue c)" (is ?queue)
proof -
  define direct where "direct \<longleftrightarrow> \<not> conn_writing c \<and> readableBytes (cn_out c) = 0"
  define n where "n = (if direct \<and> 0 \<le> wr then nat wr else 0)"
  define c1 where "c1 = (if direct \<and> 0 \<le> wr then
      (let c = c\<lparr>cn_sent := cn_sent c @ take n m\<rparr>
       in if length m - n = 0 \<and> cn_writeComplete c then conn_queue (FCall WriteCompleteCb) c else c) else c)"
  define c2 where "c2 = (let old = readableBytes (cn_out c1) in
      if old + (length m - n) > cn_highWaterMark c1 \<and> old < cn_highWaterMark c1 \<and> cn_highWater c1
      then conn_queue (FCall (HighWaterMarkCb (old + (length m - n)))) c1 else c1)"
  have run: "sendInLoop wr m c = (if n < length m then keep_rest n m (keep_rest n m c2) else c1)"
    unfolding sendInLoop_def direct_def [symmetric] n_def [symmetric] Let_def
    by (cases "n < length m") (simp_all only: zero_less_diff if_True if_False simp_thms c1_def c2_def Let_def)
  have c1: "cn_out c1 = cn_out c" "cn_in c1 = cn_in c" "cn_state c1 = cn_state c" "cn_shut c1 = cn_shut c"
    "conn_writing c1 = conn_writing c" "cn_sent c1 = cn_sent c @ take n m" "waiting (cn_queue c1) = waiting (cn_queue c)"
    by (simp_all add: c1_def n_def Let_def)
  have c2: "cn_out c2 = cn_out c" "cn_in c2 = cn_in c" "cn_state c2 = cn_state c" "cn_shut c2 = cn_shut c"
    "conn_writing c2 = conn_writing c" "cn_sent c2 = cn_sent c @ take n m" "waiting (cn_queue c2) = waiting (cn_queue c)"
    using c1 by (simp_all add: c2_def Let_def)
  have n: "n = (if \<not> conn_writing c \<and> content (cn_out c) = [] then nat wr else 0)"
    using inv by (auto simp: n_def direct_def readable_iff)
  have "added wr m c = m @ drop n m" by (simp add: added_def taken_def n)
  moreover have "content (cn_out c) = [] \<or> n = 0" by (simp add: n)
  ultimately show ?buf ?writing ?stream ?in ?state ?shut ?queue
    using inv out c1 c2 keep_rest_ok [of c2 n m] keep_rest_ok [of "keep_rest n m c2" n m]
    by (auto simp: run stream_def)
qed


lemma conn_handleWrite_ok:
  assumes inv: "buffer_inv (cn_out c)" and out: "conn_writing c \<longleftrightarrow> content (cn_out c) \<noteq> []"
  shows "buffer_inv (cn_out (conn_handleWrite wr c))"
    and "conn_writing (conn_handleWrite wr c) \<longleftrightarrow> content (cn_out (conn_handleWrite wr c)) \<noteq> []"
    and "stream (conn_handleWrite wr c) = stream c"
    and "cn_in (conn_handleWrite wr c) = cn_in c" and "cn_state (conn_handleWrite wr c) = cn_state c" and "cn_queue (conn_handleWrite wr c) = cn_queue c"
    and "cn_shut (conn_handleWrite wr c) \<Longrightarrow> \<not> cn_shut c \<Longrightarrow> content (cn_out (conn_handleWrite wr c)) = []"
proof -
  let ?b = "retrieve (nat wr) (cn_out c)"
  have b: "buffer_inv ?b" "content ?b = drop (nat wr) (content (cn_out c))"
    using retrieve_ok [OF inv] by simp_all
  show "buffer_inv (cn_out (conn_handleWrite wr c))"
    "conn_writing (conn_handleWrite wr c) \<longleftrightarrow> content (cn_out (conn_handleWrite wr c)) \<noteq> []"
    "stream (conn_handleWrite wr c) = stream c"
    "cn_in (conn_handleWrite wr c) = cn_in c" "cn_state (conn_handleWrite wr c) = cn_state c"
    "cn_queue (conn_handleWrite wr c) = cn_queue c"
    "cn_shut (conn_handleWrite wr c) \<Longrightarrow> \<not> cn_shut c \<Longrightarrow> content (cn_out (conn_handleWrite wr c)) = []"
    using inv out b by (auto simp: conn_handleWrite_def shutdownInLoop_def stream_def readable_iff [OF b(1)] Let_def split: if_splits)
qed

lemma conn_handleRead_ok:
  assumes "conn_handleRead readv c = Done c'" "buffer_inv (cn_in c)"
  shows "buffer_inv (cn_in c') \<and> cn_out c' = cn_out c \<and> cn_sent c' = cn_sent c \<and> cn_state c' = cn_state c \<and>
    cn_shut c' = cn_shut c \<and> conn_writing c' = conn_writing c \<and> cn_queue c' = cn_queue c"
proof -
  obtain n err b where r: "readFd readv (cn_in c) = (n, err, b)" by (cases "readFd readv (cn_in c)")
  have "buffer_inv b"
    using r assms(2) readFd_ok(1) [OF assms(2)] by (cases readv) (auto simp: readFd_def)
  then show ?thesis
    using assms(1) by (auto simp: conn_handleRead_def r conn_handleClose_def require_def Let_def split: if_splits)
qed

text \<open>
  A step keeps the invariant; what it does to the stream is to add the bytes of its label to the end,
  and to the queue of messages that are waiting what its label says.
\<close>

definition label_bytes :: "conn_label \<Rightarrow> string" where
  "label_bytes l = concat (map (\<lambda>(m, n). m @ drop n m) (passed [l]))"

lemma label_bytes_simps [simp]:
  "label_bytes Quiet = []" "label_bytes (Hands m) = []"
  "label_bytes (Sends m n) = m @ drop n m" "label_bytes (Runs m n) = m @ drop n m"
  by (simp_all add: label_bytes_def)

lemma conn_step_ok:
  assumes "conn_does l c c'" "conn_inv c"
  shows "conn_inv c' \<and> stream c' = stream c @ label_bytes l \<and>
    waiting (cn_queue c) @ handed [l] = handed_run [l] @ waiting (cn_queue c') \<and>
    (cn_shut c' \<longrightarrow> \<not> cn_shut c \<longrightarrow> content (cn_out c') = [])"
proof -
  have inv: "buffer_inv (cn_in c)" "buffer_inv (cn_out c)" "conn_writing c \<longleftrightarrow> content (cn_out c) \<noteq> []"
    and new: "cn_state c = Connecting \<Longrightarrow> cn_sent c = [] \<and> content (cn_out c) = [] \<and> \<not> cn_shut c \<and>
      (\<forall>f\<in>set (cn_queue c). f = FClose \<or> (\<exists>cb. f = FCall cb))"
    using assms(2) by (auto simp: conn_inv_def)
  show ?thesis
    using assms(1)
  proof cases
    case established
    then show ?thesis using inv new by (auto simp: connectEstablished_def conn_inv_def stream_def)
  next
    case (sent_here wr m)
    then show ?thesis using inv new sendInLoop_ok [OF inv(2,3), of wr m]
      by (auto simp: send_def conn_inv_def connected_def added_def stream_def)
  next
    case (sent_elsewhere m)
    then show ?thesis using inv new by (auto simp: send_def conn_inv_def stream_def connected_def)
  next
    case (shut_down here)
    then show ?thesis using inv new by (auto simp: conn_shutdown_def shutdownInLoop_def conn_inv_def stream_def Let_def)
  next
    case force_closed
    then show ?thesis using inv new by (auto simp: forceClose_def conn_inv_def stream_def)
  next
    case (functor_run f fs wr)
    show ?thesis
    proof (cases f)
      case (FSend m)
      let ?c = "c\<lparr>cn_queue := fs\<rparr>"
      have "wr \<le> int (length m)" using functor_run(3) FSend .
      then have ok: "buffer_inv (cn_out (sendInLoop wr m ?c))"
        "conn_writing (sendInLoop wr m ?c) \<longleftrightarrow> content (cn_out (sendInLoop wr m ?c)) \<noteq> []"
        "stream (sendInLoop wr m ?c) = stream ?c @ added wr m ?c"
        "cn_in (sendInLoop wr m ?c) = cn_in c" "cn_state (sendInLoop wr m ?c) = cn_state c"
        "cn_shut (sendInLoop wr m ?c) = cn_shut c" "waiting (cn_queue (sendInLoop wr m ?c)) = waiting fs"
        using sendInLoop_ok [of ?c wr m] inv by simp_all
      have st: "cn_state c \<noteq> Connecting" using new functor_run(2) FSend by auto
      have "taken wr ?c = taken wr c" by (simp add: taken_def)
      moreover from functor_run(4) FSend have "c' = sendInLoop wr m ?c" by simp
      ultimately show ?thesis
        using functor_run(1,2) FSend inv ok st by (auto simp: conn_inv_def stream_def added_def)
    next
      case FShutdown
      then show ?thesis using functor_run(1,2,4) inv new
        by (auto simp: shutdownInLoop_def conn_inv_def stream_def split: if_splits)
    next
      case FClose
      then show ?thesis using functor_run(1,2,4) inv new
        by (auto simp: conn_handleClose_def require_def conn_inv_def stream_def split: if_splits)
    next
      case (FCall cb)
      with functor_run(4) have "c' = conn_call cb (c\<lparr>cn_queue := fs\<rparr>)" by simp
      moreover have "set fs \<subseteq> set (cn_queue c)" using functor_run(2) by auto
      ultimately show ?thesis using functor_run(1,2) FCall inv new by (auto simp: conn_inv_def stream_def dest: new)
    qed
  next
    case (writable wr)
    show ?thesis
    proof (cases "conn_writing c")
      case True
      then have "cn_state c \<noteq> Connecting" using inv(3) new by auto
      then show ?thesis using writable(1,2) inv conn_handleWrite_ok [OF inv(2,3), of wr] by (auto simp: conn_inv_def)
    next
      case False
      then show ?thesis using writable(1,2) assms(2) by (simp add: conn_handleWrite_def)
    qed
  next
    case (readable readv)
    then show ?thesis using readable(1) inv new conn_handleRead_ok [OF readable(2) inv(1)] by (auto simp: conn_inv_def stream_def)
  next
    case (input_taken n)
    then show ?thesis using inv new retrieve_ok by (auto simp: conn_inv_def stream_def)
  next
    case destroyed
    then show ?thesis using inv new by (auto simp: connectDestroyed_def conn_inv_def stream_def)
  qed
qed


lemma conn_init_ok: "conn_inv (conn_init fd)"
  by (simp add: conn_inv_def conn_init_def conn_writing_def isWriting_def set_callback_def channel_init_def buffer_init_ok)

lemma conn_trace_ok:
  assumes "conn_trace (conn_init fd) ls c"
  shows "conn_inv c \<and> stream c = concat (map (\<lambda>(m, n). m @ drop n m) (passed ls)) \<and>
    handed ls = handed_run ls @ waiting (cn_queue c)"
  using assms
proof (induction "conn_init fd" ls c)
  case at_start
  show ?case using conn_init_ok by (simp add: stream_def) (simp add: conn_init_def buffer_init_ok)
next
  case (one_more ls c l c')
  then show ?case using conn_step_ok [of l c c'] by (auto simp: label_bytes_def)
qed

end
