(* ===== verification/NetConnector.thy ===== *)
theory NetConnector
  imports Prelude
begin

text \<open>
  \<open>net/Connector\<close> and the connection side of \<open>net/TcpClient\<close>: the attempts to connect, one at a time,
  with a growing delay between them. The descriptors the system hands out and the error of a
  socket are parameters. \<open>co_watched\<close> says whether the channel is registered with the poller, which
  calls \<open>handleWrite\<close> then; the other lists keep what the connector did, in order, and \<open>co_given_up\<close>
  the connections that were lost and not made again.
\<close>

section \<open>The connector\<close>

datatype co_functor = StartInLoop | StopInLoop | ResetChannel

record connector =
  co_connect :: bool
  co_channel :: "int option"
  co_watched :: bool
  co_retryDelayMs :: int
  co_queue :: "co_functor list"
  co_timers :: "int list"
  co_closed :: "int list"
  co_connected :: "int list"
  co_given_up :: "int list"

definition KInitRetryDelayMs :: int where "KInitRetryDelayMs = 500"
definition kMaxRetryDelayMs :: int where "kMaxRetryDelayMs = 30 * 1000"

definition connector_init :: connector where
  "connector_init =
     \<lparr>co_connect = False, co_channel = None, co_watched = False, co_retryDelayMs = KInitRetryDelayMs,
      co_queue = [], co_timers = [], co_closed = [], co_connected = [], co_given_up = []\<rparr>"

definition co_queueInLoop :: "co_functor \<Rightarrow> connector \<Rightarrow> connector" where
  "co_queueInLoop f c = c\<lparr>co_queue := co_queue c @ [f]\<rparr>"

definition connecting :: "int \<Rightarrow> connector \<Rightarrow> (unit, connector) outcome" where
  "connecting sockfd c =
     require (co_channel c = None) (Done (c\<lparr>co_channel := Some sockfd, co_watched := True\<rparr>))"

text \<open>The result of \<open>::connect\<close> is not looked at.\<close>

definition co_connect_socket :: "int \<Rightarrow> connector \<Rightarrow> (unit, connector) outcome" where
  "co_connect_socket sockfd c = connecting sockfd c"

definition startInLoop :: "int \<Rightarrow> connector \<Rightarrow> (unit, connector) outcome" where
  "startInLoop sockfd c = (if co_connect c then co_connect_socket sockfd c else Done c)"

definition co_start :: "bool \<Rightarrow> int \<Rightarrow> connector \<Rightarrow> (unit, connector) outcome" where
  "co_start in_loop_thread sockfd c =
     (let c = c\<lparr>co_connect := True\<rparr>
      in if in_loop_thread then startInLoop sockfd c else Done (co_queueInLoop StartInLoop c))"

text \<open>A null \<open>channel_\<close> is dereferenced here.\<close>

definition removeAndResetChannel :: "connector \<Rightarrow> (unit, int \<times> connector) outcome" where
  "removeAndResetChannel c =
     (case co_channel c of
        None \<Rightarrow> Abort
      | Some fd \<Rightarrow> Done (fd, co_queueInLoop ResetChannel (c\<lparr>co_watched := False\<rparr>)))"

definition resetChannel :: "connector \<Rightarrow> connector" where
  "resetChannel c = c\<lparr>co_channel := None\<rparr>"

definition retry :: "int \<Rightarrow> connector \<Rightarrow> connector" where
  "retry sockfd c =
     (let c = c\<lparr>co_closed := co_closed c @ [sockfd]\<rparr> in
      if co_connect c then
        c\<lparr>co_timers := co_timers c @ [co_retryDelayMs c],
          co_retryDelayMs := min (co_retryDelayMs c * 2) kMaxRetryDelayMs\<rparr>
      else c)"

definition co_stop :: "connector \<Rightarrow> connector" where
  "co_stop c = co_queueInLoop StopInLoop c"

definition stopInLoop :: "connector \<Rightarrow> (unit, connector) outcome" where
  "stopInLoop c = obind (removeAndResetChannel c) (\<lambda>(sockfd, c). Done (retry sockfd c))"

definition co_handleWrite :: "int \<Rightarrow> connector \<Rightarrow> (unit, connector) outcome" where
  "co_handleWrite err c =
     obind (removeAndResetChannel c) (\<lambda>(sockfd, c).
       if err \<noteq> 0 then Done (retry sockfd c)
       else if co_connect c then Done (c\<lparr>co_connected := co_connected c @ [sockfd]\<rparr>)
       else Done (c\<lparr>co_closed := co_closed c @ [sockfd]\<rparr>))"

definition co_restart :: "int \<Rightarrow> connector \<Rightarrow> (unit, connector) outcome" where
  "co_restart sockfd c = startInLoop sockfd (c\<lparr>co_retryDelayMs := KInitRetryDelayMs, co_connect := True\<rparr>)"

fun co_run :: "int \<Rightarrow> co_functor \<Rightarrow> connector \<Rightarrow> (unit, connector) outcome" where
  "co_run sockfd StartInLoop c = startInLoop sockfd c"
| "co_run sockfd StopInLoop c = stopInLoop c"
| "co_run sockfd ResetChannel c = Done (resetChannel c)"

section \<open>The loop around it\<close>

text \<open>
  The functor that resets the channel runs before the loop polls again, so a timer or the end of a
  connection does not find it in the queue. When its connection is gone the client calls
  \<open>restart\<close>, or gives up (\<open>retry_\<close> or \<open>connect_\<close> of the client is not set). With \<open>stops\<close>, \<open>stop\<close> may be called
  too, at any time and from any thread.
\<close>

inductive co_step :: "bool \<Rightarrow> connector \<Rightarrow> (unit, connector) outcome \<Rightarrow> bool" for stops where
  co_functor_run: "co_queue c = f # fs \<Longrightarrow> co_step stops c (co_run sockfd f (c\<lparr>co_queue := fs\<rparr>))"
| co_event: "co_watched c \<Longrightarrow> co_step stops c (co_handleWrite err c)"
| co_timer: "ResetChannel \<notin> set (co_queue c) \<Longrightarrow> co_timers c = us @ ms # vs \<Longrightarrow>
    co_step stops c (startInLoop sockfd (c\<lparr>co_timers := us @ vs\<rparr>))"
| co_lost: "ResetChannel \<notin> set (co_queue c) \<Longrightarrow> co_connected c = us @ fd # vs \<Longrightarrow>
    co_step stops c (co_restart sockfd (c\<lparr>co_connected := us @ vs\<rparr>))"
| co_gone: "co_connected c = us @ fd # vs \<Longrightarrow>
    co_step stops c (Done (c\<lparr>co_connected := us @ vs, co_given_up := co_given_up c @ [fd]\<rparr>))"
| co_stopped: "stops \<Longrightarrow> co_step stops c (Done (co_stop c))"

inductive co_reach :: "bool \<Rightarrow> connector \<Rightarrow> connector \<Rightarrow> bool" for stops where
  co_here: "co_reach stops c c"
| co_further: "co_reach stops c c' \<Longrightarrow> co_step stops c' (Done c'') \<Longrightarrow> co_reach stops c c''"

text \<open>One attempt at a time: it is about to start, under way, waiting for its timer, or has succeeded, unless it is given up.\<close>

definition attempts :: "connector \<Rightarrow> nat" where
  "attempts c = length (co_timers c) + length (co_connected c) + (if co_watched c then 1 else 0) +
     length (filter (\<lambda>f. f = StartInLoop) (co_queue c))"

definition co_inv :: "connector \<Rightarrow> bool" where
  "co_inv c \<longleftrightarrow> attempts c + length (co_given_up c) = 1 \<and> (co_watched c \<longrightarrow> co_channel c \<noteq> None) \<and> co_connect c \<and>
     co_queue c \<in> {[], [StartInLoop], [ResetChannel]} \<and>
     (co_channel c = None \<or> co_watched c \<or> co_queue c = [ResetChannel]) \<and>
     (co_watched c \<longrightarrow> co_queue c = []) \<and>
     KInitRetryDelayMs \<le> co_retryDelayMs c \<and> co_retryDelayMs c \<le> kMaxRetryDelayMs \<and>
     (\<forall>ms\<in>set (co_timers c). KInitRetryDelayMs \<le> ms \<and> ms \<le> kMaxRetryDelayMs)"

lemmas co_defs = co_inv_def attempts_def co_queueInLoop_def connecting_def co_connect_socket_def startInLoop_def
  removeAndResetChannel_def resetChannel_def retry_def stopInLoop_def co_handleWrite_def co_restart_def
  KInitRetryDelayMs_def kMaxRetryDelayMs_def Let_def

lemma co_start_ok: "\<exists>c. co_start in_loop_thread sockfd connector_init = Done c \<and> co_inv c"
  by (cases in_loop_thread) (simp_all add: co_start_def connector_init_def co_defs)

lemma co_step_ok:
  assumes "co_step False c r" "co_inv c"
  shows "\<exists>c'. r = Done c' \<and> co_inv c'"
  using assms(1)
proof cases
  case (co_functor_run f fs sockfd)
  then show ?thesis using assms(2) by (cases f) (auto simp: co_defs split: if_splits)
next
  case (co_event err)
  then obtain fd where "co_channel c = Some fd" using assms(2) by (auto simp: co_inv_def)
  then have rm: "removeAndResetChannel c = Done (fd, c\<lparr>co_watched := False, co_queue := co_queue c @ [ResetChannel]\<rparr>)"
    by (simp add: co_defs)
  show ?thesis
    using co_event assms(2)
    by (auto simp: co_handleWrite_def rm co_inv_def attempts_def retry_def KInitRetryDelayMs_def kMaxRetryDelayMs_def Let_def
        simp del: obind_Done_iff)
next
  case (co_timer us ms vs sockfd)
  then show ?thesis using assms(2) by (auto simp: co_defs split: if_splits)
next
  case (co_lost us fd vs sockfd)
  then show ?thesis using assms(2) by (auto simp: co_defs split: if_splits)
next
  case (co_gone us fd vs)
  then show ?thesis using assms(2) by (auto simp: co_defs split: if_splits)
qed simp

lemma co_reach_ok: "co_reach False c c' \<Longrightarrow> co_inv c \<Longrightarrow> co_inv c'"
proof (induction rule: co_reach.induct)
  case (co_further c c' c'')
  then show ?case using co_step_ok by blast
qed

text \<open>
  \<open>stop\<close> leaves \<open>connect_\<close> set: what it does to an attempt under way is to try again later, and
  without one it dereferences the null channel.
\<close>

lemma stop_retries:
  assumes "co_connect c" "co_channel c = Some fd"
  shows "stopInLoop c = Done (c\<lparr>co_watched := False, co_queue := co_queue c @ [ResetChannel],
    co_closed := co_closed c @ [fd], co_timers := co_timers c @ [co_retryDelayMs c],
    co_retryDelayMs := min (co_retryDelayMs c * 2) kMaxRetryDelayMs\<rparr>)"
  using assms by (simp add: co_defs)

lemma stop_aborts: "co_channel c = None \<Longrightarrow> stopInLoop c = Abort"
  by (simp add: co_defs)

text \<open>So a \<open>stop\<close> after the connection was made brings the process down.\<close>

lemma stop_reaches_abort:
  "\<exists>c c'. co_start True 3 connector_init = Done c \<and> co_reach True c c' \<and> co_step True c' Abort"
proof -
  let ?c = "\<lambda>ch w q fs. connector_init\<lparr>co_connect := True, co_channel := ch, co_watched := w, co_queue := q, co_connected := fs\<rparr>"
  have start: "co_start True 3 connector_init = Done (?c (Some 3) True [] [])"
    by (simp add: co_start_def co_defs connector_init_def)
  have "co_reach True (?c (Some 3) True [] []) (?c (Some 3) False [ResetChannel] [3])"
    by (rule co_further [OF co_here])
      (use co_event [of "?c (Some 3) True [] []" True 0] in \<open>simp add: co_defs connector_init_def\<close>)
  then have "co_reach True (?c (Some 3) True [] []) (?c None False [] [3])"
    by (rule co_further)
      (use co_functor_run [of "?c (Some 3) False [ResetChannel] [3]" ResetChannel "[]" True 0] in
        \<open>simp add: co_defs connector_init_def\<close>)
  then have "co_reach True (?c (Some 3) True [] []) (?c None False [StopInLoop] [3])"
    by (rule co_further)
      (use co_stopped [of True "?c None False [] [3]"] in \<open>simp add: co_defs co_stop_def connector_init_def\<close>)
  moreover have "co_step True (?c None False [StopInLoop] [3]) Abort"
    using co_functor_run [of "?c None False [StopInLoop] [3]" StopInLoop "[]" True 0] by (simp add: co_defs connector_init_def)
  ultimately show ?thesis using start by blast
qed

end
