(* ===== verification/BaseTime.thy ===== *)
theory BaseTime
  imports Prelude "HOL-Library.List_Lexorder" "HOL-Library.Char_ord" "HOL-Library.Signed_Division"
begin

text \<open>
  Times as text: \<open>Timestamp::toFormattedString\<close>, the time in front of a log line and in the name of a log
  file. \<open>gmtime_r\<close>, \<open>printf\<close>'s \<open>%d\<close> and \<open>strftime\<close> are modelled as the C standard and POSIX describe them. Later
  times have greater texts.
\<close>

section \<open>Numbers of a fixed width\<close>

definition decimal :: "int \<Rightarrow> string" where
  "decimal v = (if v < 0 then ''-'' else []) @ dec (nat \<bar>v\<bar>)"

text \<open>\<open>%wd\<close> and \<open>%0wd\<close>.\<close>

definition printf_d :: "char \<Rightarrow> nat \<Rightarrow> int \<Rightarrow> string" where
  "printf_d pad w v =
     (let sign = (if v < 0 then ''-'' else []); ds = dec (nat \<bar>v\<bar>); fill = replicate (w - length (sign @ ds)) pad
      in if pad = CHR ''0'' then sign @ fill @ ds else fill @ sign @ ds)"

section \<open>The calendar\<close>

record struct_tm =
  tm_year :: int
  tm_mon :: int
  tm_mday :: int
  tm_hour :: int
  tm_min :: int
  tm_sec :: int

definition leap_year :: "int \<Rightarrow> bool" where
  "leap_year y \<longleftrightarrow> y mod 4 = 0 \<and> (y mod 100 \<noteq> 0 \<or> y mod 400 = 0)"

text \<open>The first of January, in days from the epoch.\<close>

definition days_before :: "int \<Rightarrow> int" where
  "days_before y = 365 * (y - 1) + (y - 1) div 4 - (y - 1) div 100 + (y - 1) div 400 - 719162"

text \<open>The year of a day, by cycles of 400, 100, 4 and 1 years.\<close>

definition year_of :: "int \<Rightarrow> int" where
  "year_of d =
     (let n = d + 719162; r = n mod 146097; b = min 3 (r div 36524);
          r' = r - b * 36524; e = min 3 (r' mod 1461 div 365)
      in 400 * (n div 146097) + 100 * b + 4 * (r' div 1461) + e + 1)"

definition month_days :: "int \<Rightarrow> int list" where
  "month_days y = [31, if leap_year y then 29 else 28, 31, 30, 31, 30, 31, 31, 30, 31, 30, 31]"

fun month_and_day :: "int list \<Rightarrow> int \<Rightarrow> int \<times> int" where
  "month_and_day [] d = (0, d + 1)"
| "month_and_day (n # ns) d = (if d < n then (0, d + 1) else (let (m, k) = month_and_day ns (d - n) in (m + 1, k)))"

definition gmtime :: "int \<Rightarrow> struct_tm" where
  "gmtime t =
     (let d = t div 86400; s = t mod 86400; y = year_of d; (m, k) = month_and_day (month_days y) (d - days_before y)
      in \<lparr>tm_year = y - 1900, tm_mon = m, tm_mday = k, tm_hour = s div 3600, tm_min = s div 60 mod 60, tm_sec = s mod 60\<rparr>)"

section \<open>The texts\<close>

definition microseconds_of :: "i64 \<Rightarrow> int" where
  "microseconds_of t = sint t smod 1000000"

definition seconds_of :: "i64 \<Rightarrow> int" where
  "seconds_of t = sint t sdiv 1000000"

definition show_tm :: "struct_tm \<Rightarrow> string" where
  "show_tm x =
     printf_d CHR '' '' 4 (tm_year x + 1900) @ printf_d CHR ''0'' 2 (tm_mon x + 1) @ printf_d CHR ''0'' 2 (tm_mday x) @ '' '' @
     printf_d CHR ''0'' 2 (tm_hour x) @ '':'' @ printf_d CHR ''0'' 2 (tm_min x) @ '':'' @ printf_d CHR ''0'' 2 (tm_sec x)"

definition toFormattedString :: "bool \<Rightarrow> i64 \<Rightarrow> string" where
  "toFormattedString showMicroseconds t =
     (let x = gmtime (seconds_of t) in
      take 63 (if showMicroseconds then show_tm x @ ''.'' @ printf_d CHR ''0'' 6 (microseconds_of t) else show_tm x))"

definition formatTime :: "i64 \<Rightarrow> string" where
  "formatTime t = take 63 (show_tm (gmtime (seconds_of t)) @ ''.'' @ printf_d CHR ''0'' 6 (microseconds_of t))"

text \<open>\<open>strftime\<close> with the format \<open>.%Y-%m-%d-%H:%M:%S\<close>.\<close>

definition strftime_name :: "struct_tm \<Rightarrow> string" where
  "strftime_name x =
     ''.'' @ decimal (tm_year x + 1900) @ ''-'' @ printf_d CHR ''0'' 2 (tm_mon x + 1) @ ''-'' @ printf_d CHR ''0'' 2 (tm_mday x) @ ''-'' @
     printf_d CHR ''0'' 2 (tm_hour x) @ '':'' @ printf_d CHR ''0'' 2 (tm_min x) @ '':'' @ printf_d CHR ''0'' 2 (tm_sec x)"

section \<open>The calendar is right\<close>

lemma div_step: "0 < k \<Longrightarrow> y div k = (y - 1) div k + (if y mod k = 0 then 1 else 0)" for k :: int
proof (cases "y mod k = 0")
  case True
  then have "y = k * (y div k)" using mult_div_mod_eq [of k y] by linarith
  then have "y - 1 = k * (y div k - 1) + (k - 1)" unfolding right_diff_distrib by linarith
  moreover assume "0 < k"
  ultimately show ?thesis using True int_div_pos_eq [of "y - 1" k "y div k - 1" "k - 1"] by simp
next
  case False
  assume k: "0 < k"
  then have "0 < y mod k" "y mod k < k" using False pos_mod_sign [OF k, of y] pos_mod_bound [OF k, of y] by linarith+
  moreover have "y - 1 = k * (y div k) + (y mod k - 1)" by simp
  ultimately show ?thesis using False int_div_pos_eq [of "y - 1" k "y div k" "y mod k - 1"] by simp
qed

lemma days_before_next: "days_before (y + 1) = days_before y + sum_list (month_days y)"
proof -
  have sums: "365 * y + s - t + u - k = 365 * (y - 1) + s' - t' + u' - k + 365 + i - j + l"
    if "s = s' + i" "t = t' + j" "u = u' + l" for s s' t t' u u' i j k l :: int
    using that by simp
  have "y mod 400 = 0 \<Longrightarrow> y mod 100 = 0" "y mod 100 = 0 \<Longrightarrow> y mod 4 = 0"
    using mod_mod_cancel [of 100 400 y] mod_mod_cancel [of 4 100 y] by simp_all
  moreover have "days_before (y + 1) =
      days_before y + 365 + (if y mod 4 = 0 then 1 else 0) - (if y mod 100 = 0 then 1 else 0) + (if y mod 400 = 0 then 1 else 0)"
    unfolding days_before_def add_diff_cancel_right' by (rule sums) (rule div_step, simp)+
  ultimately show ?thesis
    by (cases "y mod 4 = 0"; cases "y mod 100 = 0"; cases "y mod 400 = 0")
      (simp_all only: month_days_def leap_year_def if_True if_False simp_thms sum_list.Cons sum_list.Nil)
qed

lemma year_parts:
  fixes a b c e :: int
  assumes "0 \<le> b" "b \<le> 3" "0 \<le> c" "c \<le> 24" "0 \<le> e" "e \<le> 3"
  shows "days_before (400 * a + 100 * b + 4 * c + e + 1) = 146097 * a + 36524 * b + 1461 * c + 365 * e - 719162"
proof -
  let ?y = "400 * a + 100 * b + 4 * c + e"
  have "?y div 400 = a" by (rule int_div_pos_eq [where r = "100 * b + 4 * c + e"]) (use assms in simp_all)
  moreover have "?y div 100 = 4 * a + b" by (rule int_div_pos_eq [where r = "4 * c + e"]) (use assms in simp_all)
  moreover have "?y div 4 = 100 * a + 25 * b + c" by (rule int_div_pos_eq [where r = e]) (use assms in simp_all)
  ultimately show ?thesis by (simp add: days_before_def)
qed

lemma last_of_cycle:
  assumes "0 \<le> c" "c \<le> 24" "c = 24 \<longrightarrow> b = 3"
  shows "leap_year (400 * a + 100 * b + 4 * c + 3 + 1)"
proof -
  have y: "400 * a + 100 * b + 4 * c + 3 + 1 = 4 * (100 * a + 25 * b + c + 1)" by simp
  show ?thesis
  proof (cases "c = 24")
    case True
    then have "400 * a + 100 * b + 4 * c + 3 + 1 = 400 * (a + 1)" using assms(3) by simp
    moreover have "400 * (a + 1) mod 4 = 0" using mod_mod_cancel [of 4 400 "400 * (a + 1)"] by simp
    ultimately show ?thesis by (simp only: leap_year_def mod_mult_self1_is_0 simp_thms)
  next
    case False
    have "(400 * a + 100 * b + 4 * c + 3 + 1) mod 100 = 4 * c + 4"
      by (rule int_mod_pos_eq [where q = "4 * a + b"]) (use assms False in simp_all)
    moreover have "(400 * a + 100 * b + 4 * c + 3 + 1) mod 4 = 0" unfolding y by simp
    ultimately show ?thesis using assms(1) unfolding leap_year_def by simp
  qed
qed

text \<open>A day is one of its year's.\<close>

lemma year_of_ok: "days_before (year_of d) \<le> d" "d < days_before (year_of d + 1)"
proof -
  define a r where "a = (d + 719162) div 146097" and "r = (d + 719162) mod 146097"
  define b where "b = min 3 (r div 36524)"
  define s where "s = r - b * 36524"
  define c u where "c = s div 1461" and "u = s mod 1461"
  define e where "e = min 3 (u div 365)"
  have d: "d = 146097 * a + r - 719162" by (simp add: a_def r_def)
  have r: "0 \<le> r" "r < 146097" by (simp_all add: r_def)
  have b: "0 \<le> b" "b \<le> 3" "b * 36524 \<le> r" "b < 3 \<longrightarrow> r < (b + 1) * 36524"
    using r by (auto simp: b_def min_def)
  then have s: "0 \<le> s" "s \<le> 36524" "b < 3 \<longrightarrow> s < 36524" using r by (auto simp: s_def)
  have c: "s = 1461 * c + u" "0 \<le> u" "u < 1461" "0 \<le> c" using s by (simp_all add: c_def u_def)
  then have c24: "c \<le> 24" using s by linarith
  have e: "0 \<le> e" "e \<le> 3" "365 * e \<le> u" "e < 3 \<longrightarrow> u < 365 * (e + 1)"
    using c by (auto simp: e_def min_def)
  have y: "year_of d = 400 * a + 100 * b + 4 * c + e + 1"
    by (simp only: year_of_def Let_def a_def b_def c_def e_def u_def s_def r_def)
  have before: "days_before (year_of d) = 146097 * a + 36524 * b + 1461 * c + 365 * e - 719162"
    unfolding y by (rule year_parts) (use b c c24 e in simp_all)
  then show "days_before (year_of d) \<le> d" using d s_def c(1) e(3) by simp
  show "d < days_before (year_of d + 1)"
  proof (cases "u < 365 * (e + 1)")
    case True
    have "28 \<le> month_days (year_of d) ! 1" by (simp add: month_days_def)
    then have "365 \<le> sum_list (month_days (year_of d))" by (simp add: month_days_def)
    moreover have "365 * (e + 1) = 365 * e + 365" "b * 36524 = 36524 * b" by simp_all
    ultimately show ?thesis using True days_before_next [of "year_of d"] before d s_def c(1) by linarith
  next
    case False
    then have "e = 3" using e(2,4) by linarith
    with False have u: "e = 3" "u = 1460" using c(3) by simp_all
    have "b = 3" if "c = 24" using that s c(1) u(2) b by linarith
    then have "leap_year (year_of d)" unfolding y u(1) using b(1,2) c(4) c24 by (intro last_of_cycle) auto
    then have "sum_list (month_days (year_of d)) = 366" by (simp add: month_days_def)
    moreover have "b * 36524 = 36524 * b" by simp
    ultimately show ?thesis using u days_before_next [of "year_of d"] before d s_def c(1) by linarith
  qed
qed

lemma days_before_le: "y < z \<Longrightarrow> days_before (y + 1) \<le> days_before z"
proof -
  have pos: "0 \<le> sum_list (month_days y)" for y by (simp add: month_days_def)
  assume "y < z"
  then have "y + 1 \<le> z" by simp
  then show ?thesis
  proof (induction z rule: int_ge_induct)
    case (step z)
    then show ?case using days_before_next [of z] pos [of z] by linarith
  qed simp
qed

lemma year_of_mono: "d \<le> d' \<Longrightarrow> year_of d \<le> year_of d'"
  using days_before_le [of "year_of d'" "year_of d"] year_of_ok [of d] year_of_ok [of d'] by linarith

lemma month_and_day_ok:
  assumes "0 \<le> d" "d < sum_list ns" "month_and_day ns d = (m, k)" "\<forall>n\<in>set ns. 0 < n"
  shows "0 \<le> m \<and> nat m < length ns \<and> 1 \<le> k \<and> k \<le> ns ! nat m \<and> sum_list (take (nat m) ns) + k - 1 = d"
  using assms
proof (induction ns d arbitrary: m rule: month_and_day.induct)
  case (2 n ns d)
  show ?case
  proof (cases "d < n")
    case False
    with 2 obtain m' where m: "month_and_day ns (d - n) = (m', k)" "m = m' + 1"
      by (auto split: prod.splits)
    have "0 \<le> m' \<and> nat m' < length ns \<and> 1 \<le> k \<and> k \<le> ns ! nat m' \<and> sum_list (take (nat m') ns) + k - 1 = d - n"
      by (rule 2(1)) (use False m 2(2-) in auto)
    moreover from this have "nat (m' + 1) = Suc (nat m')" by (simp add: nat_add_distrib)
    ultimately show ?thesis using m(2) by simp
  qed (use 2 in auto)
qed simp

lemma month_and_day_less:
  assumes "0 \<le> d" "d < d'" "d' < sum_list ns" "month_and_day ns d = (m, k)" "month_and_day ns d' = (m', k')"
    "\<forall>n\<in>set ns. 0 < n"
  shows "m < m' \<or> m = m' \<and> k < k'"
  using assms
proof (induction ns d arbitrary: d' m m' rule: month_and_day.induct)
  case (2 n ns d)
  show ?case
  proof (cases "d < n \<or> d' < n")
    case True
    then show ?thesis
    proof (cases "d' < n")
      case False
      with 2 obtain j where j: "month_and_day ns (d' - n) = (j, k')" "m' = j + 1" by (auto split: prod.splits)
      have "0 \<le> j" using month_and_day_ok [OF _ _ j(1)] 2 False by simp
      then show ?thesis using True False 2 j by auto
    qed (use 2 in auto)
  next
    case False
    with 2 obtain i j where m: "month_and_day ns (d - n) = (i, k)" "m = i + 1" "month_and_day ns (d' - n) = (j, k')" "m' = j + 1"
      by (auto split: prod.splits)
    have "i < j \<or> i = j \<and> k < k'" by (rule 2(1) [OF _ _ _ _ m(1,3)]) (use False 2 in auto)
    then show ?thesis using m by auto
  qed
qed simp

lemma month_days_pos: "\<forall>n\<in>set (month_days y). 0 < n" "length (month_days y) = 12"
  by (simp_all add: month_days_def)

definition tm_values :: "struct_tm \<Rightarrow> int list" where
  "tm_values x = [tm_year x + 1900, tm_mon x + 1, tm_mday x, tm_hour x, tm_min x, tm_sec x]"

text \<open>The fields of \<open>gmtime\<close> are a date and a time of that day, and they are the time they were made from.\<close>

lemma gmtime_ok:
  fixes t defines "x \<equiv> gmtime t"
  shows "0 \<le> tm_mon x \<and> tm_mon x < 12 \<and> 1 \<le> tm_mday x \<and> tm_mday x \<le> month_days (tm_year x + 1900) ! nat (tm_mon x) \<and>
    0 \<le> tm_hour x \<and> tm_hour x < 24 \<and> 0 \<le> tm_min x \<and> tm_min x < 60 \<and> 0 \<le> tm_sec x \<and> tm_sec x < 60"
    and "(days_before (tm_year x + 1900) + sum_list (take (nat (tm_mon x)) (month_days (tm_year x + 1900))) + tm_mday x - 1) * 86400 +
      tm_hour x * 3600 + tm_min x * 60 + tm_sec x = t"
    and "tm_year x + 1900 = year_of (t div 86400)"
proof -
  define d s where "d = t div 86400" and "s = t mod 86400"
  define y where "y = year_of d"
  obtain m k where mk: "month_and_day (month_days y) (d - days_before y) = (m, k)" by (cases "month_and_day (month_days y) (d - days_before y)")
  have x: "x = \<lparr>tm_year = y - 1900, tm_mon = m, tm_mday = k, tm_hour = s div 3600, tm_min = s div 60 mod 60, tm_sec = s mod 60\<rparr>"
    by (simp add: x_def gmtime_def Let_def mk flip: d_def s_def y_def)
  have range: "0 \<le> d - days_before y" "d - days_before y < sum_list (month_days y)"
    using year_of_ok [of d] days_before_next [of y] by (simp_all add: y_def)
  note mo = month_and_day_ok [OF range mk month_days_pos(1)]
  have s: "0 \<le> s" "s < 86400" "t = d * 86400 + s" by (simp_all add: s_def d_def)
  have hour: "0 \<le> s div 3600" "s div 3600 < 24" using s by linarith+
  show "0 \<le> tm_mon x \<and> tm_mon x < 12 \<and> 1 \<le> tm_mday x \<and> tm_mday x \<le> month_days (tm_year x + 1900) ! nat (tm_mon x) \<and>
    0 \<le> tm_hour x \<and> tm_hour x < 24 \<and> 0 \<le> tm_min x \<and> tm_min x < 60 \<and> 0 \<le> tm_sec x \<and> tm_sec x < 60"
    using mo hour by (simp add: x month_days_pos) linarith
  have "s div 3600 = s div 60 div 60" using zdiv_zmult2_eq [of 60 s 60] by simp
  moreover have "q div 60 * 60 + q mod 60 = q" for q :: int by simp
  from this [of s] this [of "s div 60"] have "(s div 60 div 60 * 60 + s div 60 mod 60) * 60 + s mod 60 = s" by argo
  ultimately have clock: "s div 3600 * 3600 + s div 60 mod 60 * 60 + s mod 60 = s" unfolding distrib_right by simp
  have "sum_list (take (nat m) (month_days y)) + k - 1 = d - days_before y" using mo by blast
  then show "(days_before (tm_year x + 1900) + sum_list (take (nat (tm_mon x)) (month_days (tm_year x + 1900))) + tm_mday x - 1) * 86400 +
      tm_hour x * 3600 + tm_min x * 60 + tm_sec x = t"
    using clock s(3) by (simp add: x)
  show "tm_year x + 1900 = year_of (t div 86400)" by (simp add: x y_def d_def)
qed


section \<open>Later times\<close>

lemma int_div_mod_less: "0 < n \<Longrightarrow> s < t \<Longrightarrow> s div n < t div n \<or> s div n = t div n \<and> s mod n < t mod n" for n :: int
proof -
  assume "0 < n" "s < t"
  moreover from this have "s div n \<le> t div n" by (simp add: zdiv_mono1)
  moreover have "n * (s div n) = n * (t div n)" if "s div n = t div n" using that by simp
  ultimately show ?thesis using mult_div_mod_eq [of n s] mult_div_mod_eq [of n t] by linarith
qed

lemma date_less:
  assumes "d < e" "month_and_day (month_days (year_of d)) (d - days_before (year_of d)) = (m, k)"
    "month_and_day (month_days (year_of e)) (e - days_before (year_of e)) = (n, l)"
  shows "year_of d < year_of e \<or> year_of d = year_of e \<and> (m < n \<or> m = n \<and> k < l)"
proof (cases "year_of d = year_of e")
  case True
  have "0 \<le> d - days_before (year_of e)" "d - days_before (year_of e) < e - days_before (year_of e)"
    "e - days_before (year_of e) < sum_list (month_days (year_of e))"
    using year_of_ok [of d] year_of_ok [of e] days_before_next [of "year_of e"] assms(1) True by simp_all
  from month_and_day_less [OF this _ assms(3) month_days_pos(1)] True assms(2) show ?thesis by simp
next
  case False
  then show ?thesis using year_of_mono [of d e] assms(1) by simp
qed

lemma gmtime_less:
  assumes "t < u" shows "tm_values (gmtime t) < tm_values (gmtime u)"
proof -
  let ?y = "year_of (t div 86400)" and ?z = "year_of (u div 86400)"
  let ?d = "t div 86400 - days_before ?y" and ?e = "u div 86400 - days_before ?z"
  obtain m k where mk: "month_and_day (month_days ?y) ?d = (m, k)" by fastforce
  obtain n l where nl: "month_and_day (month_days ?z) ?e = (n, l)" by fastforce
  have mod: "(s mod 86400) div 3600 < (s' mod 86400) div 3600 \<or> (s mod 86400) div 3600 = (s' mod 86400) div 3600 \<and>
     (s mod 86400 div 60 mod 60 < s' mod 86400 div 60 mod 60 \<or> s mod 86400 div 60 mod 60 = s' mod 86400 div 60 mod 60 \<and>
      s mod 86400 mod 60 < s' mod 86400 mod 60)"
    if "s mod 86400 < s' mod 86400" for s s' :: int
  proof -
    have div: "r div 3600 = r div 60 div 60" for r :: int using zdiv_zmult2_eq [of 60 r 60] by simp
    show ?thesis unfolding div
      using int_div_mod_less [OF zero_less_numeral that] int_div_mod_less [OF zero_less_numeral, of "s mod 86400 div 60" "s' mod 86400 div 60"] by metis
  qed
  have vt: "tm_values (gmtime t) = [?y, m + 1, k, t mod 86400 div 3600, t mod 86400 div 60 mod 60, t mod 86400 mod 60]"
    and vu: "tm_values (gmtime u) = [?z, n + 1, l, u mod 86400 div 3600, u mod 86400 div 60 mod 60, u mod 86400 mod 60]"
    unfolding tm_values_def gmtime_def Let_def mk nl by (simp_all only: prod.case struct_tm.simps diff_add_cancel)
  consider (day) "t div 86400 < u div 86400" | (clock) "t div 86400 = u div 86400" "t mod 86400 < u mod 86400"
    using int_div_mod_less [OF zero_less_numeral assms] by blast
  then show ?thesis
  proof cases
    case day
    from date_less [OF day mk nl] have "?y < ?z \<or> ?y = ?z \<and> (m < n \<or> m = n \<and> k < l)" .
    then show ?thesis unfolding vt vu Cons_less_Cons by (elim disjE conjE) (simp_all only: simp_thms add_strict_right_mono)
  next
    case clock
    from mk nl have "m = n" "k = l" unfolding clock(1) by simp_all
    with mod [OF clock(2)] show ?thesis unfolding vt vu Cons_less_Cons clock(1) by blast
  qed
qed

section \<open>Greater texts\<close>

lemma less_append_same: "xs @ us < xs @ vs \<longleftrightarrow> us < (vs :: 'a::order list)"
  by (induction xs) auto

lemma less_append: "xs < ys \<Longrightarrow> length xs = length ys \<Longrightarrow> xs @ us < ys @ (vs :: 'a::order list)"
  by (induction xs ys rule: list_induct2') auto

fun fixed_digits :: "nat \<Rightarrow> nat \<Rightarrow> string" where
  "fixed_digits 0 n = []"
| "fixed_digits (Suc w) n = fixed_digits w (n div 10) @ [digit_char (n mod 10)]"

lemma length_digits [simp]: "length (fixed_digits w n) = w"
  by (induction w arbitrary: n) simp_all

lemma digit_char_less: "m < n \<Longrightarrow> n < 10 \<Longrightarrow> digit_char m < digit_char n"
  by (simp add: digit_char_def less_char_def)

lemma digits_less: "m < n \<Longrightarrow> n < 10 ^ w \<Longrightarrow> fixed_digits w m < fixed_digits w n"
proof (induction w arbitrary: m n)
  case (Suc w)
  have "m div 10 \<le> n div 10" using Suc.prems by (simp add: div_le_mono)
  then consider "m div 10 < n div 10" | "m div 10 = n div 10" by linarith
  then show ?case
  proof cases
    case 1
    then have "fixed_digits w (m div 10) < fixed_digits w (n div 10)" using Suc.prems by (intro Suc.IH) simp_all
    then show ?thesis by (simp add: less_append)
  next
    case 2
    then have "m mod 10 < n mod 10" using Suc.prems(1) mult_div_mod_eq [of 10 m] mult_div_mod_eq [of 10 n] by linarith
    then show ?thesis using 2 by (simp add: less_append_same digit_char_less)
  qed
qed simp

lemma digits_zero: "fixed_digits w 0 = replicate w CHR ''0''"
  by (induction w) (simp_all add: digit_char_eval replicate_append_same)

lemma pad_digits: "n < 10 ^ w \<Longrightarrow> 0 < w \<Longrightarrow> replicate (w - length (dec n)) CHR ''0'' @ dec n = fixed_digits w n"
proof (induction w arbitrary: n)
  case (Suc w)
  show ?case
  proof (cases "n < 10")
    case True
    then show ?thesis by (simp add: dec_induct_cases digits_zero)
  next
    case False
    with Suc.prems have "replicate (w - length (dec (n div 10))) CHR ''0'' @ dec (n div 10) = fixed_digits w (n div 10)"
      by (intro Suc.IH) (auto intro: gr0I)
    with False show ?thesis by (simp add: dec_induct_cases)
  qed
qed simp

text \<open>Fields of fixed widths, each with the separator behind it.\<close>

fun show_fields :: "(nat \<times> string) list \<Rightarrow> int list \<Rightarrow> string" where
  "show_fields ((w, s) # ws) (v # vs) = fixed_digits w (nat v) @ s @ show_fields ws vs"
| "show_fields _ _ = []"

fun fields_fit :: "(nat \<times> string) list \<Rightarrow> int list \<Rightarrow> bool" where
  "fields_fit ((w, s) # ws) (v # vs) \<longleftrightarrow> 0 \<le> v \<and> v < 10 ^ w \<and> fields_fit ws vs"
| "fields_fit ws vs \<longleftrightarrow> ws = [] \<and> vs = []"

lemma show_fields_less: "fields_fit ws us \<Longrightarrow> fields_fit ws vs \<Longrightarrow> us < vs \<Longrightarrow> show_fields ws us < show_fields ws vs"
proof (induction ws us arbitrary: vs rule: fields_fit.induct)
  case (1 w s ws u us)
  then obtain v vs' where vs: "vs = v # vs'" by (cases vs) auto
  show ?case
  proof (cases "u = v")
    case True
    then show ?thesis using 1 vs by (simp add: less_append_same)
  next
    case False
    then have "u < v" using 1 vs by simp
    moreover have "nat v < 10 ^ w" using "1.prems"(2) vs by (simp add: nat_less_iff)
    ultimately show ?thesis using "1.prems"(1) vs by (simp add: digits_less less_append)
  qed
qed auto

lemma length_show_fields: "fields_fit ws vs \<Longrightarrow> length (show_fields ws vs) = sum_list (map (\<lambda>(w, s). w + length s) ws)"
  by (induction ws vs rule: fields_fit.induct) auto

lemma printf_digits: "0 \<le> v \<Longrightarrow> v < 10 ^ w \<Longrightarrow> 0 < w \<Longrightarrow> printf_d CHR ''0'' w v = fixed_digits w (nat v)"
  using pad_digits [of "nat v" w] by (simp add: printf_d_def Let_def nat_less_iff)

lemma dec_four: "1000 \<le> n \<Longrightarrow> n < 10000 \<Longrightarrow> dec n = fixed_digits 4 n"
proof -
  assume n: "1000 \<le> n" "n < 10000"
  then have "length (dec n) = 4" by (simp add: dec_induct_cases div_mult2_eq [symmetric] flip: div_mult2_eq)
  then show ?thesis using pad_digits [of n 4] n by simp
qed

lemma year_texts: "1000 \<le> v \<Longrightarrow> v < 10000 \<Longrightarrow> printf_d CHR '' '' 4 v = fixed_digits 4 (nat v)"
    "1000 \<le> v \<Longrightarrow> v < 10000 \<Longrightarrow> decimal v = fixed_digits 4 (nat v)"
  by (simp_all add: printf_d_def decimal_def Let_def dec_four)

definition date_fields :: "string \<Rightarrow> string \<Rightarrow> string \<Rightarrow> (nat \<times> string) list" where
  "date_fields a b c = [(4, a), (2, a), (2, b), (2, '':''), (2, '':''), (2, c)]"

text \<open>The first day of the year 10000.\<close>

lemma year_bounds: "0 \<le> t \<Longrightarrow> t < 253402300800 \<Longrightarrow> 1970 \<le> year_of (t div 86400) \<and> year_of (t div 86400) < 10000"
proof -
  assume "0 \<le> t" "t < 253402300800"
  then have "0 \<le> t div 86400" "t div 86400 \<le> 2932896" by linarith+
  moreover have "year_of 0 = 1970" "year_of 2932896 = 9999" by code_simp+
  ultimately show ?thesis using year_of_mono [of 0 "t div 86400"] year_of_mono [of "t div 86400" 2932896] by linarith
qed

lemma date_fits: "0 \<le> t \<Longrightarrow> t < 253402300800 \<Longrightarrow> fields_fit (date_fields a b c) (tm_values (gmtime t))"
proof -
  assume t: "0 \<le> t" "t < 253402300800"
  have "n \<le> 31" if "n \<in> set (month_days y)" for n y using that by (auto simp: month_days_def split: if_splits)
  moreover have "month_days (tm_year (gmtime t) + 1900) ! nat (tm_mon (gmtime t)) \<in> set (month_days (tm_year (gmtime t) + 1900))"
    using gmtime_ok(1) [of t] by (intro nth_mem) (simp add: month_days_pos(2) nat_less_iff)
  ultimately have "tm_mday (gmtime t) \<le> 31" using gmtime_ok(1) [of t] order_trans by blast
  then show ?thesis using gmtime_ok(1) [of t] gmtime_ok(3) [of t] year_bounds [OF t] by (simp add: date_fields_def tm_values_def)
qed

lemma date_text:
  assumes "fields_fit (date_fields a b c) (tm_values x)" "1000 \<le> tm_year x + 1900"
  shows "show_fields (date_fields [] '' '' []) (tm_values x) = show_tm x"
    and "''.'' @ show_fields (date_fields ''-'' ''-'' []) (tm_values x) = strftime_name x"
  using assms by (simp_all add: date_fields_def tm_values_def show_tm_def strftime_name_def printf_digits year_texts)

section \<open>Later times have greater texts\<close>

lemma strftime_name_less:
  assumes "0 \<le> t" "t < u" "u < 253402300800"
  shows "strftime_name (gmtime t) < strftime_name (gmtime u)"
proof -
  have fits: "fields_fit (date_fields a b c) (tm_values (gmtime t))" "fields_fit (date_fields a b c) (tm_values (gmtime u))" for a b c
    using assms by (simp_all add: date_fits)
  have years: "1000 \<le> tm_year (gmtime t) + 1900" "1000 \<le> tm_year (gmtime u) + 1900"
    using year_bounds [of t] year_bounds [of u] assms unfolding gmtime_ok(3) by simp_all
  show ?thesis
    using show_fields_less [OF fits gmtime_less [OF assms(2)]]
    by (simp add: less_append_same flip: date_text(2) [OF fits(1) years(1)] date_text(2) [OF fits(2) years(2)])
qed

lemma length_strftime_name:
  assumes "0 \<le> t" "t < 253402300800" shows "length (strftime_name (gmtime t)) = 20"
proof -
  have fits: "fields_fit (date_fields a b c) (tm_values (gmtime t))" for a b c using assms by (simp add: date_fits)
  have "1000 \<le> tm_year (gmtime t) + 1900" using year_bounds [of t] assms unfolding gmtime_ok(3) by simp
  from date_text(2) [OF fits this, symmetric] show ?thesis
    using length_show_fields [OF fits, of "''-''" "''-''" "[]"] by (simp add: date_fields_def)
qed

text \<open>The time of a log line, for the years up to 9999.\<close>

lemma formatTime_ok:
  assumes "0 \<le> sint t" "sint t < 253402300800000000"
  shows "formatTime t = show_fields (date_fields [] '' '' ''.'' @ [(6, [])]) (tm_values (gmtime (sint t div 1000000)) @ [sint t mod 1000000])"
    and "fields_fit (date_fields [] '' '' ''.'' @ [(6, [])]) (tm_values (gmtime (sint t div 1000000)) @ [sint t mod 1000000])"
proof -
  let ?s = "sint t div 1000000"
  have s: "0 \<le> ?s" "?s < 253402300800" using assms by linarith+
  have split: "seconds_of t = ?s" "microseconds_of t = sint t mod 1000000"
    using assms(1) by (simp_all add: seconds_of_def microseconds_of_def signed_divide_int_def signed_modulo_int_def sgn_if)
  have append: "show_fields (date_fields a b c @ [(6, [])]) (tm_values x @ [v]) = show_fields (date_fields a b []) (tm_values x) @ c @ fixed_digits 6 (nat v)"
    "fields_fit (date_fields a b c @ [(6, [])]) (tm_values x @ [v]) \<longleftrightarrow> fields_fit (date_fields a b c) (tm_values x) \<and> 0 \<le> v \<and> v < 10 ^ 6"
    for a b c x v by (simp_all add: date_fields_def tm_values_def)
  show fits: "fields_fit (date_fields [] '' '' ''.'' @ [(6, [])]) (tm_values (gmtime ?s) @ [sint t mod 1000000])"
    unfolding append using date_fits [OF s] by simp
  have year: "1000 \<le> tm_year (gmtime ?s) + 1900" using year_bounds [OF s] unfolding gmtime_ok(3) by simp
  have "show_tm (gmtime ?s) @ ''.'' @ printf_d CHR ''0'' 6 (sint t mod 1000000) =
      show_fields (date_fields [] '' '' ''.'' @ [(6, [])]) (tm_values (gmtime ?s) @ [sint t mod 1000000])"
    unfolding append date_text(1) [OF date_fits [OF s] year] by (simp add: printf_digits)
  then show "formatTime t = show_fields (date_fields [] '' '' ''.'' @ [(6, [])]) (tm_values (gmtime ?s) @ [sint t mod 1000000])"
    using length_show_fields [OF fits] by (simp add: formatTime_def split date_fields_def)
qed

lemma formatTime_less:
  assumes "0 \<le> sint t" "sint t < sint u" "sint u < 253402300800000000"
  shows "formatTime t < formatTime u"
proof -
  let ?v = "\<lambda>t. tm_values (gmtime (sint t div 1000000)) @ [sint t mod 1000000]"
  have same: "length (tm_values x) = length (tm_values y)" for x y by (simp add: tm_values_def)
  consider "sint t div 1000000 < sint u div 1000000" | "sint t div 1000000 = sint u div 1000000" "sint t mod 1000000 < sint u mod 1000000"
    using int_div_mod_less [OF zero_less_numeral assms(2)] by blast
  then have "?v t < ?v u"
    by cases (simp_all only: less_append [OF gmtime_less same] less_append_same Cons_less_Cons simp_thms)
  with formatTime_ok [of t] formatTime_ok [of u] assms show ?thesis by (simp add: show_fields_less)
qed

lemma length_formatTime: "0 \<le> sint t \<Longrightarrow> sint t < 253402300800000000 \<Longrightarrow> length (formatTime t) = 24"
  using length_show_fields [OF formatTime_ok(2)] formatTime_ok(1) [of t] by (simp add: date_fields_def)

lemma printf_no_nul: "pad \<noteq> CHR 0x00 \<Longrightarrow> CHR 0x00 \<notin> set (printf_d pad w v)"
  using dec_digits [of "CHR 0x00" "nat \<bar>v\<bar>"] by (auto simp: printf_d_def Let_def is_digit_def byte_of_def)

lemma formatTime_no_nul: "takeWhile (\<lambda>c. c \<noteq> CHR 0x00) (formatTime t) = formatTime t"
proof -
  have "CHR 0x00 \<notin> set (show_tm x @ ''.'' @ printf_d CHR ''0'' 6 v)" for x v by (simp add: show_tm_def printf_no_nul)
  then have "CHR 0x00 \<notin> set (formatTime t)" unfolding formatTime_def by (meson in_set_takeD)
  then show ?thesis by (auto simp: takeWhile_eq_all_conv)
qed

end
