(* ===== verification/BaseStream.thy ===== *)
theory BaseStream
  imports NetBuffer JsonDouble BaseTime
begin

text \<open>
  \<open>base/Logstream\<close> and \<open>base/Logging\<close>: the fixed buffer of a log line, the printing of integers
  into it, the insertions a line is made of, and the line a \<open>Logger\<close> hands to its output.
  \<open>FixedBuffer<SIZE>\<close> is its array of \<open>SIZE\<close> bytes and the index of \<open>cur_\<close>.
\<close>

section \<open>Fixed buffers\<close>

definition kSmallBuffer :: nat where "kSmallBuffer = 4000"
definition kLargerBuffer :: nat where "kLargerBuffer = 4000 * 1000"

record fixed =
  fb_data :: string
  fb_cur :: nat

definition fixed_init :: "nat \<Rightarrow> fixed" where
  "fixed_init cap = \<lparr>fb_data = replicate cap nul_char, fb_cur = 0\<rparr>"

definition avail :: "fixed \<Rightarrow> nat" where
  "avail b = length (fb_data b) - fb_cur b"

definition fb_append :: "string \<Rightarrow> fixed \<Rightarrow> fixed" where
  "fb_append s b =
     (if avail b > length s
      then b\<lparr>fb_data := copy_to (fb_cur b) s (fb_data b), fb_cur := fb_cur b + length s\<rparr>
      else b)"

definition fb_add :: "nat \<Rightarrow> fixed \<Rightarrow> fixed" where
  "fb_add len b = b\<lparr>fb_cur := fb_cur b + len\<rparr>"

definition fb_reset :: "fixed \<Rightarrow> fixed" where
  "fb_reset b = b\<lparr>fb_cur := 0\<rparr>"

definition fb_bzero :: "fixed \<Rightarrow> fixed" where
  "fb_bzero b = b\<lparr>fb_data := replicate (length (fb_data b)) nul_char\<rparr>"

definition fb_length :: "fixed \<Rightarrow> nat" where
  "fb_length b = fb_cur b"

text \<open>What \<open>data()\<close> and \<open>length()\<close> delimit, and what \<open>toString\<close> reads, up to the first NUL.\<close>

definition fb_text :: "fixed \<Rightarrow> string" where
  "fb_text b = take (fb_length b) (fb_data b)"

definition fb_toString :: "fixed \<Rightarrow> string" where
  "fb_toString b = takeWhile (\<lambda>c. c \<noteq> nul_char) (fb_data b)"

definition fixed_inv :: "nat \<Rightarrow> fixed \<Rightarrow> bool" where
  "fixed_inv cap b \<longleftrightarrow> length (fb_data b) = cap \<and> fb_cur b < cap"

lemma fixed_init_ok: "0 < cap \<Longrightarrow> fixed_inv cap (fixed_init cap)" "fb_text (fixed_init cap) = []"
  by (simp_all add: fixed_inv_def fixed_init_def fb_text_def fb_length_def)

text \<open>An append keeps one byte free: it takes the whole of a text that fits, and nothing of one that does not.\<close>

lemma fb_append_ok:
  assumes "fixed_inv cap b"
  shows "fixed_inv cap (fb_append s b)"
    "fb_text (fb_append s b) = (if length (fb_text b) + length s < cap then fb_text b @ s else fb_text b)"
  using assms by (auto simp: fixed_inv_def fb_append_def avail_def copy_to_def fb_text_def fb_length_def)

lemma fb_reset_ok: "fixed_inv cap b \<Longrightarrow> fixed_inv cap (fb_reset b)" "fb_text (fb_reset b) = []"
  by (simp_all add: fixed_inv_def fb_reset_def fb_text_def fb_length_def)

section \<open>Integers\<close>

definition log_digits :: string where
  "log_digits = ''9876543210123456789''"

text \<open>\<open>zero[lsd]\<close>, where \<open>lsd\<close> may be negative: \<open>zero\<close> points into the middle of \<open>digits\<close>.\<close>

definition zero_at :: "int \<Rightarrow> char" where
  "zero_at lsd = log_digits ! nat (9 + lsd)"

text \<open>\<open>%\<close> and \<open>/\<close> of C++ round to zero.\<close>

function convert_loop :: "int \<Rightarrow> string" where
  "convert_loop i =
     (let lsd = i smod 10; i = i sdiv 10 in zero_at lsd # (if i \<noteq> 0 then convert_loop i else []))"
  by auto
termination
  by (relation "measure (\<lambda>i. nat \<bar>i\<bar>)")
    (auto simp: signed_divide_int_def sgn_if abs_if split: if_splits)

declare convert_loop.simps [simp del]

text \<open>The characters it leaves in \<open>buf\<close>, without the NUL behind them; their number is returned.\<close>

definition convert :: "int \<Rightarrow> string" where
  "convert v = rev (convert_loop v @ (if v < 0 then ''-'' else []))"

definition kMaxNumericSize :: nat where "kMaxNumericSize = 32"

definition formatInteger :: "int \<Rightarrow> fixed \<Rightarrow> fixed" where
  "formatInteger v b =
     (if avail b \<ge> kMaxNumericSize
      then fb_add (length (convert v)) (b\<lparr>fb_data := copy_to (fb_cur b) (convert v @ [nul_char]) (fb_data b)\<rparr>)
      else b)"

text \<open>The reference: the sign and the decimal digits.\<close>

lemma zero_at_digit: "n < 10 \<Longrightarrow> zero_at (int n) = digit_char n" "n < 10 \<Longrightarrow> zero_at (- int n) = digit_char n"
proof -
  assume "n < 10"
  then have "n \<in> {0, 1, 2, 3, 4, 5, 6, 7, 8, 9}" by auto
  then show "zero_at (int n) = digit_char n" "zero_at (- int n) = digit_char n"
    by (auto simp: zero_at_def log_digits_def run_simps nth_Cons')
qed

lemma convert_loop_pos: "rev (convert_loop (int n)) = dec n"
proof (induction n rule: less_induct)
  case (less n)
  have "int n sdiv 10 = int (n div 10)" "int n smod 10 = int (n mod 10)"
    by (simp_all add: signed_divide_int_def signed_modulo_int_def sgn_if zdiv_int zmod_int minus_div_mult_eq_mod)
  then show ?case
    using less [of "n div 10"] by (subst convert_loop.simps, subst dec.simps) (auto simp: zero_at_digit Let_def)
qed

lemma convert_loop_neg: "0 < n \<Longrightarrow> rev (convert_loop (- int n)) = dec n"
proof (induction n rule: less_induct)
  case (less n)
  have "(- int n) sdiv 10 = - int (n div 10)" "(- int n) smod 10 = - int (n mod 10)"
    using less.prems
    by (auto simp: signed_divide_int_def signed_modulo_int_def sgn_if zdiv_int zmod_int minus_div_mult_eq_mod [symmetric] algebra_simps)
  then show ?case
    using less.IH [of "n div 10"] less.prems
    by (subst convert_loop.simps, subst dec.simps) (auto simp: zero_at_digit Let_def)
qed

lemma convert_decimal: "convert v = decimal v"
  using convert_loop_neg [of "nat (- v)"] convert_loop_pos [of "nat v"]
  by (cases "v < 0") (simp_all add: convert_def decimal_def)

text \<open>A 64-bit integer with its sign and the NUL needs 21 bytes, of the 32 asked for.\<close>

lemma length_convert:
  assumes "- (2 ^ 63) \<le> v" "v < 2 ^ 64"
  shows "length (convert v) \<le> 20"
proof (cases "v < 0")
  case True
  then have "length (dec (nat (- v))) \<le> 19" using assms by (intro length_dec_le) auto
  with True show ?thesis by (simp add: convert_decimal decimal_def)
next
  case False
  then have "length (dec (nat v)) \<le> 20" using assms by (intro length_dec_le) auto
  with False show ?thesis by (simp add: convert_decimal decimal_def)
qed

lemma formatInteger_ok:
  assumes "fixed_inv cap b" "- (2 ^ 63) \<le> v" "v < 2 ^ 64"
  shows "fixed_inv cap (formatInteger v b)"
    "fb_text (formatInteger v b) = (if length (fb_text b) + kMaxNumericSize \<le> cap then fb_text b @ decimal v else fb_text b)"
  using assms(1) length_convert [OF assms(2,3)]
  by (auto simp: fixed_inv_def formatInteger_def avail_def copy_to_def fb_text_def fb_length_def fb_add_def
      kMaxNumericSize_def convert_decimal)

section \<open>Insertions\<close>

text \<open>
  The overloads of \<open>operator<<\<close> by the type inserted. \<open>short\<close> and \<open>unsigned short\<close> are widened,
  \<open>long\<close> and \<open>long long\<close> have 64 bits, \<open>float\<close> is converted to \<open>double\<close> exactly, a null
  pointer is None; a C string ends before its first NUL.
\<close>

datatype log_arg = LBool bool | LShort "16 word" | LUShort "16 word" | LInt i32 | LUInt i32 | LLong i64 | LULong i64 |
  LDouble double | LChar char | LCStr "string option" | LStr string

definition kDoubleFormat :: nat where "kDoubleFormat = 12"

text \<open>\<open>snprintf\<close> with the size 32; its result is the length of the whole text.\<close>

definition formatDouble :: "double \<Rightarrow> fixed \<Rightarrow> fixed" where
  "formatDouble v b =
     (if avail b \<ge> kMaxNumericSize
      then let s = fmt_g kDoubleFormat v
           in fb_add (length s) (b\<lparr>fb_data := copy_to (fb_cur b) (take (kMaxNumericSize - 1) s @ [nul_char]) (fb_data b)\<rparr>)
      else b)"

fun insert_arg :: "log_arg \<Rightarrow> fixed \<Rightarrow> fixed" where
  "insert_arg (LBool v) b = fb_append (if v then ''1'' else ''0'') b"
| "insert_arg (LShort v) b = formatInteger (sint v) b"
| "insert_arg (LUShort v) b = formatInteger (uint v) b"
| "insert_arg (LInt v) b = formatInteger (sint v) b"
| "insert_arg (LUInt v) b = formatInteger (uint v) b"
| "insert_arg (LLong v) b = formatInteger (sint v) b"
| "insert_arg (LULong v) b = formatInteger (uint v) b"
| "insert_arg (LDouble v) b = formatDouble v b"
| "insert_arg (LChar v) b = fb_append [v] b"
| "insert_arg (LCStr v) b =
     (case v of Some s \<Rightarrow> fb_append (takeWhile (\<lambda>c. c \<noteq> nul_char) s) b | None \<Rightarrow> fb_append ''(null)'' b)"
| "insert_arg (LStr v) b = fb_append v b"

text \<open>What an insertion shows, and whether there is room for it in a line with so many bytes.\<close>

fun shown :: "log_arg \<Rightarrow> string" where
  "shown (LBool v) = (if v then ''1'' else ''0'')"
| "shown (LShort v) = decimal (sint v)"
| "shown (LUShort v) = decimal (uint v)"
| "shown (LInt v) = decimal (sint v)"
| "shown (LUInt v) = decimal (uint v)"
| "shown (LLong v) = decimal (sint v)"
| "shown (LULong v) = decimal (uint v)"
| "shown (LDouble v) = fmt_g 12 v"
| "shown (LChar v) = [v]"
| "shown (LCStr v) = (case v of Some s \<Rightarrow> takeWhile (\<lambda>c. c \<noteq> nul_char) s | None \<Rightarrow> ''(null)'')"
| "shown (LStr v) = v"

fun numeric :: "log_arg \<Rightarrow> bool" where
  "numeric (LBool v) = False"
| "numeric (LChar v) = False"
| "numeric (LCStr v) = False"
| "numeric (LStr v) = False"
| "numeric _ = True"

definition has_room :: "nat \<Rightarrow> log_arg \<Rightarrow> nat \<Rightarrow> bool" where
  "has_room cap x n \<longleftrightarrow> (if numeric x then n + 32 \<le> cap else n + length (shown x) < cap)"

lemma insert_arg_ok:
  assumes b: "fixed_inv cap b" and x: "\<And>d. x = LDouble d \<Longrightarrow> length (fmt_g 12 d) < 32"
  shows "fixed_inv cap (insert_arg x b)"
    "fb_text (insert_arg x b) = (if has_room cap x (length (fb_text b)) then fb_text b @ shown x else fb_text b)"
proof -
  have r16: "- (2 ^ 63) \<le> sint (w :: 16 word)" "sint w < 2 ^ 64" "- (2 ^ 63) \<le> uint w" "uint w < 2 ^ 64" for w
    using sint_ge [of w] sint_lt [of w] uint_lt2p [of w] by (auto intro: order.trans [where b = 0])
  have r32: "- (2 ^ 63) \<le> sint (w :: i32)" "sint w < 2 ^ 64" "- (2 ^ 63) \<le> uint w" "uint w < 2 ^ 64" for w
    using sint_ge [of w] sint_lt [of w] uint_lt2p [of w] by (auto intro: order.trans [where b = 0])
  have r64: "- (2 ^ 63) \<le> sint (w :: i64)" "sint w < 2 ^ 64" "- (2 ^ 63) \<le> uint w" "uint w < 2 ^ 64" for w
    using sint_ge [of w] sint_lt [of w] uint_lt2p [of w] by (auto intro: order.trans [where b = 0])
  note num = formatInteger_ok [OF b r16(1,2)] formatInteger_ok [OF b r16(3,4)] formatInteger_ok [OF b r32(1,2)]
    formatInteger_ok [OF b r32(3,4)] formatInteger_ok [OF b r64(1,2)] formatInteger_ok [OF b r64(3,4)]
  have d: "fixed_inv cap (formatDouble v b)"
    "fb_text (formatDouble v b) = (if length (fb_text b) + 32 \<le> cap then fb_text b @ fmt_g 12 v else fb_text b)"
    if "length (fmt_g 12 v) < 32" for v
    using b that
    by (auto simp: fixed_inv_def formatDouble_def avail_def copy_to_def fb_text_def fb_length_def fb_add_def
        kMaxNumericSize_def kDoubleFormat_def Let_def)
  show "fixed_inv cap (insert_arg x b)"
    "fb_text (insert_arg x b) = (if has_room cap x (length (fb_text b)) then fb_text b @ shown x else fb_text b)"
    using b x by (cases x; simp add: has_room_def fb_append_ok d num kMaxNumericSize_def split: option.split)+
qed


section \<open>The line of a logger\<close>

text \<open>
  \<open>Logger\<close>: the constructor puts the time, the thread's name and its id into the stream, the
  user's insertions follow, and the destructor puts the place and hands the line to the output
  function. The thread's name is a parameter.
\<close>

definition logger_init :: "i64 \<Rightarrow> string \<Rightarrow> i32 \<Rightarrow> fixed" where
  "logger_init time thread_name tid =
     insert_arg (LInt tid) (insert_arg (LCStr (Some thread_name)) (insert_arg (LCStr (Some (formatTime time))) (fixed_init kSmallBuffer)))"

definition logger_finish :: "string \<Rightarrow> i32 \<Rightarrow> fixed \<Rightarrow> string" where
  "logger_finish filename line_no b =
     fb_text (insert_arg (LCStr (Some [lf_char])) (insert_arg (LInt line_no) (insert_arg (LCStr (Some '':''))
       (insert_arg (LCStr (Some filename)) (insert_arg (LCStr (Some ''-'')) b)))))"

definition log_line :: "i64 \<Rightarrow> string \<Rightarrow> i32 \<Rightarrow> string \<Rightarrow> i32 \<Rightarrow> log_arg list \<Rightarrow> string" where
  "log_line time thread_name tid filename line_no args =
     logger_finish filename line_no (fold insert_arg args (logger_init time thread_name tid))"

text \<open>The text of insertions in their order, those for which there is no room left out.\<close>

fun shown_all :: "nat \<Rightarrow> log_arg list \<Rightarrow> string \<Rightarrow> string" where
  "shown_all cap [] t = t"
| "shown_all cap (x # xs) t = shown_all cap xs (if has_room cap x (length t) then t @ shown x else t)"

lemma fold_insert_ok:
  "fixed_inv cap b \<Longrightarrow> (\<And>d. LDouble d \<in> set xs \<Longrightarrow> length (fmt_g 12 d) < 32) \<Longrightarrow>
    fixed_inv cap (fold insert_arg xs b) \<and> fb_text (fold insert_arg xs b) = shown_all cap xs (fb_text b)"
proof (induction xs arbitrary: b)
  case (Cons x xs)
  have x: "x = LDouble d \<Longrightarrow> length (fmt_g 12 d) < 32" for d using Cons.prems(2) by simp
  show ?case
    using Cons.IH [of "insert_arg x b"] Cons.prems insert_arg_ok [OF Cons.prems(1) x] by simp
qed simp

lemma log_line_ok:
  assumes "\<And>d. LDouble d \<in> set args \<Longrightarrow> length (fmt_g 12 d) < 32"
  shows "log_line time thread_name tid filename line_no args =
      shown_all 4000 ([LCStr (Some (formatTime time)), LCStr (Some thread_name), LInt tid] @ args @
        [LCStr (Some ''-''), LCStr (Some filename), LCStr (Some '':''), LInt line_no, LCStr (Some [lf_char])]) []"
    and "length (log_line time thread_name tid filename line_no args) < 4000"
proof -
  let ?xs = "[LCStr (Some (formatTime time)), LCStr (Some thread_name), LInt tid] @ args @
        [LCStr (Some ''-''), LCStr (Some filename), LCStr (Some '':''), LInt line_no, LCStr (Some [lf_char])]"
  have line: "log_line time thread_name tid filename line_no args = fb_text (fold insert_arg ?xs (fixed_init 4000))"
    by (simp add: log_line_def logger_finish_def logger_init_def kSmallBuffer_def)
  have "fixed_inv 4000 (fixed_init 4000)" by (simp add: fixed_init_ok)
  from fold_insert_ok [OF this, of ?xs] assms
  have ok: "fixed_inv 4000 (fold insert_arg ?xs (fixed_init 4000)) \<and>
      fb_text (fold insert_arg ?xs (fixed_init 4000)) = shown_all 4000 ?xs []"
    by (simp only: fixed_init_ok) auto
  then show "log_line time thread_name tid filename line_no args = shown_all 4000 ?xs []" by (simp only: line)
  from ok have "fixed_inv 4000 (fold insert_arg ?xs (fixed_init 4000))" ..
  then have "length (fb_text (fold insert_arg ?xs (fixed_init 4000))) < 4000"
    by (simp only: fixed_inv_def fb_text_def fb_length_def length_take min_def split: if_splits) simp_all
  then show "length (log_line time thread_name tid filename line_no args) < 4000" by (simp only: line)
qed

text \<open>A line begins with its time, so lines of later times are greater.\<close>

lemma shown_all_prefix: "\<exists>r. shown_all cap xs t = t @ r"
proof (induction xs arbitrary: t)
  case (Cons x xs)
  from Cons.IH [of "t @ shown x"] Cons.IH [of t] show ?case by auto
qed simp

lemma log_lines_sorted:
  assumes "\<And>d. LDouble d \<in> set xs \<union> set ys \<Longrightarrow> length (fmt_g 12 d) < 32"
    "0 \<le> sint t" "sint t < sint u" "sint u < 253402300800000000"
  shows "log_line t n i f l xs < log_line u m j g k ys"
proof -
  have start: "\<exists>r. log_line v n i f l zs = formatTime v @ r"
    if "\<And>d. LDouble d \<in> set zs \<Longrightarrow> length (fmt_g 12 d) < 32" "length (formatTime v) = 24" for v n i f l zs
  proof -
    have "has_room 4000 (LCStr (Some (formatTime v))) (length ([] :: string)) = True" "[] @ shown (LCStr (Some (formatTime v))) = formatTime v"
      using that(2) by (simp_all add: has_room_def formatTime_no_nul)
    moreover have "log_line v n i f l zs = shown_all 4000 ([LCStr (Some (formatTime v)), LCStr (Some n), LInt i] @ zs @
        [LCStr (Some ''-''), LCStr (Some f), LCStr (Some '':''), LInt l, LCStr (Some [lf_char])]) []"
      by (rule log_line_ok(1)) (rule that(1))
    moreover have "shown_all 4000 (LCStr (Some (formatTime v)) # xs) [] = shown_all 4000 xs (formatTime v)" for xs
      using calculation(1,2) unfolding shown_all.simps(2) by (simp only: if_True)
    ultimately show ?thesis unfolding append_Cons by (simp only: shown_all_prefix)
  qed
  have "length (formatTime t) = 24" "length (formatTime u) = 24" using assms(2-4) by (simp_all add: length_formatTime)
  with start [of xs t n i f l] start [of ys u m j g k] assms show ?thesis
    by (auto simp: less_append formatTime_less)
qed

end
