(* ===== verification/NetServer.thy ===== *)
theory NetServer
  imports OrdMap NetLoop NetConnector BaseStream
begin

text \<open>
  \<open>net/Acceptor\<close>, \<open>net/TcpServer\<close> and \<open>net/TcpClient\<close>: accepting connections, naming them,
  spreading them over the loops and forgetting them, and the client that keeps one connection. A
  \<open>TcpConnectionPtr\<close> is the connection's name, its loop and its descriptor; what a loop is
  asked to run for it is recorded.
\<close>

section \<open>The acceptor\<close>

record acceptor =
  ac_listening :: bool
  ac_watched :: bool
  ac_idleFd :: int

datatype accept_action = NewConnection int | CloseFd int

definition EMFILE :: int where "EMFILE = 24"

definition acceptor_init :: "int \<Rightarrow> acceptor" where
  "acceptor_init idle = \<lparr>ac_listening = False, ac_watched = False, ac_idleFd = idle\<rparr>"

definition acc_listen :: "acceptor \<Rightarrow> acceptor" where
  "acc_listen a = a\<lparr>ac_listening := True, ac_watched := True\<rparr>"

text \<open>
  \<open>accept\<close> returned a descriptor or failed with an error; out of descriptors, the spare one is given
  up to accept and close the connection, then opened again.
\<close>

definition acc_handleRead :: "bool \<Rightarrow> int + int \<Rightarrow> int \<Rightarrow> int \<Rightarrow> acceptor \<Rightarrow> accept_action list \<times> acceptor" where
  "acc_handleRead has_callback accept again reopened a =
     (case accept of
        Inr connfd \<Rightarrow> (if has_callback then [NewConnection connfd] else [CloseFd connfd], a)
      | Inl errno \<Rightarrow>
          if errno = EMFILE then ([CloseFd (ac_idleFd a), CloseFd again], a\<lparr>ac_idleFd := reopened\<rparr>)
          else ([], a))"

section \<open>The server\<close>

record conn_ptr =
  cp_name :: string
  cp_loop :: nat
  cp_fd :: int

datatype loop_call = ConnectEstablished conn_ptr | ConnectDestroyed conn_ptr

datatype server_functor = Listen | DestroyConnection conn_ptr

record tcp_server =
  sv_name :: string
  sv_started :: bool
  sv_acceptor :: acceptor
  sv_connId :: i32
  sv_connection :: "(string, conn_ptr) omap"
  sv_pool :: pool
  sv_queue :: "server_functor list"
  sv_calls :: "(nat \<times> loop_call) list"

definition server_init :: "string \<Rightarrow> int \<Rightarrow> nat \<Rightarrow> tcp_server" where
  "server_init host_port idle base =
     \<lparr>sv_name = host_port, sv_started = False, sv_acceptor = acceptor_init idle, sv_connId = 1, sv_connection = [],
      sv_pool = pool_init base, sv_queue = [], sv_calls = []\<rparr>"

definition sv_setThreadNums :: "int \<Rightarrow> tcp_server \<Rightarrow> (unit, tcp_server) outcome" where
  "sv_setThreadNums nums s = require (0 \<le> nums) (Done (s\<lparr>sv_pool := setThreadNums (nat nums) (sv_pool s)\<rparr>))"

definition sv_runInLoop :: "server_functor \<Rightarrow> tcp_server \<Rightarrow> tcp_server" where
  "sv_runInLoop f s = s\<lparr>sv_queue := sv_queue s @ [f]\<rparr>"

definition destroyConnectionInLoop :: "conn_ptr \<Rightarrow> tcp_server \<Rightarrow> tcp_server" where
  "destroyConnectionInLoop p s =
     s\<lparr>sv_connection := del (cp_name p) (sv_connection s), sv_calls := sv_calls s @ [(cp_loop p, ConnectDestroyed p)]\<rparr>"

fun sv_run :: "server_functor \<Rightarrow> tcp_server \<Rightarrow> tcp_server" where
  "sv_run Listen s = s\<lparr>sv_acceptor := acc_listen (sv_acceptor s)\<rparr>"
| "sv_run (DestroyConnection p) s = destroyConnectionInLoop p s"

definition sv_start :: "bool \<Rightarrow> (nat \<Rightarrow> nat) \<Rightarrow> tcp_server \<Rightarrow> tcp_server" where
  "sv_start in_loop_thread started s =
     (let s = s\<lparr>sv_started := True, sv_pool := pool_start started (sv_pool s)\<rparr> in
      if \<not> ac_listening (sv_acceptor s)
      then if in_loop_thread then sv_run Listen s else sv_runInLoop Listen s
      else s)"

text \<open>The name of a connection: \<open>snprintf(buf, 32, "#%d", connId_)\<close>.\<close>

definition conn_name :: "string \<Rightarrow> i32 \<Rightarrow> string" where
  "conn_name name i = name @ take 31 (''#'' @ decimal (sint i))"

text \<open>\<open>++connId_\<close> is undefined at its largest value, where the model wraps.\<close>

definition sv_newConnection :: "int \<Rightarrow> tcp_server \<Rightarrow> tcp_server" where
  "sv_newConnection socketfd s =
     (let name = conn_name (sv_name s) (sv_connId s);
          s = s\<lparr>sv_connId := sv_connId s + 1\<rparr>;
          (ioLoop, pool) = getNextLoop (sv_pool s);
          p = \<lparr>cp_name = name, cp_loop = ioLoop, cp_fd = socketfd\<rparr>
      in s\<lparr>sv_pool := pool, sv_connection := put name p (sv_connection s),
           sv_calls := sv_calls s @ [(ioLoop, ConnectEstablished p)]\<rparr>)"

definition destroyConnection :: "bool \<Rightarrow> conn_ptr \<Rightarrow> tcp_server \<Rightarrow> tcp_server" where
  "destroyConnection in_loop_thread p s =
     (if in_loop_thread then destroyConnectionInLoop p s else sv_runInLoop (DestroyConnection p) s)"

definition established :: "(nat \<times> loop_call) list \<Rightarrow> conn_ptr list" where
  "established cs = [p. (l, ConnectEstablished p) \<leftarrow> cs]"

text \<open>Connections come; those that were established go, in any order and from any loop.\<close>

inductive server_step :: "tcp_server \<Rightarrow> tcp_server \<Rightarrow> bool" where
  accepted: "sint (sv_connId s) < 2 ^ 31 - 1 \<Longrightarrow> server_step s (sv_newConnection fd s)"
| closed: "p \<in> set (established (sv_calls s)) \<Longrightarrow> server_step s (destroyConnection in_loop_thread p s)"
| functor_run: "sv_queue s = f # fs \<Longrightarrow> server_step s (sv_run f (s\<lparr>sv_queue := fs\<rparr>))"

text \<open>The connections that were established and not destroyed.\<close>

fun live :: "(nat \<times> loop_call) list \<Rightarrow> string \<rightharpoonup> conn_ptr" where
  "live [] = Map.empty"
| "live ((l, ConnectEstablished p) # cs) = (live cs)(cp_name p \<mapsto> p)"
| "live ((l, ConnectDestroyed p) # cs) = (live cs)(cp_name p := None)"

definition server_inv :: "tcp_server \<Rightarrow> bool" where
  "server_inv s \<longleftrightarrow> ordered (sv_connection s) \<and> 1 \<le> sint (sv_connId s) \<and>
     map_of (sv_connection s) = live (rev (sv_calls s)) \<and>
     (\<forall>p\<in>set (established (sv_calls s)). (\<exists>i. cp_name p = conn_name (sv_name s) i \<and> 1 \<le> sint i \<and> sint i < sint (sv_connId s))) \<and>
     (\<forall>p. DestroyConnection p \<in> set (sv_queue s) \<longrightarrow> p \<in> set (established (sv_calls s))) \<and>
     distinct (map cp_name (established (sv_calls s)))"


lemma established_simps [simp]:
  "established (cs @ [(l, ConnectEstablished p)]) = established cs @ [p]"
  "established (cs @ [(l, ConnectDestroyed p)]) = established cs" "established [] = []"
  by (simp_all add: established_def)

lemma decimal_inj: "decimal a = decimal b \<Longrightarrow> 0 \<le> a \<Longrightarrow> 0 \<le> b \<Longrightarrow> a = b"
  by (simp add: decimal_def dec_inject)

lemma conn_name_inj:
  assumes "conn_name nm i = conn_name nm j" "1 \<le> sint i" "1 \<le> sint j"
  shows "sint i = sint j"
proof -
  have len: "length (''#'' @ decimal (sint k)) \<le> 31" if "1 \<le> sint (k :: i32)" for k
  proof -
    have "length (dec (nat (sint k))) \<le> 10" using sint_lt [of k] by (intro length_dec_le) auto
    with that show ?thesis by (simp add: decimal_def)
  qed
  from assms len [of i] len [of j] have "decimal (sint i) = decimal (sint j)" by (simp add: conn_name_def)
  then show ?thesis using assms by (intro decimal_inj) auto
qed

lemma connId_next: "sint (i :: i32) < 2 ^ 31 - 1 \<Longrightarrow> sint (i + 1) = sint i + 1"
  using sint_ge [of i] by (simp add: signed_take_bit_int_eq_self sint_word_ariths(1))

lemma server_init_inv: "server_inv (server_init host_port idle base)"
  by (simp add: server_inv_def server_init_def)

lemma accepted_inv:
  assumes "server_inv s" "sint (sv_connId s) < 2 ^ 31 - 1"
  shows "server_inv (sv_newConnection fd s)"
    and "map_of (sv_connection s) (conn_name (sv_name s) (sv_connId s)) = None"
proof -
  let ?n = "conn_name (sv_name s) (sv_connId s)"
  have inv: "ordered (sv_connection s)" "1 \<le> sint (sv_connId s)" "map_of (sv_connection s) = live (rev (sv_calls s))"
    "\<forall>p\<in>set (established (sv_calls s)). \<exists>i. cp_name p = conn_name (sv_name s) i \<and> 1 \<le> sint i \<and> sint i < sint (sv_connId s)"
    "\<forall>p. DestroyConnection p \<in> set (sv_queue s) \<longrightarrow> p \<in> set (established (sv_calls s))"
    "distinct (map cp_name (established (sv_calls s)))"
    using assms(1) by (simp_all add: server_inv_def)
  have fresh: "?n \<notin> cp_name ` set (established (sv_calls s))"
  proof
    assume "?n \<in> cp_name ` set (established (sv_calls s))"
    then obtain i where "?n = conn_name (sv_name s) i" "1 \<le> sint i" "sint i < sint (sv_connId s)" using inv(4) by auto
    then show False using conn_name_inj [of "sv_name s" "sv_connId s" i] inv(2) by simp
  qed
  have live_in: "live (rev cs) k \<noteq> None \<Longrightarrow> k \<in> cp_name ` set (established cs)" for cs k
  proof (induction cs rule: rev_induct)
    case (snoc c cs)
    obtain l x where "c = (l, x)" by (cases c)
    with snoc show ?case by (cases x) (auto split: if_splits)
  qed simp
  then show "map_of (sv_connection s) ?n = None" using fresh inv(3) by force
  obtain io pl where io: "getNextLoop (sv_pool s) = (io, pl)" by (cases "getNextLoop (sv_pool s)")
  have names: "\<exists>i. cp_name p = conn_name (sv_name s) i \<and> 1 \<le> sint i \<and> sint i < sint (sv_connId s) + 1"
    if "p \<in> set (established (sv_calls s))" for p using inv(4) that by force
  show "server_inv (sv_newConnection fd s)"
    using inv(2,6) fresh names inv(5) om.ins_ok [OF inv(1)]
    by (auto simp: server_inv_def sv_newConnection_def io connId_next [OF assms(2)] inv(3) Let_def)
qed

lemma destroyed_inv:
  assumes "server_inv s" "p \<in> set (established (sv_calls s))"
  shows "server_inv (destroyConnectionInLoop p s)"
proof -
  have o: "ordered (sv_connection s)" using assms(1) by (simp add: server_inv_def)
  show ?thesis
    using assms om.rem_ok [OF o] by (simp add: server_inv_def destroyConnectionInLoop_def)
qed

lemma server_step_inv: "server_step s s' \<Longrightarrow> server_inv s \<Longrightarrow> server_inv s'"
proof (induction rule: server_step.induct)
  case (accepted s fd)
  then show ?case by (rule_tac accepted_inv(1))
next
  case (closed p s here)
  then show ?case
    using destroyed_inv [of s p] by (auto simp: destroyConnection_def sv_runInLoop_def server_inv_def)
next
  case (functor_run s f fs)
  then have inv: "server_inv (s\<lparr>sv_queue := fs\<rparr>)" and f: "\<forall>p. f = DestroyConnection p \<longrightarrow> p \<in> set (established (sv_calls s))"
    by (auto simp: server_inv_def)
  show ?case
  proof (cases f)
    case Listen
    with inv show ?thesis by (simp add: server_inv_def)
  next
    case (DestroyConnection p)
    with f destroyed_inv [OF inv, of p] show ?thesis by simp
  qed
qed

lemma server_reach_inv: "server_step\<^sup>*\<^sup>* s s' \<Longrightarrow> server_inv s \<Longrightarrow> server_inv s'"
  by (induction rule: rtranclp_induct) (auto intro: server_step_inv)

section \<open>The client\<close>

record tcp_client =
  tc_name :: string
  tc_connector :: connector
  tc_retry :: bool
  tc_connect :: bool
  tc_nextConnId :: i32
  tc_connection :: "conn_ptr option"
  tc_calls :: "loop_call list"
  tc_shutdowns :: nat

definition client_new :: "string \<Rightarrow> tcp_client" where
  "client_new name =
     \<lparr>tc_name = name, tc_connector = connector_init, tc_retry = False, tc_connect = True, tc_nextConnId = 1,
      tc_connection = None, tc_calls = [], tc_shutdowns = 0\<rparr>"

definition enableRetry :: "tcp_client \<Rightarrow> tcp_client" where
  "enableRetry t = t\<lparr>tc_retry := True\<rparr>"

definition with_connector :: "tcp_client \<Rightarrow> (unit, connector) outcome \<Rightarrow> (unit, tcp_client) outcome" where
  "with_connector t r = obind r (\<lambda>c. Done (t\<lparr>tc_connector := c\<rparr>))"

definition tc_start :: "bool \<Rightarrow> int \<Rightarrow> tcp_client \<Rightarrow> (unit, tcp_client) outcome" where
  "tc_start in_loop_thread sockfd t =
     with_connector (t\<lparr>tc_connect := True\<rparr>) (co_start in_loop_thread sockfd (tc_connector t))"

definition tc_disconnect :: "tcp_client \<Rightarrow> tcp_client" where
  "tc_disconnect t =
     (let t = t\<lparr>tc_connect := False\<rparr>
      in if tc_connection t \<noteq> None then t\<lparr>tc_shutdowns := tc_shutdowns t + 1\<rparr> else t)"

definition tc_stop :: "tcp_client \<Rightarrow> tcp_client" where
  "tc_stop t = t\<lparr>tc_connect := False, tc_connector := co_stop (tc_connector t)\<rparr>"

definition tc_newConnection :: "string \<Rightarrow> int \<Rightarrow> tcp_client \<Rightarrow> tcp_client" where
  "tc_newConnection peer sockfd t =
     (let name = tc_name t @ take 31 ('':'' @ peer @ ''#'' @ decimal (sint (tc_nextConnId t)));
          p = \<lparr>cp_name = name, cp_loop = 0, cp_fd = sockfd\<rparr>
      in t\<lparr>tc_nextConnId := tc_nextConnId t + 1, tc_connection := Some p, tc_calls := tc_calls t @ [ConnectEstablished p]\<rparr>)"

definition tc_removeConnection :: "int \<Rightarrow> conn_ptr \<Rightarrow> tcp_client \<Rightarrow> (unit, tcp_client) outcome" where
  "tc_removeConnection sockfd p t =
     (let t = t\<lparr>tc_connection := None, tc_calls := tc_calls t @ [ConnectDestroyed p]\<rparr> in
      if tc_retry t \<and> tc_connect t then with_connector t (co_restart sockfd (tc_connector t)) else Done t)"

text \<open>
  A lost connection is made again exactly when the client wants one and may retry; with its
  connector as \<open>co_inv\<close> says and its connection delivered, that cannot fail.
\<close>

lemma tc_reconnects:
  assumes "co_inv (tc_connector t)" "co_queue (tc_connector t) = []" "co_connected (tc_connector t) = [fd]"
  shows "\<exists>t'. tc_removeConnection sockfd p t = Done t' \<and> tc_connection t' = None \<and>
    (co_channel (tc_connector t') = Some sockfd \<longleftrightarrow> tc_retry t \<and> tc_connect t)"
proof -
  have "co_channel (tc_connector t) = None" using assms by (auto simp: co_inv_def attempts_def)
  then show ?thesis by (simp add: tc_removeConnection_def with_connector_def co_defs)
qed

text \<open>
  The destructor. The close callback of the connection no longer leads to the client but to
  \<open>removeConnectInLoop\<close>; the connection is closed when the client had the only pointer to it (\<open>unique\<close>). The
  connector goes with the client: its assert is that there is no channel. What is left is the
  functors and timers of the loop that are bound to the deleted connector.
\<close>

datatype client_end = SetCloseCallback conn_ptr | ForceClose conn_ptr

definition removeConnectInLoop :: "conn_ptr \<Rightarrow> loop_call list \<Rightarrow> loop_call list" where
  "removeConnectInLoop p calls = calls @ [ConnectDestroyed p]"

definition co_destroy :: "connector \<Rightarrow> (unit, co_functor list \<times> int list) outcome" where
  "co_destroy c = require (co_channel c = None) (Done (co_queue c, co_timers c))"

definition tc_destroy :: "bool \<Rightarrow> tcp_client \<Rightarrow> (unit, client_end list \<times> co_functor list \<times> int list) outcome" where
  "tc_destroy unique t =
     (case tc_connection t of
        Some p \<Rightarrow>
          obind (co_destroy (tc_connector t)) (\<lambda>bound. Done (SetCloseCallback p # (if unique then [ForceClose p] else []), bound))
      | None \<Rightarrow> obind (co_destroy (co_stop (tc_connector t))) (\<lambda>bound. Done ([], bound)))"

text \<open>
  With a connection, once the functor that resets the channel has run, nothing is left behind.
  Without one there is no right moment: the assert fails while an attempt is under way, and
  otherwise \<open>stop\<close> has just queued a functor that will use the deleted connector.
\<close>

lemma tc_destroy_connected:
  assumes "co_inv (tc_connector t)" "co_queue (tc_connector t) = []" "co_connected (tc_connector t) = [fd]" "tc_connection t = Some p"
  shows "tc_destroy unique t = Done (SetCloseCallback p # (if unique then [ForceClose p] else []), [], [])"
proof -
  have "co_channel (tc_connector t) = None" "co_timers (tc_connector t) = []" using assms by (auto simp: co_inv_def attempts_def)
  then show ?thesis using assms(2,4) by (simp add: tc_destroy_def co_destroy_def)
qed

lemma tc_destroy_unconnected:
  assumes "tc_connection t = None"
  shows "tc_destroy unique t = Abort \<longleftrightarrow> co_channel (tc_connector t) \<noteq> None"
    and "tc_destroy unique t = Done (calls, functors, timers) \<Longrightarrow> StopInLoop \<in> set functors"
  using assms by (auto simp: tc_destroy_def co_destroy_def require_def co_stop_def co_queueInLoop_def split: if_splits)

end
