(* ===== verification/BaseLog.thy ===== *)
theory BaseLog
  imports BaseStream
begin

text \<open>
  \<open>base/FileUtil\<close>, \<open>base/LogFile\<close> and \<open>base/AsyncLogging\<close>: the log files and the thread that
  writes them behind two large buffers. What \<open>fwrite\<close> and \<open>time\<close> return is a parameter; a
  file is its name and the bytes it was given.
\<close>

section \<open>Files\<close>

record append_file =
  af_name :: string
  af_bytes :: string
  af_written :: nat

definition append_file_init :: "string \<Rightarrow> append_file" where
  "append_file_init name = \<lparr>af_name = name, af_bytes = [], af_written = 0\<rparr>"

text \<open>
  \<open>AppendFile::append\<close>: the loop around \<open>fwrite\<close>, whose results are the list, 0 when it is used
  up. The number of bytes written, \<open>n\<close> of which were so far.
\<close>

fun write_rest :: "nat list \<Rightarrow> nat \<Rightarrow> nat \<Rightarrow> nat" where
  "write_rest [] n len = n"
| "write_rest (x # xs) n len = (if n < len then if x = 0 then n else write_rest xs (n + x) len else n)"

definition af_append :: "nat list \<Rightarrow> string \<Rightarrow> append_file \<Rightarrow> append_file" where
  "af_append fwrite msg f =
     (let n = (case fwrite of [] \<Rightarrow> 0 | x # xs \<Rightarrow> write_rest xs x (length msg))
      in f\<lparr>af_bytes := af_bytes f @ take n msg, af_written := af_written f + length msg\<rparr>)"

text \<open>\<open>fwrite\<close> writes something, and no more than it is given.\<close>

fun writes_all :: "nat list \<Rightarrow> nat \<Rightarrow> bool" where
  "writes_all [] len \<longleftrightarrow> len = 0"
| "writes_all (x # xs) len \<longleftrightarrow> x \<le> len \<and> (len = 0 \<or> 0 < x) \<and> (x = len \<or> writes_all xs (len - x))"

lemma write_rest_all: "writes_all xs (len - n) \<Longrightarrow> n \<le> len \<Longrightarrow> write_rest xs n len = len"
proof (induction xs arbitrary: n)
  case (Cons x xs)
  show ?case
  proof (cases "n < len")
    case True
    with Cons.prems have "n + x \<le> len" "0 < x" "n + x = len \<or> writes_all xs (len - (n + x))" by auto
    then show ?thesis
    proof (cases "n + x = len")
      case False
      then show ?thesis using True \<open>0 < x\<close> \<open>n + x \<le> len\<close> \<open>n + x = len \<or> _\<close> Cons.IH [of "n + x"] by simp
    next
      case True
      then show ?thesis using \<open>n < len\<close> \<open>0 < x\<close> by (cases xs) auto
    qed
  qed (use Cons.prems in auto)
qed auto

lemma af_append_all:
  assumes "writes_all fwrite (length msg)"
  shows "af_append fwrite msg f = f\<lparr>af_bytes := af_bytes f @ msg, af_written := af_written f + length msg\<rparr>"
proof (cases fwrite)
  case (Cons x xs)
  have "write_rest xs x (length msg) = length msg"
  proof (cases "x = length msg")
    case True
    then show ?thesis by (cases xs) auto
  next
    case False
    then show ?thesis using assms Cons write_rest_all [of xs "length msg" x] by auto
  qed
  with Cons show ?thesis by (simp add: af_append_def)
qed (use assms in \<open>simp add: af_append_def\<close>)

section \<open>Rolling log files\<close>

text \<open>
  The files opened so far, the last of them the one written to, and how often it was flushed. The
  name of a file shows the time and the process id.
\<close>

record log_file =
  lf_filename :: string
  lf_flushInterval :: int
  lf_checkLine :: int
  lf_lastRollTime :: int
  lf_lastFlushTime :: int
  lf_startofPeriod :: int
  lf_rollSize :: int
  lf_count :: int
  lf_closed :: "append_file list"
  lf_file :: "append_file option"
  lf_flushes :: nat

definition daySeconds :: int where "daySeconds = 60 * 60 * 24"

definition getLogFileName :: "int \<Rightarrow> int \<Rightarrow> string \<Rightarrow> string" where
  "getLogFileName pid now filename = filename @ strftime_name (gmtime now) @ ''.'' @ decimal pid @ ''.log''"

definition rollFile :: "int \<Rightarrow> int \<Rightarrow> log_file \<Rightarrow> bool \<times> log_file" where
  "rollFile pid now lf =
     (let name = getLogFileName pid now (lf_filename lf);
          startofThePeriod = now sdiv daySeconds * daySeconds in
      if now > lf_lastRollTime lf then
        (True, lf\<lparr>lf_lastRollTime := now, lf_lastFlushTime := now, lf_startofPeriod := startofThePeriod,
                  lf_closed := lf_closed lf @ (case lf_file lf of Some f \<Rightarrow> [f] | None \<Rightarrow> []),
                  lf_file := Some (append_file_init name)\<rparr>)
      else (False, lf))"

definition log_file_init :: "int \<Rightarrow> int \<Rightarrow> string \<Rightarrow> int \<Rightarrow> int \<Rightarrow> int \<Rightarrow> log_file" where
  "log_file_init pid now filename rollSize flushInterval checkLine =
     snd (rollFile pid now
       \<lparr>lf_filename = filename, lf_flushInterval = flushInterval, lf_checkLine = checkLine, lf_lastRollTime = 0,
        lf_lastFlushTime = 0, lf_startofPeriod = 0, lf_rollSize = rollSize, lf_count = 0, lf_closed = [],
        lf_file = None, lf_flushes = 0\<rparr>)"

definition lf_flush :: "log_file \<Rightarrow> log_file" where
  "lf_flush lf = lf\<lparr>lf_flushes := lf_flushes lf + 1\<rparr>"

text \<open>
  \<open>append_unlocked\<close>; \<open>now\<close> is what \<open>time\<close> returns here, \<open>now'\<close> what it returns in \<open>rollFile\<close>. Without a
  file, when the clock stands at 0 or before, the pointer is null: the process ends.
\<close>

definition append_unlocked ::
    "int \<Rightarrow> nat list \<Rightarrow> int \<Rightarrow> int \<Rightarrow> string \<Rightarrow> log_file \<Rightarrow> (unit, log_file) outcome" where
  "append_unlocked pid fwrite now now' msg lf =
     (case lf_file lf of
        None \<Rightarrow> Abort
      | Some f \<Rightarrow>
          let f = af_append fwrite msg f; lf = lf\<lparr>lf_file := Some f\<rparr> in
          if int (af_written f) > lf_rollSize lf then Done (snd (rollFile pid now' lf))
          else
            let lf = lf\<lparr>lf_count := lf_count lf + 1\<rparr> in
            if lf_count lf \<ge> lf_checkLine lf then
              let lf = lf\<lparr>lf_count := 0\<rparr>; startofThePeriod = now sdiv daySeconds * daySeconds in
              if startofThePeriod > lf_startofPeriod lf then Done (snd (rollFile pid now' lf))
              else if now - lf_lastFlushTime lf \<ge> lf_flushInterval lf
              then Done (lf_flush (lf\<lparr>lf_lastFlushTime := now\<rparr>))
              else Done lf
            else Done lf)"

text \<open>All bytes in all files.\<close>

definition lf_bytes :: "log_file \<Rightarrow> string" where
  "lf_bytes lf = concat (map af_bytes (lf_closed lf @ (case lf_file lf of Some f \<Rightarrow> [f] | None \<Rightarrow> [])))"

lemma rollFile_ok:
  "lf_bytes (snd (rollFile pid now lf)) = lf_bytes lf"
  "lf_file (snd (rollFile pid now lf)) = None \<longleftrightarrow> lf_file lf = None \<and> now \<le> lf_lastRollTime lf"
  by (auto simp: rollFile_def lf_bytes_def append_file_init_def Let_def split: option.split)

lemma log_file_init_ok:
  "lf_bytes (log_file_init pid now filename rollSize flushInterval checkLine) = []"
  "0 < now \<Longrightarrow> lf_file (log_file_init pid now filename rollSize flushInterval checkLine) \<noteq> None"
  unfolding log_file_init_def rollFile_ok by (simp_all add: lf_bytes_def rollFile_def Let_def)

text \<open>Whatever is rolled or flushed, a message ends up behind all the others.\<close>

lemma append_unlocked_ok:
  assumes "lf_file lf \<noteq> None" "writes_all fwrite (length msg)"
  shows "\<exists>lf'. append_unlocked pid fwrite now now' msg lf = Done lf' \<and> lf_file lf' \<noteq> None \<and>
    lf_bytes lf' = lf_bytes lf @ msg"
proof -
  obtain f where f: "lf_file lf = Some f" using assms(1) by auto
  have bytes: "lf_bytes (lf\<lparr>lf_file := Some (f\<lparr>af_bytes := af_bytes f @ msg, af_written := k\<rparr>),
      lf_count := c\<rparr>) = lf_bytes lf @ msg" for k c
    by (simp add: lf_bytes_def f)
  have bytes': "lf_bytes (lf\<lparr>lf_file := Some (f\<lparr>af_bytes := af_bytes f @ msg, af_written := k\<rparr>)\<rparr>) = lf_bytes lf @ msg" for k
    by (simp add: lf_bytes_def f)
  have flush: "lf_bytes (lf_flush (l\<lparr>lf_lastFlushTime := t\<rparr>)) = lf_bytes l" for l t
    by (simp add: lf_bytes_def lf_flush_def)
  show ?thesis
    using assms(2)
    by (simp add: append_unlocked_def f af_append_all rollFile_ok bytes bytes' flush Let_def del: not_None_eq)
      (simp add: lf_flush_def)
qed

text \<open>
  The runs of a log file: what \<open>time\<close> returns lies in the years up to 9999, the results of \<open>fwrite\<close> are
  arbitrary. \<open>first\<close> is the time of the constructor.
\<close>

definition clock_ok :: "int \<Rightarrow> bool" where
  "clock_ok now \<longleftrightarrow> 0 \<le> now \<and> now < 253402300800"

inductive lf_run :: "int \<Rightarrow> string \<Rightarrow> log_file \<Rightarrow> bool" for pid filename where
  opened: "clock_ok first \<Longrightarrow> lf_run pid filename (log_file_init pid first filename rollSize flushInterval checkLine)"
| logged_to: "lf_run pid filename lf \<Longrightarrow> clock_ok now' \<Longrightarrow> append_unlocked pid fwrite now now' msg lf = Done lf' \<Longrightarrow>
    lf_run pid filename lf'"
| flushed: "lf_run pid filename lf \<Longrightarrow> lf_run pid filename (lf_flush lf)"

definition lf_names :: "log_file \<Rightarrow> string list" where
  "lf_names lf = map af_name (lf_closed lf @ (case lf_file lf of Some f \<Rightarrow> [f] | None \<Rightarrow> []))"

text \<open>The names come from increasing times, the last of them \<open>lastRollTime_\<close>.\<close>

definition lf_inv :: "int \<Rightarrow> string \<Rightarrow> log_file \<Rightarrow> bool" where
  "lf_inv pid filename lf \<longleftrightarrow> lf_filename lf = filename \<and>
     (\<exists>ts. lf_names lf = map (\<lambda>t. getLogFileName pid t filename) ts \<and> sorted_wrt (<) ts \<and>
        (\<forall>t\<in>set ts. clock_ok t \<and> t \<le> lf_lastRollTime lf))"

lemma lf_inv_same:
  "lf_inv pid filename lf \<Longrightarrow> lf_filename lf' = lf_filename lf \<Longrightarrow> lf_names lf' = lf_names lf \<Longrightarrow>
    lf_lastRollTime lf' = lf_lastRollTime lf \<Longrightarrow> lf_inv pid filename lf'"
  by (simp add: lf_inv_def)

lemma rollFile_inv:
  assumes "lf_inv pid filename lf" "clock_ok now"
  shows "lf_inv pid filename (snd (rollFile pid now lf))"
proof (cases "now > lf_lastRollTime lf")
  case True
  from assms(1) obtain ts where ts: "lf_filename lf = filename" "lf_names lf = map (\<lambda>t. getLogFileName pid t filename) ts"
    "sorted_wrt (<) ts" "\<forall>t\<in>set ts. clock_ok t \<and> t \<le> lf_lastRollTime lf"
    by (auto simp: lf_inv_def)
  have "lf_names (snd (rollFile pid now lf)) = map (\<lambda>t. getLogFileName pid t filename) (ts @ [now])"
    using True ts(1,2) by (simp add: rollFile_def lf_names_def append_file_init_def Let_def)
  moreover have "sorted_wrt (<) (ts @ [now])" using ts(3,4) True by (auto simp: sorted_wrt_append)
  moreover have "\<forall>t\<in>set (ts @ [now]). clock_ok t \<and> t \<le> lf_lastRollTime (snd (rollFile pid now lf))"
    using ts(4) True assms(2) by (auto simp: rollFile_def Let_def)
  moreover have "lf_filename (snd (rollFile pid now lf)) = filename" using ts(1) by (simp add: rollFile_def Let_def)
  ultimately show ?thesis unfolding lf_inv_def by blast
qed (use assms in \<open>simp add: rollFile_def Let_def\<close>)

lemma af_append_name [simp]: "af_name (af_append fwrite msg f) = af_name f"
  by (simp add: af_append_def Let_def)

lemma lf_run_inv: "lf_run pid filename lf \<Longrightarrow> lf_inv pid filename lf"
proof (induction rule: lf_run.induct)
  case (opened first rollSize flushInterval checkLine)
  show ?case unfolding log_file_init_def
    by (rule rollFile_inv [OF _ opened]) (simp add: lf_inv_def lf_names_def)
next
  case (logged_to lf now' fwrite now msg lf')
  from logged_to.hyps(3) obtain f where f: "lf_file lf = Some f" by (auto simp: append_unlocked_def split: option.splits)
  let ?lf = "lf\<lparr>lf_file := Some (af_append fwrite msg f)\<rparr>"
  have inv: "lf_inv pid filename lf2" if "lf_filename lf2 = lf_filename lf" "lf_closed lf2 = lf_closed lf"
    "lf_file lf2 = Some (af_append fwrite msg f)" "lf_lastRollTime lf2 = lf_lastRollTime lf" for lf2
    by (rule lf_inv_same [OF logged_to.IH]) (use that f in \<open>simp_all add: lf_names_def\<close>)
  have roll: "lf_inv pid filename (snd (rollFile pid now' lf2))" if "lf_inv pid filename lf2" for lf2
    by (rule rollFile_inv [OF that logged_to.hyps(2)])
  have "append_unlocked pid fwrite now now' msg lf =
      (if int (af_written (af_append fwrite msg f)) > lf_rollSize lf then Done (snd (rollFile pid now' ?lf))
       else if lf_count lf + 1 < lf_checkLine lf then Done (?lf\<lparr>lf_count := lf_count lf + 1\<rparr>)
       else if now sdiv daySeconds * daySeconds > lf_startofPeriod lf then Done (snd (rollFile pid now' (?lf\<lparr>lf_count := 0\<rparr>)))
       else if now - lf_lastFlushTime lf \<ge> lf_flushInterval lf then Done (lf_flush (?lf\<lparr>lf_count := 0, lf_lastFlushTime := now\<rparr>))
       else Done (?lf\<lparr>lf_count := 0\<rparr>))"
    by (simp add: append_unlocked_def f Let_def)
  with logged_to.hyps(3) consider (size) "lf' = snd (rollFile pid now' ?lf)" | (day) "lf' = snd (rollFile pid now' (?lf\<lparr>lf_count := 0\<rparr>))" |
    (flush) "lf' = lf_flush (?lf\<lparr>lf_count := 0, lf_lastFlushTime := now\<rparr>)" | (none) n where "lf' = ?lf\<lparr>lf_count := n\<rparr>"
    by (simp only: outcome.inject split: if_split_asm) metis+
  then show ?case
  proof cases
    case size
    then show ?thesis using roll [OF inv [of ?lf]] by simp
  next
    case day
    then show ?thesis using roll [OF inv [of "?lf\<lparr>lf_count := 0\<rparr>"]] by simp
  qed (intro inv; simp add: lf_flush_def)+
next
  case (flushed lf)
  show ?case by (rule lf_inv_same [OF flushed.IH]) (simp_all add: lf_flush_def lf_names_def)
qed

lemma log_name_less:
  "clock_ok t \<Longrightarrow> clock_ok u \<Longrightarrow> t < u \<Longrightarrow> getLogFileName pid t filename < getLogFileName pid u filename"
  by (simp add: getLogFileName_def clock_ok_def less_append_same less_append strftime_name_less length_strftime_name)

lemma lf_names_sorted: "lf_run pid filename lf \<Longrightarrow> sorted_wrt (<) (lf_names lf)"
proof -
  assume "lf_run pid filename lf"
  then obtain ts where ts: "lf_names lf = map (\<lambda>t. getLogFileName pid t filename) ts" "sorted_wrt (<) ts" "\<forall>t\<in>set ts. clock_ok t"
    using lf_run_inv unfolding lf_inv_def by blast
  have "sorted_wrt (\<lambda>t u. getLogFileName pid t filename < getLogFileName pid u filename) ts"
    by (rule sorted_wrt_mono_rel [OF _ ts(2)]) (simp add: log_name_less ts(3))
  then show ?thesis by (simp add: ts(1) sorted_wrt_map)
qed

section \<open>Asynchronous logging\<close>

text \<open>
  The state two threads share, and what the writing thread has on its stack: \<open>newBuffer1\<close>,
  \<open>newBuffer2\<close>, \<open>BufferToWrite\<close>, and the calls it made of \<open>output.append\<close>. A buffer pointer may
  be null; \<open>al_size\<close> stands for the size of a buffer, \<open>kLargerBuffer\<close> in the program. The writing thread
  is at its test of \<open>running_\<close>, past it and before the exchange of the buffers, writing, or finished.
\<close>

datatype al_phase = AtTop | Exchanging | Writing | Finished

record alog =
  al_size :: nat
  al_running :: bool
  al_current :: "fixed option"
  al_next :: "fixed option"
  al_buffers :: "fixed option list"
  al_new1 :: "fixed option"
  al_new2 :: "fixed option"
  al_toWrite :: "fixed option list"
  al_phase :: al_phase
  al_output :: "string list"
  al_stderr :: "string list"
  al_signalled :: bool

text \<open>The constructor, \<open>start\<close>, and the thread up to its loop.\<close>

definition alog_init :: "nat \<Rightarrow> alog" where
  "alog_init cap =
     \<lparr>al_size = cap, al_running = True, al_current = Some (fb_bzero (fixed_init cap)),
      al_next = Some (fb_bzero (fixed_init cap)), al_buffers = [],
      al_new1 = Some (fb_bzero (fixed_init cap)), al_new2 = Some (fb_bzero (fixed_init cap)),
      al_toWrite = [], al_phase = AtTop, al_output = [], al_stderr = [], al_signalled = False\<rparr>"

definition al_append :: "string \<Rightarrow> alog \<Rightarrow> (unit, alog) outcome" where
  "al_append msg a =
     (case al_current a of
        None \<Rightarrow> Abort
      | Some cur \<Rightarrow>
          if avail cur > length msg then Done (a\<lparr>al_current := Some (fb_append msg cur)\<rparr>)
          else
            let a = a\<lparr>al_buffers := al_buffers a @ [Some cur]\<rparr>;
                (fresh, a) = (case al_next a of
                    Some b \<Rightarrow> (b, a\<lparr>al_next := None\<rparr>)
                  | None \<Rightarrow> (fixed_init (al_size a), a))
            in Done (a\<lparr>al_current := Some (fb_append msg fresh), al_signalled := True\<rparr>))"

text \<open>The critical section of the writing thread, after the wait.\<close>

definition al_swap :: "alog \<Rightarrow> alog" where
  "al_swap a =
     (let a = a\<lparr>al_buffers := al_buffers a @ [al_current a], al_current := al_new1 a, al_new1 := None\<rparr>;
          a = a\<lparr>al_toWrite := al_buffers a, al_buffers := al_toWrite a\<rparr>;
          a = (if al_next a = None then a\<lparr>al_next := al_new2 a, al_new2 := None\<rparr> else a)
      in a\<lparr>al_phase := Writing, al_signalled := False\<rparr>)"

text \<open>The buffers written, one call of \<open>output.append\<close> each; a null pointer ends the process.\<close>

fun al_write_all :: "fixed option list \<Rightarrow> string list \<Rightarrow> (unit, string list) outcome" where
  "al_write_all [] calls = Done calls"
| "al_write_all (None # bs) calls = Abort"
| "al_write_all (Some b # bs) calls = al_write_all bs (calls @ [fb_text b])"

text \<open>\<open>back\<close> and \<open>pop_back\<close> of an empty vector are undefined, \<open>reset\<close> of a null pointer as well.\<close>

definition al_refill :: "fixed option \<Rightarrow> fixed option list \<Rightarrow> (unit, fixed option \<times> fixed option list) outcome" where
  "al_refill b bs =
     (case b of
        Some x \<Rightarrow> Done (Some x, bs)
      | None \<Rightarrow>
          if bs = [] then Abort
          else (case last bs of None \<Rightarrow> Abort | Some x \<Rightarrow> Done (Some (fb_reset x), butlast bs)))"

text \<open>The rest of the loop's body; \<open>notice\<close> is the line for a backlog of more than 25 buffers.\<close>

definition al_write :: "string \<Rightarrow> alog \<Rightarrow> (unit, alog) outcome" where
  "al_write notice a =
     (let a = (if length (al_toWrite a) > 25
               then a\<lparr>al_stderr := al_stderr a @ [notice], al_output := al_output a @ [notice],
                      al_toWrite := take 2 (al_toWrite a)\<rparr>
               else a)
      in obind (al_write_all (al_toWrite a) (al_output a)) (\<lambda>out.
         let bs = (if length (al_toWrite a) > 2 then take 2 (al_toWrite a) else al_toWrite a)
         in obind (al_refill (al_new1 a) bs) (\<lambda>(n1, bs).
            obind (al_refill (al_new2 a) bs) (\<lambda>(n2, bs).
              Done (a\<lparr>al_output := out, al_new1 := n1, al_new2 := n2, al_toWrite := [], al_phase := AtTop\<rparr>)))))"

definition al_stop :: "alog \<Rightarrow> alog" where
  "al_stop a = a\<lparr>al_running := False, al_signalled := True\<rparr>"

text \<open>
  One step of any thread, with the message it logs, if it logs one. The wait before the exchange may end
  by a signal, by its timeout or spuriously, and \<open>running_\<close> may have changed meanwhile. A message fits a
  buffer.
\<close>

inductive alog_step :: "alog \<Rightarrow> string \<Rightarrow> alog \<Rightarrow> bool" where
  logged: "length msg < al_size a \<Longrightarrow> al_append msg a = Done a' \<Longrightarrow> alog_step a msg a'"
| tested: "al_phase a = AtTop \<Longrightarrow> al_running a \<Longrightarrow> alog_step a [] (a\<lparr>al_phase := Exchanging\<rparr>)"
| swapped: "al_phase a = Exchanging \<Longrightarrow> alog_step a [] (al_swap a)"
| written: "al_phase a = Writing \<Longrightarrow> al_write notice a = Done a' \<Longrightarrow> alog_step a [] a'"
| finished: "al_phase a = AtTop \<Longrightarrow> \<not> al_running a \<Longrightarrow> alog_step a [] (a\<lparr>al_phase := Finished\<rparr>)"
| stopped: "alog_step a [] (al_stop a)"

inductive alog_run :: "alog \<Rightarrow> string \<Rightarrow> alog \<Rightarrow> bool" where
  run_none: "alog_run a [] a"
| run_step: "alog_run a log a' \<Longrightarrow> alog_step a' msg a'' \<Longrightarrow> alog_run a (log @ msg) a''"

text \<open>Every buffer is there and in order; the thread's spare buffers return before the next round.\<close>

fun buf_ok :: "nat \<Rightarrow> fixed option \<Rightarrow> bool" where
  "buf_ok cap None = False"
| "buf_ok cap (Some b) = fixed_inv cap b"

fun buf_fresh :: "nat \<Rightarrow> fixed option \<Rightarrow> bool" where
  "buf_fresh cap None = False"
| "buf_fresh cap (Some b) = (fixed_inv cap b \<and> fb_text b = [])"

fun buf_text :: "fixed option \<Rightarrow> string" where
  "buf_text None = []"
| "buf_text (Some b) = fb_text b"

definition alog_inv :: "alog \<Rightarrow> bool" where
  "alog_inv a \<longleftrightarrow>
     (let ok = buf_ok (al_size a); fresh = buf_fresh (al_size a) in
      ok (al_current a) \<and> list_all ok (al_buffers a) \<and> list_all ok (al_toWrite a) \<and>
      (al_next a \<noteq> None \<longrightarrow> fresh (al_next a)) \<and> (al_next a = None \<longrightarrow> al_buffers a \<noteq> []) \<and>
      (al_new2 a \<noteq> None \<longrightarrow> fresh (al_new2 a)) \<and>
      (if al_phase a = Writing
       then al_new1 a = None \<and> al_toWrite a \<noteq> [] \<and> (al_new2 a = None \<longrightarrow> 2 \<le> length (al_toWrite a))
       else fresh (al_new1 a) \<and> al_new2 a \<noteq> None \<and> al_toWrite a = []))"

definition pending :: "alog \<Rightarrow> string" where
  "pending a = concat (map buf_text (al_toWrite a)) @ concat (map buf_text (al_buffers a)) @ buf_text (al_current a)"

lemma buf_ok_cases: "buf_ok cap b \<longleftrightarrow> (\<exists>x. b = Some x \<and> fixed_inv cap x)"
  by (cases b) auto

lemma alog_init_ok: "0 < cap \<Longrightarrow> alog_inv (alog_init cap)" "pending (alog_init cap) = []"
  by (simp_all add: alog_inv_def alog_init_def pending_def fixed_inv_def fixed_init_def fb_bzero_def fb_text_def fb_length_def)

lemma al_append_ok:
  assumes "alog_inv a" "length msg < al_size a"
  shows "\<exists>a'. al_append msg a = Done a' \<and> alog_inv a' \<and> pending a' = pending a @ msg \<and>
    al_output a' = al_output a \<and> al_stderr a' = al_stderr a"
proof -
  obtain cur where cur: "al_current a = Some cur" "fixed_inv (al_size a) cur"
    using assms(1) by (auto simp: alog_inv_def buf_ok_cases Let_def)
  have room: "avail cur > length msg \<longleftrightarrow> length (fb_text cur) + length msg < al_size a"
    using cur(2) by (auto simp: avail_def fixed_inv_def fb_text_def fb_length_def)
  have fresh: "fixed_inv (al_size a) (fb_append msg b)" "fb_text (fb_append msg b) = msg"
    if "fixed_inv (al_size a) b" "fb_text b = []" for b
    using fb_append_ok [OF that(1), of msg] that(2) assms(2) by simp_all
  have cur': "fixed_inv (al_size a) (fb_append msg cur)" using fb_append_ok [OF cur(2)] by simp
  show ?thesis
  proof (cases "avail cur > length msg")
    case True
    then show ?thesis
      using assms(1) cur cur' room fb_append_ok(2) [OF cur(2), of msg]
      by (simp add: al_append_def alog_inv_def pending_def Let_def)
  next
    case False
    have "fixed_inv (al_size a) (fixed_init (al_size a))" "fb_text (fixed_init (al_size a)) = []"
      using assms(2) by (auto intro: fixed_init_ok)
    note empty = fresh [OF this]
    show ?thesis
    proof (cases "al_next a")
      case None
      then show ?thesis
        using False assms(1) cur empty by (simp add: al_append_def alog_inv_def pending_def Let_def)
    next
      case (Some b)
      then have "fixed_inv (al_size a) b" "fb_text b = []" using assms(1) by (simp_all add: alog_inv_def Let_def)
      note b = fresh [OF this]
      show ?thesis
        using False assms(1) cur b Some by (simp add: al_append_def alog_inv_def pending_def Let_def)
    qed
  qed
qed

lemma al_swap_ok:
  assumes "alog_inv a" "al_phase a = Exchanging"
  shows "alog_inv (al_swap a)" "pending (al_swap a) = pending a" "al_output (al_swap a) = al_output a"
    "al_stderr (al_swap a) = al_stderr a"
proof -
  have fresh_ok: "buf_fresh (al_size a) b \<Longrightarrow> buf_ok (al_size a) b \<and> buf_text b = []" for b by (cases b) auto
  have len: "al_buffers a \<noteq> [] \<Longrightarrow> 2 \<le> Suc (length (al_buffers a))" by (cases "al_buffers a") auto
  show "alog_inv (al_swap a)" "pending (al_swap a) = pending a" "al_output (al_swap a) = al_output a"
    "al_stderr (al_swap a) = al_stderr a"
    using assms fresh_ok [of "al_new1 a"] len by (auto simp: al_swap_def alog_inv_def pending_def Let_def)
qed

lemma al_write_all_ok: "list_all (buf_ok cap) bs \<Longrightarrow> al_write_all bs calls = Done (calls @ map buf_text bs)"
  by (induction bs calls rule: al_write_all.induct) auto

text \<open>A spare buffer is there, or the last of those written is emptied for it.\<close>

lemma al_refill_ok:
  assumes "list_all (buf_ok cap) bs" "b \<noteq> None \<Longrightarrow> buf_fresh cap b" "b = None \<Longrightarrow> bs \<noteq> []"
  shows "\<exists>b' bs'. al_refill b bs = Done (b', bs') \<and> buf_fresh cap b' \<and> list_all (buf_ok cap) bs' \<and>
    length bs' = (if b = None then length bs - 1 else length bs)"
proof (cases b)
  case None
  with assms have "bs \<noteq> []" by simp
  then have "buf_ok cap (last bs)" "list_all (buf_ok cap) (butlast bs)"
    using assms(1) by (auto simp: list_all_iff dest: in_set_butlastD)
  then obtain x where "last bs = Some x" "fixed_inv cap x" by (auto simp: buf_ok_cases)
  with None \<open>bs \<noteq> []\<close> \<open>list_all (buf_ok cap) (butlast bs)\<close> show ?thesis
    by (simp add: al_refill_def fb_reset_ok)
qed (use assms in \<open>simp add: al_refill_def\<close>)

lemma al_write_ok:
  assumes inv: "alog_inv a" and ph: "al_phase a = Writing"
  shows "\<exists>a'. al_write notice a = Done a' \<and> alog_inv a' \<and>
    (al_stderr a' = [] \<longrightarrow> al_stderr a = [] \<and> concat (al_output a') @ pending a' = concat (al_output a) @ pending a)"
proof -
  define cap where "cap = al_size a"
  define many where "many \<longleftrightarrow> length (al_toWrite a) > 25"
  define ws where "ws = (if many then take 2 (al_toWrite a) else al_toWrite a)"
  define out where "out = (if many then al_output a @ [notice] else al_output a)"
  define bs where "bs = (if length ws > 2 then take 2 ws else ws)"
  have all: "list_all (buf_ok cap) (al_toWrite a)" "al_new1 a = None" "al_toWrite a \<noteq> []"
    "al_new2 a = None \<Longrightarrow> 2 \<le> length (al_toWrite a)" "al_new2 a \<noteq> None \<Longrightarrow> buf_fresh cap (al_new2 a)"
    using inv ph by (auto simp: alog_inv_def cap_def Let_def)
  then have ws: "list_all (buf_ok cap) ws" "list_all (buf_ok cap) bs" "bs \<noteq> []" "al_new2 a = None \<Longrightarrow> 2 \<le> length bs"
    by (auto simp: ws_def bs_def many_def list_all_iff dest: in_set_takeD)
  obtain n1 bs1 where n1: "al_refill None bs = Done (n1, bs1)" "buf_fresh cap n1" "list_all (buf_ok cap) bs1"
    "length bs1 = length bs - 1"
    using al_refill_ok [of cap bs None] ws by auto
  have "al_new2 a = None \<Longrightarrow> bs1 \<noteq> []" using ws(4) n1(4) by auto
  then obtain n2 bs2 where n2: "al_refill (al_new2 a) bs1 = Done (n2, bs2)" "buf_fresh cap n2"
    using al_refill_ok [of cap bs1 "al_new2 a"] n1(3) all(5) by auto
  define a' where "a' = a\<lparr>al_stderr := (if many then al_stderr a @ [notice] else al_stderr a),
    al_output := out @ map buf_text ws, al_new1 := n1, al_new2 := n2, al_toWrite := [], al_phase := AtTop\<rparr>"
  have run: "al_write notice a = Done a'"
  proof -
    have "al_write notice a = obind (al_write_all ws out) (\<lambda>out. obind (al_refill (al_new1 a) bs) (\<lambda>(n1, bs).
        obind (al_refill (al_new2 a) bs) (\<lambda>(n2, bs).
          Done (a\<lparr>al_stderr := (if many then al_stderr a @ [notice] else al_stderr a), al_output := out,
            al_new1 := n1, al_new2 := n2, al_toWrite := [], al_phase := AtTop\<rparr>))))"
      by (cases many) (simp_all add: al_write_def many_def [symmetric] ws_def bs_def out_def Let_def)
    then show ?thesis by (simp only: al_write_all_ok [OF ws(1)] all(2) obind.simps n1(1) n2(1) split_conv a'_def)
  qed
  have "alog_inv a'"
    using inv n1(2) n2(2) by (cases n2) (simp_all add: alog_inv_def a'_def cap_def Let_def)
  moreover have "al_stderr a' = [] \<longrightarrow> al_stderr a = [] \<and> concat (al_output a') @ pending a' = concat (al_output a) @ pending a"
    by (simp add: a'_def pending_def out_def ws_def)
  ultimately show ?thesis using run by blast
qed

text \<open>
  The output is the log so far, up to what waits in the buffers, as long as there was no backlog. No
  step meets a null pointer.
\<close>

lemma alog_step_ok:
  assumes "alog_step a msg a'" "alog_inv a"
  shows "alog_inv a' \<and> (al_stderr a' = [] \<longrightarrow>
    al_stderr a = [] \<and> concat (al_output a') @ pending a' = concat (al_output a) @ pending a @ msg)"
  using assms(1)
proof cases
  case logged
  then show ?thesis using al_append_ok [OF assms(2) logged(1)] by auto
next
  case tested
  then show ?thesis using assms(2) by (simp add: alog_inv_def pending_def Let_def)
next
  case swapped
  then show ?thesis using al_swap_ok [OF assms(2)] by simp
next
  case (written notice)
  then show ?thesis using al_write_ok [OF assms(2) written(2), of notice] by auto
next
  case finished
  then show ?thesis using assms(2) by (simp add: alog_inv_def pending_def Let_def)
next
  case stopped
  then show ?thesis using assms(2) by (simp add: alog_inv_def pending_def al_stop_def Let_def)
qed

lemma alog_run_ok:
  "alog_run a log a' \<Longrightarrow> alog_inv a \<Longrightarrow>
    alog_inv a' \<and> (al_stderr a' = [] \<longrightarrow> al_stderr a = [] \<and> concat (al_output a') @ pending a' = concat (al_output a) @ pending a @ log)"
proof (induction rule: alog_run.induct)
  case (run_step a log a' msg a'')
  then show ?case using alog_step_ok [OF run_step.hyps(2)] by auto
qed simp

lemma alog_never_aborts:
  assumes "alog_run (alog_init cap) log a" "0 < cap"
  shows "length msg < al_size a \<Longrightarrow> al_append msg a \<noteq> Abort"
    and "al_phase a = Writing \<Longrightarrow> al_write notice a \<noteq> Abort"
  using alog_run_ok [OF assms(1) alog_init_ok(1) [OF assms(2)]] al_append_ok [of a msg] al_write_ok [of a notice]
  by auto

text \<open>\<open>stop\<close> does not wait for an exchange of the buffers: what was logged since the last one is not written.\<close>

lemma stop_loses:
  assumes "length msg < cap"
  shows "\<exists>a. alog_run (alog_init cap) msg a \<and> al_phase a = Finished \<and> al_output a = [] \<and> pending a = msg"
proof -
  have inv: "alog_inv (alog_init cap)" using assms by (auto intro: alog_init_ok(1))
  have cap: "al_size (alog_init cap) = cap" by (simp add: alog_init_def)
  obtain a where a: "al_append msg (alog_init cap) = Done a" "pending a = msg"
    using al_append_ok [OF inv, of msg] assms cap by (auto simp: alog_init_ok(2))
  have top: "al_phase a = AtTop" "al_output a = []"
    using a(1) assms by (auto simp: al_append_def alog_init_def avail_def fixed_init_def fb_bzero_def)
  have "alog_run (alog_init cap) msg (al_stop a)"
    using run_step [OF run_step [OF run_none logged [OF _ a(1)]] stopped] assms cap by simp
  then have "alog_run (alog_init cap) msg ((al_stop a)\<lparr>al_phase := Finished\<rparr>)"
    using run_step [OF _ finished] top(1) by (fastforce simp: al_stop_def)
  moreover have "pending ((al_stop a)\<lparr>al_phase := Finished\<rparr>) = msg" using a(2) by (simp add: pending_def al_stop_def)
  ultimately show ?thesis using top(2) by (intro exI [of _ "(al_stop a)\<lparr>al_phase := Finished\<rparr>"]) (simp add: al_stop_def)
qed

end
