(* ===== verification/BaseSync.thy ===== *)
theory BaseSync
  imports Prelude "HOL-Library.Multiset"
begin

text \<open>
  \<open>base/CountDownLatch\<close>, \<open>base/BlockingQueue\<close> and \<open>base/ThreadPool\<close>: threads that share a mutex and
  wait on a condition variable. What a thread does while it holds the mutex is one step. The
  state has the place every thread has reached; a thread waiting on the condition is \<open>Asleep\<close>
  until a signal makes it \<open>Woken\<close>, and then checks the loop condition around the wait again.
\<close>

section \<open>Condition variables\<close>

datatype 't place = AtLoop | InTake | Asleep | Woken | Holding "'t option" | Ended

definition asleep :: "'t place list \<Rightarrow> nat" where
  "asleep ts = count (mset ts) Asleep"

definition woken :: "'t place list \<Rightarrow> nat" where
  "woken ts = count (mset ts) Woken"

text \<open>\<open>weakup\<close> wakes a waiting thread if there is one, \<open>weakupAll\<close> all of them.\<close>

definition weakup_one :: "nat \<Rightarrow> 't place list \<Rightarrow> 't place list" where
  "weakup_one i ts = (if i < length ts \<and> ts ! i = Asleep then ts[i := Woken] else ts)"

definition weakup_all :: "'t place list \<Rightarrow> 't place list" where
  "weakup_all ts = map (\<lambda>t. case t of Asleep \<Rightarrow> Woken | _ \<Rightarrow> t) ts"

text \<open>The signal may go to thread \<open>i\<close>: it waits, or no thread does.\<close>

definition may_wake :: "nat \<Rightarrow> 't place list \<Rightarrow> bool" where
  "may_wake i ts \<longleftrightarrow> i < length ts \<and> ts ! i = Asleep \<or> Asleep \<notin> set ts"

text \<open>No wake-up is lost: while a thread sleeps, every item in the queue has a thread woken for it.\<close>

definition signals_ok :: "'q list \<Rightarrow> 't place list \<Rightarrow> bool" where
  "signals_ok q ts \<longleftrightarrow> (asleep ts = 0 \<or> length q \<le> woken ts)"

lemma asleep_zero: "asleep ts = 0 \<longleftrightarrow> Asleep \<notin> set ts"
  by (simp add: asleep_def count_eq_zero_iff)

lemma place_update:
  assumes "i < length ts"
  shows "asleep (ts[i := t]) + (if ts ! i = Asleep then 1 else 0) = asleep ts + (if t = Asleep then 1 else 0)"
    "woken (ts[i := t]) + (if ts ! i = Woken then 1 else 0) = woken ts + (if t = Woken then 1 else 0)"
proof -
  have "count (mset (ts[i := t])) x + (if ts ! i = x then 1 else 0) = count (mset ts) x + (if t = x then 1 else 0)" for x
  proof -
    have "ts ! i \<in># mset ts" using assms by simp
    then have "ts ! i = x \<Longrightarrow> 0 < count (mset ts) x" by (metis count_greater_zero_iff)
    then show ?thesis using assms by (auto simp: mset_update)
  qed
  then show "asleep (ts[i := t]) + (if ts ! i = Asleep then 1 else 0) = asleep ts + (if t = Asleep then 1 else 0)"
    "woken (ts[i := t]) + (if ts ! i = Woken then 1 else 0) = woken ts + (if t = Woken then 1 else 0)"
    by (simp_all add: asleep_def woken_def)
qed

lemma weakup_all_ok: "asleep (weakup_all ts) = 0" "length (weakup_all ts) = length ts"
  unfolding asleep_zero by (auto simp: weakup_all_def split: place.splits)

lemma signals_put:
  assumes "signals_ok q ts" "may_wake i ts"
  shows "signals_ok (q @ [x]) (weakup_one i ts)"
proof (cases "i < length ts \<and> ts ! i = Asleep")
  case True
  then have "woken (ts[i := Woken]) = woken ts + 1" "asleep ts \<noteq> 0"
    using place_update(2) [of i ts Woken] by (auto simp: asleep_zero dest: nth_mem)
  with assms(1) True show ?thesis by (auto simp: signals_ok_def weakup_one_def)
next
  case False
  then have "asleep ts = 0" using assms(2) by (auto simp: may_wake_def asleep_zero)
  with False show ?thesis by (auto simp: signals_ok_def weakup_one_def)
qed

text \<open>A thread that was not asleep takes an item, or finds the queue empty and goes to sleep.\<close>

lemma signals_take:
  assumes "signals_ok (x # q) ts" "i < length ts" "ts ! i \<noteq> Asleep" "t \<noteq> Asleep"
  shows "signals_ok q (ts[i := t])"
  using assms(1,3,4) place_update [OF assms(2), of t] by (auto simp: signals_ok_def split: if_splits)

lemma signals_sleep: "signals_ok [] ts"
  by (simp add: signals_ok_def)

text \<open>A thread moves without the queue.\<close>

lemma signals_move:
  assumes "signals_ok q ts" "i < length ts" "t \<noteq> Asleep" "ts ! i = Woken \<Longrightarrow> t = Woken"
  shows "signals_ok q (ts[i := t])"
  using assms(1,3,4) place_update [OF assms(2), of t] by (auto simp: signals_ok_def split: if_splits)

section \<open>The latch\<close>

record latch =
  la_count :: int
  la_threads :: "unit place list"

definition latch_init :: "int \<Rightarrow> nat \<Rightarrow> latch" where
  "latch_init n k = \<lparr>la_count = n, la_threads = replicate k AtLoop\<rparr>"

text \<open>\<open>wait\<close>, from its start or after a wake-up: back to sleep or through.\<close>

definition latch_wait :: "nat \<Rightarrow> latch \<Rightarrow> latch" where
  "latch_wait i l = l\<lparr>la_threads := (la_threads l)[i := (if la_count l > 0 then Asleep else Ended)]\<rparr>"

definition countDown :: "latch \<Rightarrow> latch" where
  "countDown l =
     (let l = l\<lparr>la_count := la_count l - 1\<rparr>
      in if la_count l = 0 then l\<lparr>la_threads := weakup_all (la_threads l)\<rparr> else l)"

definition getcount :: "latch \<Rightarrow> int" where
  "getcount l = la_count l"

inductive latch_step :: "latch \<Rightarrow> latch \<Rightarrow> bool" where
  waits: "i < length (la_threads l) \<Longrightarrow> la_threads l ! i \<in> {AtLoop, Woken} \<Longrightarrow> latch_step l (latch_wait i l)"
| counts: "latch_step l (countDown l)"
| spurious: "i < length (la_threads l) \<Longrightarrow> la_threads l ! i = Asleep \<Longrightarrow>
    latch_step l (l\<lparr>la_threads := (la_threads l)[i := Woken]\<rparr>)"

text \<open>Once the count has reached zero nobody sleeps, and nobody got through before.\<close>

definition latch_inv :: "latch \<Rightarrow> bool" where
  "latch_inv l \<longleftrightarrow> (la_count l \<le> 0 \<longrightarrow> Asleep \<notin> set (la_threads l)) \<and> (0 < la_count l \<longrightarrow> Ended \<notin> set (la_threads l))"

lemma latch_step_inv: "latch_step l l' \<Longrightarrow> latch_inv l \<Longrightarrow> latch_inv l'"
proof (induction rule: latch_step.induct)
  case (waits i l)
  then show ?case by (auto simp: latch_inv_def latch_wait_def dest: set_update_subset_insert [THEN subsetD])
next
  case (counts l)
  have "Asleep \<notin> set (weakup_all (la_threads l))" using weakup_all_ok(1) [of "la_threads l"] by (simp add: asleep_zero)
  with counts show ?case by (auto simp: latch_inv_def countDown_def Let_def)
next
  case (spurious i l)
  then show ?case by (auto simp: latch_inv_def dest: set_update_subset_insert [THEN subsetD])
qed

lemma latch_reach_inv: "latch_step\<^sup>*\<^sup>* (latch_init n k) l \<Longrightarrow> latch_inv l"
proof (induction rule: rtranclp_induct)
  case base
  show ?case by (auto simp: latch_inv_def latch_init_def)
qed (rule latch_step_inv)

section \<open>The blocking queue\<close>

record 'a bqueue =
  bq_queue :: "'a list"
  bq_threads :: "'a place list"

definition bq_init :: "nat \<Rightarrow> 'a bqueue" where
  "bq_init k = \<lparr>bq_queue = [], bq_threads = replicate k AtLoop\<rparr>"

definition bq_put :: "nat \<Rightarrow> 'a \<Rightarrow> 'a bqueue \<Rightarrow> 'a bqueue" where
  "bq_put i x b = b\<lparr>bq_queue := bq_queue b @ [x], bq_threads := weakup_one i (bq_threads b)\<rparr>"

text \<open>\<open>take\<close> by a thread, from its start or after a wake-up.\<close>

definition bq_take :: "nat \<Rightarrow> 'a bqueue \<Rightarrow> 'a bqueue" where
  "bq_take j b =
     (case bq_queue b of
        [] \<Rightarrow> b\<lparr>bq_threads := (bq_threads b)[j := Asleep]\<rparr>
      | x # q \<Rightarrow> b\<lparr>bq_queue := q, bq_threads := (bq_threads b)[j := Holding (Some x)]\<rparr>)"

definition bq_size :: "'a bqueue \<Rightarrow> nat" where
  "bq_size b = length (bq_queue b)"

text \<open>Steps with the items put and those taken.\<close>

inductive bq_step :: "'a bqueue \<Rightarrow> 'a list \<times> 'a list \<Rightarrow> 'a bqueue \<Rightarrow> bool" where
  bq_puts: "may_wake i (bq_threads b) \<Longrightarrow> bq_step b ([x], []) (bq_put i x b)"
| bq_takes: "j < length (bq_threads b) \<Longrightarrow> bq_threads b ! j \<in> {AtLoop, Woken} \<Longrightarrow>
    bq_step b ([], take 1 (bq_queue b)) (bq_take j b)"
| bq_again: "j < length (bq_threads b) \<Longrightarrow> bq_threads b ! j = Holding (Some x) \<Longrightarrow>
    bq_step b ([], []) (b\<lparr>bq_threads := (bq_threads b)[j := AtLoop]\<rparr>)"
| bq_spurious: "j < length (bq_threads b) \<Longrightarrow> bq_threads b ! j = Asleep \<Longrightarrow>
    bq_step b ([], []) (b\<lparr>bq_threads := (bq_threads b)[j := Woken]\<rparr>)"

inductive bq_run :: "'a bqueue \<Rightarrow> 'a list \<Rightarrow> 'a list \<Rightarrow> 'a bqueue \<Rightarrow> bool" where
  bq_none: "bq_run b [] [] b"
| bq_more: "bq_run b ps ts b' \<Longrightarrow> bq_step b' (p, t) b'' \<Longrightarrow> bq_run b (ps @ p) (ts @ t) b''"

lemma bq_step_ok:
  "bq_step b pt b' \<Longrightarrow> signals_ok (bq_queue b) (bq_threads b) \<Longrightarrow>
    signals_ok (bq_queue b') (bq_threads b') \<and> bq_queue b @ fst pt = snd pt @ bq_queue b'"
proof (induction rule: bq_step.induct)
  case (bq_puts i b x)
  then show ?case by (simp add: bq_put_def signals_put)
next
  case (bq_takes j b)
  then show ?case
    by (cases "bq_queue b") (auto simp: bq_take_def signals_sleep intro!: signals_take)
next
  case (bq_again j b x)
  then show ?case using signals_move [of "bq_queue b" "bq_threads b" j AtLoop] by simp
next
  case (bq_spurious j b)
  then show ?case using signals_move [of "bq_queue b" "bq_threads b" j Woken] by simp
qed

text \<open>First in, first out, and no lost wake-up.\<close>

lemma bq_run_ok:
  "bq_run b ps ts b' \<Longrightarrow> signals_ok (bq_queue b) (bq_threads b) \<Longrightarrow>
    signals_ok (bq_queue b') (bq_threads b') \<and> bq_queue b @ ps = ts @ bq_queue b'"
proof (induction rule: bq_run.induct)
  case (bq_more b ps ts b' p t b'')
  then have "signals_ok (bq_queue b') (bq_threads b')" "bq_queue b @ ps = ts @ bq_queue b'" by auto
  with bq_step_ok [OF bq_more.hyps(2)] have "signals_ok (bq_queue b'') (bq_threads b'')" "bq_queue b' @ p = t @ bq_queue b''"
    by auto
  moreover have "bq_queue b @ ps @ p = ts @ bq_queue b' @ p" using \<open>bq_queue b @ ps = ts @ bq_queue b'\<close> by (metis append.assoc)
  ultimately show ?case by simp
qed simp

section \<open>The thread pool\<close>

record 't tpool =
  tp_running :: bool
  tp_queue :: "'t list"
  tp_threads :: "'t place list"
  tp_taken :: "'t list"
  tp_started :: "'t list"

definition tp_init :: "'t tpool" where
  "tp_init = \<lparr>tp_running = False, tp_queue = [], tp_threads = [], tp_taken = [], tp_started = []\<rparr>"

text \<open>\<open>start\<close> on a new pool.\<close>

definition tp_start :: "nat \<Rightarrow> 't tpool \<Rightarrow> 't tpool" where
  "tp_start numsThreads p = p\<lparr>tp_running := True, tp_threads := tp_threads p @ replicate numsThreads AtLoop\<rparr>"

definition tp_run :: "nat \<Rightarrow> 't \<Rightarrow> 't tpool \<Rightarrow> 't tpool" where
  "tp_run i task p =
     (if tp_threads p = [] then p\<lparr>tp_taken := tp_taken p @ [task], tp_started := tp_started p @ [task]\<rparr>
      else p\<lparr>tp_queue := tp_queue p @ [task], tp_threads := weakup_one i (tp_threads p)\<rparr>)"

text \<open>\<open>stop\<close>, before it joins the threads.\<close>

definition tp_stop :: "'t tpool \<Rightarrow> 't tpool" where
  "tp_stop p = p\<lparr>tp_running := False, tp_threads := weakup_all (tp_threads p)\<rparr>"

definition tp_take :: "nat \<Rightarrow> 't tpool \<Rightarrow> 't tpool" where
  "tp_take j p =
     (if tp_running p \<and> tp_queue p = [] then p\<lparr>tp_threads := (tp_threads p)[j := Asleep]\<rparr>
      else (case tp_queue p of
              [] \<Rightarrow> p\<lparr>tp_threads := (tp_threads p)[j := Holding None]\<rparr>
            | t # q \<Rightarrow> p\<lparr>tp_queue := q, tp_taken := tp_taken p @ [t], tp_threads := (tp_threads p)[j := Holding (Some t)]\<rparr>))"

text \<open>
  \<open>runInqueue\<close>: the test of the loop, and the call of the task; one that throws ends the thread. A task
  submitted is a function that can be called: an empty \<open>std::function\<close>, which \<open>if(t)\<close> would skip, is not
  submitted here, so \<open>t\<close> is empty exactly when \<open>take\<close> found the queue empty.
\<close>

definition tp_loop :: "nat \<Rightarrow> 't tpool \<Rightarrow> 't tpool" where
  "tp_loop j p = p\<lparr>tp_threads := (tp_threads p)[j := (if tp_running p then InTake else Ended)]\<rparr>"

definition tp_exec :: "bool \<Rightarrow> nat \<Rightarrow> 't tpool \<Rightarrow> 't tpool" where
  "tp_exec throws j p =
     (case tp_threads p ! j of
        Holding (Some t) \<Rightarrow>
          p\<lparr>tp_started := tp_started p @ [t], tp_threads := (tp_threads p)[j := (if throws then Ended else AtLoop)]\<rparr>
      | _ \<Rightarrow> p\<lparr>tp_threads := (tp_threads p)[j := AtLoop]\<rparr>)"

text \<open>A step of one of the pool's threads, and any step, with the task submitted.\<close>

inductive worker_step :: "'t tpool \<Rightarrow> 't tpool \<Rightarrow> bool" where
  looped: "j < length (tp_threads p) \<Longrightarrow> tp_threads p ! j = AtLoop \<Longrightarrow> worker_step p (tp_loop j p)"
| took: "j < length (tp_threads p) \<Longrightarrow> tp_threads p ! j \<in> {InTake, Woken} \<Longrightarrow> worker_step p (tp_take j p)"
| executed: "j < length (tp_threads p) \<Longrightarrow> tp_threads p ! j = Holding t \<Longrightarrow> worker_step p (tp_exec throws j p)"

inductive tp_step :: "'t tpool \<Rightarrow> 't list \<Rightarrow> 't tpool \<Rightarrow> bool" where
  works: "worker_step p p' \<Longrightarrow> tp_step p [] p'"
| submits: "may_wake i (tp_threads p) \<Longrightarrow> tp_step p [t] (tp_run i t p)"
| stops: "tp_step p [] (tp_stop p)"
| wakes: "j < length (tp_threads p) \<Longrightarrow> tp_threads p ! j = Asleep \<Longrightarrow>
    tp_step p [] (p\<lparr>tp_threads := (tp_threads p)[j := Woken]\<rparr>)"

inductive tp_reach :: "'t tpool \<Rightarrow> 't list \<Rightarrow> 't tpool \<Rightarrow> bool" where
  tp_none: "tp_reach p [] p"
| tp_more: "tp_reach p ts p' \<Longrightarrow> tp_step p' t p'' \<Longrightarrow> tp_reach p (ts @ t) p''"

text \<open>The tasks taken and not yet started.\<close>

fun holding :: "'t place \<Rightarrow> 't multiset" where
  "holding (Holding (Some t)) = {#t#}"
| "holding _ = {#}"

definition held :: "'t place list \<Rightarrow> 't multiset" where
  "held ts = (\<Sum>p\<in>#mset ts. holding p)"

lemma held_update:
  assumes "i < length ts"
  shows "held (ts[i := p]) + holding (ts ! i) = held ts + holding p"
proof -
  have "mset (ts[i := p]) + {#ts ! i#} = mset ts + {#p#}" using assms by (simp add: mset_update)
  from arg_cong [OF this, of "\<lambda>M. \<Sum>p\<in>#M. holding p"] show ?thesis by (simp add: held_def ac_simps)
qed

lemma held_idle: "i < length ts \<Longrightarrow> holding (ts ! i) = {#} \<Longrightarrow> holding p = {#} \<Longrightarrow> held (ts[i := p]) = held ts"
  using held_update [of i ts p] by simp

lemma held_weakup: "held (weakup_one i ts) = held ts" "held (weakup_all ts) = held ts"
proof -
  show "held (weakup_one i ts) = held ts" by (auto simp: weakup_one_def held_idle)
  have "holding (case t of Asleep \<Rightarrow> Woken | _ \<Rightarrow> t) = holding t" for t :: "'a place" by (cases t) auto
  then show "held (weakup_all ts) = held ts" by (simp add: held_def weakup_all_def multiset.map_comp o_def)
qed

text \<open>
  No wake-up is lost, nobody sleeps in a stopped pool, and every task taken was started or is about
  to be.
\<close>

definition tp_inv :: "'t tpool \<Rightarrow> bool" where
  "tp_inv p \<longleftrightarrow> signals_ok (tp_queue p) (tp_threads p) \<and> (\<not> tp_running p \<longrightarrow> Asleep \<notin> set (tp_threads p)) \<and>
     mset (tp_taken p) = mset (tp_started p) + held (tp_threads p) \<and> (tp_threads p = [] \<longrightarrow> tp_queue p = [])"

lemma tp_start_inv: "tp_inv (tp_start n tp_init)"
  by (auto simp: tp_inv_def tp_start_def tp_init_def signals_ok_def held_def)

lemma not_asleep_update: "Asleep \<notin> set ts \<Longrightarrow> t \<noteq> Asleep \<Longrightarrow> Asleep \<notin> set (ts[i := t])"
  by (auto dest: set_update_subset_insert [THEN subsetD])

lemma worker_step_inv:
  "worker_step p p' \<Longrightarrow> tp_inv p \<Longrightarrow> tp_inv p' \<and> tp_taken p' @ tp_queue p' = tp_taken p @ tp_queue p"
proof (induction rule: worker_step.induct)
  case (looped j p)
  then show ?case
    by (auto simp: tp_inv_def tp_loop_def not_asleep_update held_idle intro!: signals_move)
next
  case (took j p)
  show ?case
  proof (cases "tp_running p \<and> tp_queue p = []")
    case True
    with took show ?thesis by (auto simp: tp_inv_def tp_take_def signals_sleep held_idle)
  next
    case False
    have idle: "holding (tp_threads p ! j) = {#}" "tp_threads p ! j \<noteq> Asleep" using took by auto
    show ?thesis
    proof (cases "tp_queue p")
      case Nil
      with False took idle show ?thesis
        by (auto simp: tp_inv_def tp_take_def signals_sleep held_idle not_asleep_update)
    next
      case (Cons t q)
      have "held ((tp_threads p)[j := Holding (Some t)]) = held (tp_threads p) + {#t#}"
        using held_update [OF took(1), of "Holding (Some t)"] idle by simp
      with Cons False took idle show ?thesis
        by (auto simp: tp_inv_def tp_take_def not_asleep_update intro!: signals_take)
    qed
  qed
next
  case (executed j p t throws)
  have "holding (tp_threads p ! j) = holding (Holding t)" using executed by simp
  then have "held ((tp_threads p)[j := w]) + holding (Holding t) = held (tp_threads p)" if "w = AtLoop \<or> w = Ended" for w
    using held_update [OF executed(1), of w] that by auto
  with executed show ?case
    by (cases t) (auto simp: tp_inv_def tp_exec_def not_asleep_update intro!: signals_move)
qed

lemma tp_step_inv:
  "tp_step p ts p' \<Longrightarrow> tp_inv p \<Longrightarrow> tp_inv p' \<and> tp_taken p' @ tp_queue p' = tp_taken p @ tp_queue p @ ts"
proof (induction rule: tp_step.induct)
  case (works p p')
  then show ?case using worker_step_inv by simp
next
  case (submits i p t)
  show ?case
  proof (cases "tp_threads p = []")
    case True
    with submits show ?thesis by (simp add: tp_inv_def tp_run_def signals_sleep)
  next
    case False
    have "Asleep \<notin> set (tp_threads p) \<Longrightarrow> Asleep \<notin> set (weakup_one i (tp_threads p))"
      by (simp add: weakup_one_def not_asleep_update)
    moreover have "weakup_one i (tp_threads p) \<noteq> []" using False by (simp add: weakup_one_def)
    moreover have "signals_ok (tp_queue p @ [t]) (weakup_one i (tp_threads p))"
      using submits by (simp add: tp_inv_def signals_put)
    ultimately show ?thesis using submits False by (simp add: tp_inv_def tp_run_def held_weakup)
  qed
next
  case (stops p)
  have "signals_ok (tp_queue p) (weakup_all (tp_threads p))" "Asleep \<notin> set (weakup_all (tp_threads p))"
    using weakup_all_ok(1) [of "tp_threads p"] by (auto simp: signals_ok_def asleep_zero)
  moreover have "weakup_all (tp_threads p) = [] \<longleftrightarrow> tp_threads p = []" by (simp add: weakup_all_def)
  ultimately show ?case using stops by (simp add: tp_inv_def tp_stop_def held_weakup)
next
  case (wakes j p)
  have "signals_ok (tp_queue p) ((tp_threads p)[j := Woken])"
    using wakes by (intro signals_move) (auto simp: tp_inv_def)
  moreover have "held ((tp_threads p)[j := Woken]) = held (tp_threads p)" using wakes by (simp add: held_idle)
  ultimately show ?case using wakes by (simp add: tp_inv_def not_asleep_update)
qed

lemma tp_reach_inv:
  "tp_reach p ts p' \<Longrightarrow> tp_inv p \<Longrightarrow> tp_inv p' \<and> tp_taken p' @ tp_queue p' = tp_taken p @ tp_queue p @ ts"
proof (induction rule: tp_reach.induct)
  case (tp_more p ts p' t p'')
  then show ?case using tp_step_inv [OF tp_more.hyps(2)] by simp
qed simp

text \<open>How many steps a thread of a stopped pool can still make, at most.\<close>

fun rank :: "'t place \<Rightarrow> nat" where
  "rank Ended = 0"
| "rank AtLoop = 1"
| "rank (Holding t) = 2"
| "rank _ = 3"

lemma rank_update: "i < length ts \<Longrightarrow> rank t < rank (ts ! i) \<Longrightarrow> sum_list (map rank (ts[i := t])) < sum_list (map rank ts)"
proof (induction ts arbitrary: i)
  case (Cons x ts)
  then show ?case by (cases i) auto
qed simp

lemma stopped_progress:
  "worker_step p p' \<Longrightarrow> \<not> tp_running p \<Longrightarrow>
    \<not> tp_running p' \<and> sum_list (map rank (tp_threads p')) < sum_list (map rank (tp_threads p))"
proof (induction rule: worker_step.induct)
  case (looped j p)
  then show ?case by (auto simp: tp_loop_def intro!: rank_update)
next
  case (took j p)
  then show ?case by (auto simp: tp_take_def intro!: rank_update split: list.split)
next
  case (executed j p t throws)
  then show ?case by (auto simp: tp_exec_def intro!: rank_update split: option.split)
qed

lemma stopped_not_stuck:
  assumes "tp_inv p" "\<not> tp_running p" "t \<in> set (tp_threads p)" "t \<noteq> Ended"
  shows "\<exists>p'. worker_step p p'"
proof -
  obtain j where j: "j < length (tp_threads p)" "tp_threads p ! j = t" using assms(3) by (auto simp: in_set_conv_nth)
  have "t \<noteq> Asleep" using assms by (auto simp: tp_inv_def)
  with assms(4) show ?thesis
    using looped [OF j(1)] took [OF j(1)] executed [OF j(1)] j(2) by (cases t) blast+
qed

text \<open>While there is work, a thread that has not ended is at work or woken.\<close>

lemma work_not_asleep:
  assumes "tp_inv p" "tp_queue p \<noteq> []" "t \<in> set (tp_threads p)" "t \<noteq> Ended"
  shows "\<exists>p'. worker_step p p'"
proof (cases "t = Asleep")
  case True
  then have "asleep (tp_threads p) \<noteq> 0" using assms(3) by (simp add: asleep_zero)
  then have "0 < woken (tp_threads p)" using assms(1,2) by (cases "tp_queue p") (auto simp: tp_inv_def signals_ok_def)
  then have "Woken \<in> set (tp_threads p)" by (simp add: woken_def count_greater_zero_iff)
  then obtain j where "j < length (tp_threads p)" "tp_threads p ! j = Woken" by (auto simp: in_set_conv_nth)
  then show ?thesis using took by blast
next
  case False
  obtain j where j: "j < length (tp_threads p)" "tp_threads p ! j = t" using assms(3) by (auto simp: in_set_conv_nth)
  with False assms(4) show ?thesis
    using looped [OF j(1)] took [OF j(1)] executed [OF j(1)] by (cases t) blast+
qed

end
