(* ===== verification/JsonHeap.thy ===== *)
theory JsonHeap
  imports JsonValue "HOL-Library.Multiset"
begin

text \<open>
  How \<open>jackson/Value.h\<close> and \<open>Value.cc\<close> keep their values: a string, an array or an object is a cell on
  the heap with a count of the references to it, which copying a value shares. The heap is the list
  of the cells ever made, None for those deleted; \<open>Throw Undefined\<close> is a use of a deleted cell,
  \<open>Abort\<close> a failed \<open>assert\<close>. Counts are integers, the model does not bound them by \<open>int\<close>.
  \<open>denotes\<close> relates a value on the heap to the tree of \<open>JsonValue\<close> that it stands for.
\<close>

section \<open>Cells\<close>

datatype fault = Undefined

datatype cell_kind = StringCell | ArrayCell | ObjectCell

datatype cval = CNull | CBool bool | CInt32 i32 | CInt64 i64 | CDouble double | CRef cell_kind nat

datatype cell_data = CharVector string | ValueVector "cval list" | MemberVector "(cval \<times> cval) list"

type_synonym cells = "(int \<times> cell_data) option list"

fun kind_of :: "cell_data \<Rightarrow> cell_kind" where
  "kind_of (CharVector s) = StringCell"
| "kind_of (ValueVector vs) = ArrayCell"
| "kind_of (MemberVector ms) = ObjectCell"

text \<open>The values a cell holds, in the order the vectors destroy them.\<close>

fun held_values :: "cell_data \<Rightarrow> cval list" where
  "held_values (CharVector s) = []"
| "held_values (ValueVector vs) = vs"
| "held_values (MemberVector ms) = concat (map (\<lambda>(k, v). [k, v]) ms)"

definition cell_at :: "cells \<Rightarrow> nat \<Rightarrow> (int \<times> cell_data) option" where
  "cell_at h l = (if l < length h then h ! l else None)"

text \<open>\<open>new\<close> makes a cell with one reference.\<close>

definition new_cell :: "cell_data \<Rightarrow> cells \<Rightarrow> cval \<times> cells" where
  "new_cell c h = (CRef (kind_of c) (length h), h @ [Some (1, c)])"

definition incrAndGet :: "nat \<Rightarrow> cells \<Rightarrow> (fault, int \<times> cells) outcome" where
  "incrAndGet l h =
     (case cell_at h l of
        None \<Rightarrow> Throw Undefined
      | Some (n, c) \<Rightarrow> require (n > 0) (Done (n + 1, h[l := Some (n + 1, c)])))"

section \<open>Destruction\<close>

text \<open>
  The destructor, on the values that are still to be destroyed: when the last reference to a cell
  goes, the cell is deleted and the values in it are next.
\<close>

definition live_cells :: "cells \<Rightarrow> nat" where
  "live_cells h = sum_list (map (\<lambda>x. if x = None then 0 else 1) h)"

lemma sum_update:
  fixes f :: "'a \<Rightarrow> 'b::comm_monoid_add"
  assumes "i < length xs"
  shows "sum_list (map f (xs[i := y])) + f (xs ! i) = sum_list (map f xs) + f y"
  using assms
proof (induction xs arbitrary: i)
  case (Cons x xs)
  show ?case
  proof (cases i)
    case (Suc j)
    then have "sum_list (map f (xs[j := y])) + f (xs ! j) = sum_list (map f xs) + f y" using Cons by simp
    with Suc show ?thesis by (simp add: add.assoc)
  qed (simp add: ac_simps)
qed simp

lemma cell_at_Some: "cell_at h l = Some x \<longleftrightarrow> l < length h \<and> h ! l = Some x"
  by (simp add: cell_at_def)

lemma live_cells_update:
  "cell_at h l = Some x \<Longrightarrow> live_cells (h[l := None]) < live_cells h"
  "cell_at h l = Some x \<Longrightarrow> live_cells (h[l := Some y]) = live_cells h"
  using sum_update [of l h "\<lambda>x. if x = None then 0 else 1 :: nat" None]
    sum_update [of l h "\<lambda>x. if x = None then 0 else 1 :: nat" "Some y"] by (auto simp: cell_at_Some live_cells_def)

function destroy_all :: "cval list \<Rightarrow> cells \<Rightarrow> (fault, cells) outcome" where
  "destroy_all [] h = Done h"
| "destroy_all (v # vs) h =
     (case v of
        CRef k l \<Rightarrow>
          (case cell_at h l of
             None \<Rightarrow> Throw Undefined
           | Some (n, c) \<Rightarrow>
               if n > 0 then
                 if n - 1 = 0 then destroy_all (held_values c @ vs) (h[l := None])
                 else destroy_all vs (h[l := Some (n - 1, c)])
               else Abort)
      | _ \<Rightarrow> destroy_all vs h)"
  by pat_completeness auto
termination
  by (relation "measures [\<lambda>(vs, h). live_cells h, \<lambda>(vs, h). length vs]") (auto simp: live_cells_update)

definition destroy :: "cval \<Rightarrow> cells \<Rightarrow> (fault, cells) outcome" where
  "destroy v h = destroy_all [v] h"


section \<open>Counted references\<close>

text \<open>
  What is referenced, by the program's own values \<open>rs\<close> or from the cells: every count is the number of
  the references to its cell, no reference is to a deleted cell or to one of another kind, and the
  keys of members are strings.
\<close>

definition points_to :: "nat \<Rightarrow> cval \<Rightarrow> bool" where
  "points_to l v \<longleftrightarrow> (\<exists>k. v = CRef k l)"

definition references :: "nat \<Rightarrow> cval multiset \<Rightarrow> nat" where
  "references l M = size (filter_mset (points_to l) M)"

definition slot_values :: "(int \<times> cell_data) option \<Rightarrow> cval multiset" where
  "slot_values x = (case x of None \<Rightarrow> {#} | Some (n, c) \<Rightarrow> mset (held_values c))"

definition heap_values :: "cells \<Rightarrow> cval multiset" where
  "heap_values h = sum_list (map slot_values h)"

fun keys_ok :: "cell_data \<Rightarrow> bool" where
  "keys_ok (MemberVector ms) \<longleftrightarrow> (\<forall>(k, v)\<in>set ms. \<exists>l. k = CRef StringCell l)"
| "keys_ok _ \<longleftrightarrow> True"

definition count_of :: "cells \<Rightarrow> nat \<Rightarrow> int" where
  "count_of h l = (case cell_at h l of None \<Rightarrow> 0 | Some (n, c) \<Rightarrow> n)"

definition kind_at :: "cells \<Rightarrow> nat \<Rightarrow> cell_kind option" where
  "kind_at h l = map_option (\<lambda>(n, c). kind_of c) (cell_at h l)"

definition counts_ok :: "cval multiset \<Rightarrow> cells \<Rightarrow> bool" where
  "counts_ok M h \<longleftrightarrow>
     (\<forall>l. int (references l M) = count_of h l) \<and>
     (\<forall>l n c. cell_at h l = Some (n, c) \<longrightarrow> 0 < n \<and> keys_ok c) \<and>
     (\<forall>k l. CRef k l \<in># M \<longrightarrow> kind_at h l = Some k)"

definition heap_ok :: "cval multiset \<Rightarrow> cells \<Rightarrow> bool" where
  "heap_ok rs h \<longleftrightarrow> counts_ok (rs + heap_values h) h"

lemma counts_okD:
  assumes "counts_ok M h"
  shows "int (references l M) = count_of h l" "cell_at h l = Some (n, c) \<Longrightarrow> 0 < n \<and> keys_ok c"
    "CRef k l \<in># M \<Longrightarrow> kind_at h l = Some k"
  using assms unfolding counts_ok_def by blast+

lemma heap_values_update: "l < length h \<Longrightarrow> heap_values (h[l := x]) + slot_values (h ! l) = heap_values h + slot_values x"
  unfolding heap_values_def by (rule sum_update)

lemma heap_values_free:
  assumes "cell_at h l = Some x"
  shows "heap_values (h[l := None]) \<subseteq># heap_values h"
proof -
  have "heap_values h = heap_values (h[l := None]) + slot_values (h ! l)"
    using heap_values_update [of l h None] assms by (simp add: cell_at_Some slot_values_def)
  then show ?thesis using mset_subset_eq_add_left by metis
qed

lemma heap_values_new [simp]: "heap_values (h @ [x]) = heap_values h + slot_values x"
  by (simp add: heap_values_def)

lemma references_simps [simp]:
  "references l (M + N) = references l M + references l N" "references l {#} = 0"
  "references l (add_mset v M) = (if points_to l v then 1 else 0) + references l M"
  by (simp_all add: references_def)

lemma references_none: "references l M = 0 \<longleftrightarrow> (\<forall>v\<in>#M. \<not> points_to l v)"
  by (induction M) auto

lemma points_to_simps [simp]: "points_to l (CRef k m) \<longleftrightarrow> m = l" "(\<And>k m. v \<noteq> CRef k m) \<Longrightarrow> \<not> points_to l v"
  by (auto simp: points_to_def)

lemma cell_at_update: "l < length h \<Longrightarrow> cell_at (h[l := x]) m = (if m = l then x else cell_at h m)"
  by (simp add: cell_at_def)

lemma cell_at_new: "cell_at (h @ [x]) m = (if m = length h then x else cell_at h m)"
  by (auto simp: cell_at_def nth_append)

text \<open>A value that is no reference does not count.\<close>

lemma heap_ok_plain: "(\<And>k l. v \<noteq> CRef k l) \<Longrightarrow> heap_ok (add_mset v rs) h \<longleftrightarrow> heap_ok rs h"
  by (auto simp: heap_ok_def counts_ok_def)

text \<open>Values may move between the program and a cell, as long as the cell keeps its kind.\<close>

lemma heap_ok_move:
  assumes "heap_ok rs h" "cell_at h l = Some (n, c)" "kind_of c' = kind_of c" "keys_ok c'"
    and "rs' + mset (held_values c') = rs + mset (held_values c)"
  shows "heap_ok rs' (h[l := Some (n, c')])"
proof -
  have l: "l < length h" "h ! l = Some (n, c)" using assms(2) by (simp_all add: cell_at_Some)
  have "heap_values (h[l := Some (n, c')]) + mset (held_values c) = heap_values h + mset (held_values c')"
    using heap_values_update [OF l(1), of "Some (n, c')"] l(2) by (simp add: slot_values_def)
  then have "(rs' + heap_values (h[l := Some (n, c')])) + (mset (held_values c) + mset (held_values c')) =
      (rs + heap_values h) + (mset (held_values c) + mset (held_values c'))"
    using assms(5) by (metis (no_types, lifting) add.assoc add.commute)
  then have eq: "rs' + heap_values (h[l := Some (n, c')]) = rs + heap_values h" by simp
  have "count_of (h[l := Some (n, c')]) m = count_of h m" "kind_at (h[l := Some (n, c')]) m = kind_at h m" for m
    using assms(2,3) l by (simp_all add: count_of_def kind_at_def cell_at_update)
  moreover have "cell_at (h[l := Some (n, c')]) m = Some (i, d) \<Longrightarrow> 0 < i \<and> keys_ok d" for m i d
    using assms(1,2,4) l by (auto simp: heap_ok_def counts_ok_def cell_at_update split: if_splits)
  ultimately show ?thesis
    using assms(1) unfolding heap_ok_def eq counts_ok_def by simp
qed

text \<open>One more reference, one less, and a new cell.\<close>

lemma heap_ok_incr:
  assumes "heap_ok rs h" "cell_at h l = Some (n, c)"
  shows "heap_ok (add_mset (CRef (kind_of c) l) rs) (h[l := Some (n + 1, c)])"
proof -
  have l: "l < length h" "h ! l = Some (n, c)" using assms(2) by (simp_all add: cell_at_Some)
  have eq: "heap_values (h[l := Some (n + 1, c)]) = heap_values h"
    using heap_values_update [OF l(1), of "Some (n + 1, c)"] l(2) by (simp add: slot_values_def)
  have "count_of (h[l := Some (n + 1, c)]) m = count_of h m + (if m = l then 1 else 0)"
    "kind_at (h[l := Some (n + 1, c)]) m = kind_at h m" for m
    using assms(2) l by (simp_all add: count_of_def kind_at_def cell_at_update)
  moreover have "kind_at h l = Some (kind_of c)" using assms(2) by (simp add: kind_at_def)
  moreover have "cell_at (h[l := Some (n + 1, c)]) m = Some (i, d) \<Longrightarrow> 0 < i \<and> keys_ok d" for m i d
    using assms l by (fastforce simp: heap_ok_def counts_ok_def cell_at_update split: if_splits)
  ultimately show ?thesis
    using assms(1) unfolding heap_ok_def eq counts_ok_def by auto
qed

lemma heap_ok_decr:
  assumes "heap_ok (add_mset (CRef k l) rs) h" "cell_at h l = Some (n, c)" "n \<noteq> 1"
  shows "heap_ok rs (h[l := Some (n - 1, c)])"
proof -
  note ok = counts_okD [OF assms(1) [unfolded heap_ok_def]]
  have l: "l < length h" "h ! l = Some (n, c)" using assms(2) by (simp_all add: cell_at_Some)
  have eq: "heap_values (h[l := Some (n - 1, c)]) = heap_values h"
    using heap_values_update [OF l(1), of "Some (n - 1, c)"] l(2) by (simp add: slot_values_def)
  have n: "1 < n" using ok(2) [OF assms(2)] assms(3) by linarith
  have cnt: "count_of (h[l := Some (n - 1, c)]) m = count_of h m - (if m = l then 1 else 0)"
    and kind: "kind_at (h[l := Some (n - 1, c)]) m = kind_at h m" for m
    using assms(2) l by (simp_all add: count_of_def kind_at_def cell_at_update)
  show ?thesis
    unfolding heap_ok_def eq counts_ok_def cnt kind
  proof (intro conjI allI impI)
    show "int (references m (rs + heap_values h)) = count_of h m - (if m = l then 1 else 0)" for m
      using ok(1) [of m] by auto
    show "0 < i" "keys_ok d" if "cell_at (h[l := Some (n - 1, c)]) m = Some (i, d)" for m i d
      using that ok(2) assms(2,3) l n by (auto simp: cell_at_update split: if_splits)
    show "kind_at h m = Some k'" if "CRef k' m \<in># rs + heap_values h" for k' m
      using that ok(3) [of k' m] by simp
  qed
qed

lemma heap_ok_free:
  assumes "heap_ok (add_mset (CRef k l) rs) h" "cell_at h l = Some (1, c)"
  shows "heap_ok (mset (held_values c) + rs) (h[l := None])"
    and "references l (rs + heap_values h) = 0"
proof -
  have l: "l < length h" "h ! l = Some (1, c)" using assms(2) by (simp_all add: cell_at_Some)
  have eq: "mset (held_values c) + rs + heap_values (h[l := None]) = rs + heap_values h"
    using heap_values_update [OF l(1), of None] l(2) by (simp add: slot_values_def ac_simps)
  have "int (references l (add_mset (CRef k l) rs + heap_values h)) = count_of h l"
    using assms(1) unfolding heap_ok_def by (rule counts_okD)
  then show none: "references l (rs + heap_values h) = 0"
    using assms(2) by (simp add: count_of_def)
  have cnt: "count_of (h[l := None]) m + (if m = l then 1 else 0) = count_of h m" for m
    using assms(2) l by (simp add: count_of_def cell_at_update)
  have kinds: "m \<noteq> l \<Longrightarrow> kind_at (h[l := None]) m = kind_at h m" for m
    using l by (simp add: kind_at_def cell_at_update)
  have notl: "CRef k' m \<in># rs + heap_values h \<Longrightarrow> m \<noteq> l" for k' m
    using none references_none [of l "rs + heap_values h"] by force
  show "heap_ok (mset (held_values c) + rs) (h[l := None])"
    unfolding heap_ok_def eq counts_ok_def
  proof (intro conjI allI impI)
    fix m
    show "int (references m (rs + heap_values h)) = count_of (h[l := None]) m"
      using counts_okD(1) [OF assms(1) [unfolded heap_ok_def], of m] cnt [of m] by (simp split: if_splits)
  next
    fix m i d assume "cell_at (h[l := None]) m = Some (i, d)"
    then show "0 < i" "keys_ok d"
      using counts_okD(2) [OF assms(1) [unfolded heap_ok_def], of m] l by (auto simp: cell_at_update split: if_splits)
  next
    fix k' m assume "CRef k' m \<in># rs + heap_values h"
    with notl [of k' m] kinds [of m] counts_okD(3) [OF assms(1) [unfolded heap_ok_def], of k' m]
    show "kind_at (h[l := None]) m = Some k'" by simp
  qed
qed


section \<open>What a value stands for\<close>

definition data_at :: "cells \<Rightarrow> nat \<Rightarrow> cell_data option" where
  "data_at h l = map_option snd (cell_at h l)"

fun string_at :: "cells \<Rightarrow> cval \<Rightarrow> string \<Rightarrow> bool" where
  "string_at h (CRef StringCell l) s \<longleftrightarrow> data_at h l = Some (CharVector s)"
| "string_at h v s \<longleftrightarrow> False"

function denotes :: "cells \<Rightarrow> cval \<Rightarrow> jvalue \<Rightarrow> bool"
  and denote_all :: "cells \<Rightarrow> cval list \<Rightarrow> jvalue list \<Rightarrow> bool"
  and denote_members :: "cells \<Rightarrow> (cval \<times> cval) list \<Rightarrow> members \<Rightarrow> bool" where
  "denotes h v JNull \<longleftrightarrow> v = CNull"
| "denotes h v (JBool b) \<longleftrightarrow> v = CBool b"
| "denotes h v (JInt32 i) \<longleftrightarrow> v = CInt32 i"
| "denotes h v (JInt64 i) \<longleftrightarrow> v = CInt64 i"
| "denotes h v (JDouble d) \<longleftrightarrow> v = CDouble d"
| "denotes h v (JString s) \<longleftrightarrow> string_at h v s"
| "denotes h v (JArray js) \<longleftrightarrow>
     (case v of
        CRef ArrayCell l \<Rightarrow> (case data_at h l of Some (ValueVector vs) \<Rightarrow> denote_all h vs js | _ \<Rightarrow> False)
      | _ \<Rightarrow> False)"
| "denotes h v (JObject kjs) \<longleftrightarrow>
     (case v of
        CRef ObjectCell l \<Rightarrow> (case data_at h l of Some (MemberVector ms) \<Rightarrow> denote_members h ms kjs | _ \<Rightarrow> False)
      | _ \<Rightarrow> False)"
| "denote_all h vs [] \<longleftrightarrow> vs = []"
| "denote_all h vs (j # js) \<longleftrightarrow> (case vs of v # vs \<Rightarrow> denotes h v j \<and> denote_all h vs js | [] \<Rightarrow> False)"
| "denote_members h ms [] \<longleftrightarrow> ms = []"
| "denote_members h ms ((key, j) # kjs) \<longleftrightarrow>
     (case ms of (k, v) # ms \<Rightarrow> string_at h k key \<and> denotes h v j \<and> denote_members h ms kjs | [] \<Rightarrow> False)"
  by pat_completeness auto
termination
  by (relation "measure (\<lambda>x. case x of Inl (h, v, j) \<Rightarrow> size j | Inr (Inl (h, vs, js)) \<Rightarrow> size_list size js
      | Inr (Inr (h, ms, kjs)) \<Rightarrow> size_list (size_prod (\<lambda>_. 0) size) kjs)") auto


text \<open>
  It is what the cells hold that matters, not how often they are referenced, and only of those that
  are reached: with a set of cells that nothing outside of it refers to, anything may happen.
\<close>

lemma string_transfer:
  assumes "\<And>l. l \<notin> L \<Longrightarrow> data_at h' l = data_at h l" "string_at h v s" "\<And>k l. v = CRef k l \<Longrightarrow> l \<notin> L"
  shows "string_at h' v s"
  using assms by (cases "(h, v, s)" rule: string_at.cases) auto

lemma denotes_transfer_aux:
  assumes data: "\<And>l. l \<notin> L \<Longrightarrow> data_at h' l = data_at h l"
    and L: "\<And>l c k m. l \<notin> L \<Longrightarrow> data_at h l = Some c \<Longrightarrow> CRef k m \<in> set (held_values c) \<Longrightarrow> m \<notin> L"
  shows "h0 = h \<longrightarrow> denotes h0 v j \<longrightarrow> (\<forall>k l. v = CRef k l \<longrightarrow> l \<notin> L) \<longrightarrow> denotes h' v j"
    and "h0 = h \<longrightarrow> denote_all h0 vs js \<longrightarrow> (\<forall>k l. CRef k l \<in> set vs \<longrightarrow> l \<notin> L) \<longrightarrow> denote_all h' vs js"
    and "h0 = h \<longrightarrow> denote_members h0 ms kjs \<longrightarrow> (\<forall>k l. CRef k l \<in> set (held_values (MemberVector ms)) \<longrightarrow> l \<notin> L) \<longrightarrow>
      denote_members h' ms kjs"
proof (induction h0 v j and h0 vs js and h0 ms kjs rule: denotes_denote_all_denote_members.induct)
  case (6 h0 v s)
  then show ?case using string_transfer [OF data] by simp
next
  case (7 h0 v js)
  show ?case
  proof (intro impI)
    assume h0: "h0 = h" and d: "denotes h0 v (JArray js)" and v: "\<forall>k l. v = CRef k l \<longrightarrow> l \<notin> L"
    then obtain l vs where l: "v = CRef ArrayCell l" "data_at h l = Some (ValueVector vs)" "denote_all h vs js"
      by (auto split: cval.splits cell_kind.splits option.splits cell_data.splits)
    then have "l \<notin> L" using v by simp
    with 7 h0 l L [of l "ValueVector vs"] have "denote_all h' vs js" by auto
    then show "denotes h' v (JArray js)" using l data [OF \<open>l \<notin> L\<close>] by simp
  qed
next
  case (8 h0 v kjs)
  show ?case
  proof (intro impI)
    assume h0: "h0 = h" and d: "denotes h0 v (JObject kjs)" and v: "\<forall>k l. v = CRef k l \<longrightarrow> l \<notin> L"
    then obtain l ms where l: "v = CRef ObjectCell l" "data_at h l = Some (MemberVector ms)" "denote_members h ms kjs"
      by (auto split: cval.splits cell_kind.splits option.splits cell_data.splits)
    then have "l \<notin> L" using v by simp
    with 8 h0 l L [of l "MemberVector ms"] have "denote_members h' ms kjs" by auto
    then show "denotes h' v (JObject kjs)" using l data [OF \<open>l \<notin> L\<close>] by simp
  qed
next
  case (10 h0 vs j js)
  then show ?case by (cases vs) auto
next
  case (12 h0 ms key j kjs)
  then show ?case using string_transfer [OF data, where s = key] by (cases ms) auto
qed auto

lemma denotes_transfer:
  assumes "\<And>l. l \<notin> L \<Longrightarrow> data_at h' l = data_at h l"
    and "\<And>l c k m. l \<notin> L \<Longrightarrow> data_at h l = Some c \<Longrightarrow> CRef k m \<in> set (held_values c) \<Longrightarrow> m \<notin> L"
    and "denotes h v j" "\<And>k l. v = CRef k l \<Longrightarrow> l \<notin> L"
  shows "denotes h' v j"
  using denotes_transfer_aux(1) [of L h' h h v j] assms by blast

lemma cell_at_length: "cell_at h l = Some x \<Longrightarrow> l < length h"
  by (simp add: cell_at_Some)

lemma data_at_count:
  assumes "cell_at h l = Some (n, c)"
  shows "data_at (h[l := Some (m, c)]) k = data_at h k"
  using assms cell_at_length [OF assms] by (simp add: data_at_def cell_at_update)

lemma denotes_same_data: "(\<And>l. data_at h' l = data_at h l) \<Longrightarrow> denotes h v j \<Longrightarrow> denotes h' v j"
  using denotes_transfer [of "{}"] by blast

lemma held_in_heap:
  assumes "data_at h l = Some c" "x \<in> set (held_values c)"
  shows "x \<in># heap_values h"
proof -
  obtain n where l: "l < length h" "h ! l = Some (n, c)" using assms(1) by (auto simp: data_at_def cell_at_Some)
  with heap_values_update [OF l(1), of None] have "heap_values (h[l := None]) + mset (held_values c) = heap_values h"
    by (simp add: slot_values_def)
  then show ?thesis using assms(2) by (metis set_mset_mset union_iff)
qed

text \<open>A cell nothing refers to can go.\<close>

lemma denotes_free:
  assumes "references l (rs + heap_values h) = 0" "cell_at h l = Some x" "v \<in># rs + heap_values h" "denotes h v j"
  shows "denotes (h[l := None]) v j"
proof (rule denotes_transfer [of "{l}", OF _ _ assms(4)])
  have none: "\<not> points_to l w" if "w \<in># rs + heap_values h" for w using assms(1) that references_none by blast
  show "m \<notin> {l}" if "data_at h l' = Some c" "CRef k m \<in> set (held_values c)" for l' c k m
    using none [of "CRef k m"] held_in_heap [OF that] by auto
  show "l' \<notin> {l}" if "v = CRef k l'" for k l' using none [of v] assms(3) that by auto
qed (use assms(2) in \<open>auto simp: data_at_def cell_at_update cell_at_Some\<close>)

section \<open>Destroying values\<close>

text \<open>
  Destroying values never fails an assert and never touches a deleted cell; it leaves the counts
  right for the values that remain, and what those stand for.
\<close>

lemma destroy_all_ok:
  "heap_ok (mset vs + rs) h \<Longrightarrow> \<exists>h'. destroy_all vs h = Done h' \<and> heap_ok rs h' \<and> heap_values h' \<subseteq># heap_values h \<and>
    (\<forall>v j. v \<in># rs + heap_values h' \<longrightarrow> denotes h v j \<longrightarrow> denotes h' v j)"
proof (induction vs h arbitrary: rs rule: destroy_all.induct)
  case (2 v vs h)
  show ?case
  proof (cases "\<exists>k l. v = CRef k l")
    case False
    then have plain: "\<And>k l. v \<noteq> CRef k l" by blast
    have "heap_ok (add_mset v (mset vs + rs)) h" using 2(8) by simp
    then have ok: "heap_ok (mset vs + rs) h" by (rule heap_ok_plain [OF plain, THEN iffD1])
    show ?thesis using plain ok 2(1-5) by (cases v) auto
  next
    case True
    then obtain k l where v: "v = CRef k l" by blast
    have ok: "heap_ok (add_mset (CRef k l) (mset vs + rs)) h" using 2(8) v by simp
    then have "kind_at h l = Some k" unfolding heap_ok_def by (rule counts_okD(3)) simp
    then obtain n c where l: "cell_at h l = Some (n, c)" by (auto simp: kind_at_def)
    have n: "0 < n" using ok l unfolding heap_ok_def by (auto dest: counts_okD(2))
    show ?thesis
    proof (cases "n = 1")
      case True
      have free: "heap_ok (mset (held_values c) + (mset vs + rs)) (h[l := None])"
        "references l ((mset vs + rs) + heap_values h) = 0"
        using heap_ok_free [OF ok] l True by simp_all
      have "heap_ok (mset (held_values c @ vs) + rs) (h[l := None])" using free(1) by (simp add: add.assoc)
      from 2(6) [OF v l refl n _ this] True obtain h' where h': "destroy_all (held_values c @ vs) (h[l := None]) = Done h'"
        "heap_ok rs h'" "heap_values h' \<subseteq># heap_values (h[l := None])"
        "\<forall>v j. v \<in># rs + heap_values h' \<longrightarrow> denotes (h[l := None]) v j \<longrightarrow> denotes h' v j" by auto
      have sub: "heap_values (h[l := None]) \<subseteq># heap_values h" using heap_values_free [OF l] .
      then have keep: "denotes h w j \<Longrightarrow> denotes (h[l := None]) w j" if "w \<in># rs + heap_values h'" for w j
        using denotes_free [OF free(2) l, of w j] that h'(3) by (auto dest: mset_subset_eqD)
      have "destroy_all (v # vs) h = Done h'" using h'(1) v l n True by simp
      then show ?thesis using h' keep subset_mset.order_trans [OF h'(3) sub] by blast
    next
      case False
      let ?h = "h[l := Some (n - 1, c)]"
      have "heap_ok (mset vs + rs) ?h" using heap_ok_decr [OF ok l False] .
      from 2(7) [OF v l refl n _ this] False obtain h' where h': "destroy_all vs ?h = Done h'"
        "heap_ok rs h'" "heap_values h' \<subseteq># heap_values ?h"
        "\<forall>v j. v \<in># rs + heap_values h' \<longrightarrow> denotes ?h v j \<longrightarrow> denotes h' v j" by auto
      have "heap_values ?h = heap_values h"
        using heap_values_update [of l h "Some (n - 1, c)"] l by (auto simp: cell_at_Some slot_values_def)
      moreover have "denotes h v j \<Longrightarrow> denotes ?h v j" for v j
        by (rule denotes_same_data [OF data_at_count [OF l]])
      moreover have "destroy_all (v # vs) h = Done h'" using h'(1) v l n False by simp
      ultimately show ?thesis using h' by metis
    qed
  qed
qed simp

text \<open>Without cycles nothing is left when the program holds no value any more.\<close>

definition acyclic_cells :: "cells \<Rightarrow> bool" where
  "acyclic_cells h \<longleftrightarrow> (\<exists>r :: nat \<Rightarrow> nat. \<forall>l c k m. data_at h l = Some c \<longrightarrow> CRef k m \<in> set (held_values c) \<longrightarrow> r m < r l)"

lemma held_somewhere: "x \<in># heap_values h \<Longrightarrow> \<exists>l c. data_at h l = Some c \<and> x \<in> set (held_values c)"
proof (induction h rule: rev_induct)
  case (snoc y h)
  then show ?case
  proof (cases "x \<in># heap_values h")
    case True
    then obtain l c where "data_at h l = Some c" "x \<in> set (held_values c)" using snoc by blast
    then show ?thesis by (auto simp: data_at_def cell_at_def nth_append split: if_splits intro!: exI [of _ l] exI [of _ c])
  next
    case False
    then have "x \<in># slot_values y" using snoc by simp
    then show ?thesis
      by (auto simp: slot_values_def data_at_def cell_at_new split: option.splits intro!: exI [of _ "length h"])
  qed
qed (simp add: heap_values_def)

lemma no_leak:
  assumes ok: "heap_ok {#} h" and "acyclic_cells h"
  shows "cell_at h l = None"
proof (rule ccontr)
  assume "cell_at h l \<noteq> None"
  obtain r :: "nat \<Rightarrow> nat" where r: "data_at h l = Some c \<Longrightarrow> CRef k m \<in> set (held_values c) \<Longrightarrow> r m < r l" for l c k m
    using assms(2) unfolding acyclic_cells_def by blast
  let ?S = "{l. cell_at h l \<noteq> None}"
  have "?S \<subseteq> {..<length h}" by (auto simp: cell_at_Some)
  then have "finite (r ` ?S)" using finite_subset by blast
  moreover have "r ` ?S \<noteq> {}" using \<open>cell_at h l \<noteq> None\<close> by blast
  ultimately have "Max (r ` ?S) \<in> r ` ?S" by (rule Max_in)
  then obtain m where m: "Max (r ` ?S) = r m" "m \<in> ?S" by (rule imageE)
  from m(2) obtain n c where c: "cell_at h m = Some (n, c)" by auto
  note okh = ok [unfolded heap_ok_def]
  have "0 < n" using counts_okD(2) [OF okh c] by simp
  then have "references m (heap_values h) \<noteq> 0" using counts_okD(1) [OF okh, of m] c by (simp add: count_of_def)
  then have "\<exists>v\<in>#heap_values h. points_to m v" by (simp add: references_none)
  then obtain v where v: "v \<in># heap_values h" "points_to m v" by blast
  then obtain k where k: "v = CRef k m" by (auto simp: points_to_def)
  obtain l' c' where l': "data_at h l' = Some c'" "v \<in> set (held_values c')" using held_somewhere [OF v(1)] by blast
  then have "r m < r l'" using r k by blast
  moreover have "l' \<in> ?S" using l'(1) by (auto simp: data_at_def)
  then have "r l' \<le> r m" using \<open>finite (r ` ?S)\<close> m(1) [symmetric] by simp
  ultimately show False by simp
qed

section \<open>The operations of a value\<close>

text \<open>
  A value object is a variable of the program (None once its destructor has run) or lies in the
  vector of a cell: an element of an array, the value of a member.
\<close>

datatype slot = Variable nat | Inside nat nat

record jstate =
  js_vars :: "cval option list"
  js_cells :: cells

fun value_at :: "cell_data \<Rightarrow> nat \<Rightarrow> cval option" where
  "value_at (CharVector s) i = None"
| "value_at (ValueVector vs) i = (if i < length vs then Some (vs ! i) else None)"
| "value_at (MemberVector ms) i = (if i < length ms then Some (snd (ms ! i)) else None)"

fun put_value :: "cell_data \<Rightarrow> nat \<Rightarrow> cval \<Rightarrow> cell_data" where
  "put_value (CharVector s) i v = CharVector s"
| "put_value (ValueVector vs) i v = ValueVector (vs[i := v])"
| "put_value (MemberVector ms) i v = MemberVector (ms[i := (fst (ms ! i), v)])"

definition read_slot :: "slot \<Rightarrow> jstate \<Rightarrow> (fault, cval) outcome" where
  "read_slot s st =
     (case (case s of
              Variable i \<Rightarrow> (if i < length (js_vars st) then js_vars st ! i else None)
            | Inside l i \<Rightarrow> Option.bind (data_at (js_cells st) l) (\<lambda>c. value_at c i)) of
        None \<Rightarrow> Throw Undefined
      | Some v \<Rightarrow> Done v)"

definition put_cell :: "nat \<Rightarrow> nat \<Rightarrow> cval \<Rightarrow> cells \<Rightarrow> cells" where
  "put_cell l i v h = (case cell_at h l of None \<Rightarrow> h | Some (n, c) \<Rightarrow> h[l := Some (n, put_value c i v)])"

fun put_slot :: "slot \<Rightarrow> cval \<Rightarrow> jstate \<Rightarrow> jstate" where
  "put_slot (Variable i) v st = st\<lparr>js_vars := (js_vars st)[i := Some v]\<rparr>"
| "put_slot (Inside l i) v st = st\<lparr>js_cells := put_cell l i v (js_cells st)\<rparr>"

text \<open>The members \<open>type_\<close> and the union of the object are set, whatever they were.\<close>

definition write_slot :: "slot \<Rightarrow> cval \<Rightarrow> jstate \<Rightarrow> (fault, jstate) outcome" where
  "write_slot s v st = obind (read_slot s st) (\<lambda>_. Done (put_slot s v st))"

datatype value_literal = VNull | VBool bool | VInt32 i32 | VInt64 i64 | VDouble double | VString string | VArray | VObject

fun construct :: "value_literal \<Rightarrow> cells \<Rightarrow> cval \<times> cells" where
  "construct VNull h = (CNull, h)"
| "construct (VBool b) h = (CBool b, h)"
| "construct (VInt32 i) h = (CInt32 i, h)"
| "construct (VInt64 i) h = (CInt64 i, h)"
| "construct (VDouble d) h = (CDouble d, h)"
| "construct (VString s) h = new_cell (CharVector s) h"
| "construct VArray h = new_cell (ValueVector []) h"
| "construct VObject h = new_cell (MemberVector []) h"

fun share :: "cval \<Rightarrow> cells \<Rightarrow> (fault, cells) outcome" where
  "share (CRef k l) h = obind (incrAndGet l h) (\<lambda>(n, h'). Done h')"
| "share v h = Done h"

text \<open>\<open>setNull\<close> to \<open>setObject\<close>: the destructor, then a constructor in place.\<close>

definition set_value :: "slot \<Rightarrow> value_literal \<Rightarrow> jstate \<Rightarrow> (fault, jstate) outcome" where
  "set_value s lit st =
     obind (read_slot s st) (\<lambda>v.
     obind (destroy v (js_cells st)) (\<lambda>h.
     case construct lit h of (w, h') \<Rightarrow> write_slot s w (st\<lparr>js_cells := h'\<rparr>)))"

definition copy_assign :: "slot \<Rightarrow> slot \<Rightarrow> jstate \<Rightarrow> (fault, jstate) outcome" where
  "copy_assign s r st =
     require (s \<noteq> r)
       (obind (read_slot s st) (\<lambda>v.
        obind (destroy v (js_cells st)) (\<lambda>h.
        obind (read_slot r (st\<lparr>js_cells := h\<rparr>)) (\<lambda>w.
        obind (share w h) (\<lambda>h'.
        write_slot s w (st\<lparr>js_cells := h'\<rparr>))))))"

definition move_assign :: "slot \<Rightarrow> slot \<Rightarrow> jstate \<Rightarrow> (fault, jstate) outcome" where
  "move_assign s r st =
     require (s \<noteq> r)
       (obind (read_slot s st) (\<lambda>v.
        obind (destroy v (js_cells st)) (\<lambda>h.
        obind (read_slot r (st\<lparr>js_cells := h\<rparr>)) (\<lambda>w.
        obind (write_slot s w (st\<lparr>js_cells := h\<rparr>)) (write_slot r CNull)))))"

text \<open>
  What a constructor of \<open>Value\<close> gets: another value to share or to take over, or the data of a new
  one. The result is the value constructed.
\<close>

datatype argument = ACopy slot | AMove slot | ALiteral value_literal

definition move_from :: "slot \<Rightarrow> jstate \<Rightarrow> (fault, cval \<times> jstate) outcome" where
  "move_from r st = obind (read_slot r st) (\<lambda>w. obind (write_slot r CNull st) (\<lambda>st'. Done (w, st')))"

definition copy_from :: "slot \<Rightarrow> jstate \<Rightarrow> (fault, cval \<times> jstate) outcome" where
  "copy_from r st = obind (read_slot r st) (\<lambda>w. obind (share w (js_cells st)) (\<lambda>h. Done (w, st\<lparr>js_cells := h\<rparr>)))"

fun constructed :: "argument \<Rightarrow> jstate \<Rightarrow> (fault, cval \<times> jstate) outcome" where
  "constructed (ACopy r) st = copy_from r st"
| "constructed (AMove r) st = move_from r st"
| "constructed (ALiteral lit) st = (case construct lit (js_cells st) of (w, h) \<Rightarrow> Done (w, st\<lparr>js_cells := h\<rparr>))"

definition new_variable :: "argument \<Rightarrow> jstate \<Rightarrow> (fault, jstate) outcome" where
  "new_variable a st = obind (constructed a st) (\<lambda>(w, st'). Done (st'\<lparr>js_vars := js_vars st' @ [Some w]\<rparr>))"

definition drop_variable :: "nat \<Rightarrow> jstate \<Rightarrow> (fault, jstate) outcome" where
  "drop_variable i st =
     obind (read_slot (Variable i) st) (\<lambda>v.
     obind (destroy v (js_cells st)) (\<lambda>h. Done (st\<lparr>js_vars := (js_vars st)[i := None], js_cells := h\<rparr>)))"

text \<open>
  \<open>emplace_back\<close> on the vector of an array: \<open>addValue\<close>. When the vector grows its elements are copied
  and the old ones destroyed, which leaves the counts as they were. An array moved into itself has no
  \<open>a_\<close> when \<open>back\<close> is called on it.
\<close>

definition add_value :: "slot \<Rightarrow> argument \<Rightarrow> jstate \<Rightarrow> (fault, jstate) outcome" where
  "add_value s a st =
     obind (read_slot s st) (\<lambda>v.
     case v of
       CRef ArrayCell l \<Rightarrow>
         obind (constructed a st) (\<lambda>(w, st').
         case cell_at (js_cells st') l of
           Some (n, ValueVector vs) \<Rightarrow>
             (if a = AMove s then Throw Undefined
              else Done (st'\<lparr>js_cells := (js_cells st')[l := Some (n, ValueVector (vs @ [w]))]\<rparr>))
         | _ \<Rightarrow> Throw Undefined)
     | _ \<Rightarrow> Abort)"

fun key_text :: "cells \<Rightarrow> cval \<Rightarrow> (fault, string) outcome" where
  "key_text h (CRef StringCell l) =
     (case data_at h l of Some (CharVector s) \<Rightarrow> Done s | _ \<Rightarrow> Throw Undefined)"
| "key_text h v = Abort"

fun find_key :: "cells \<Rightarrow> (cval \<times> cval) list \<Rightarrow> string \<Rightarrow> (fault, nat option) outcome" where
  "find_key h [] key = Done None"
| "find_key h ((k, v) # ms) key =
     obind (key_text h k) (\<lambda>s.
       if s = key then Done (Some 0) else obind (find_key h ms key) (\<lambda>r. Done (map_option Suc r)))"

definition members_at :: "cells \<Rightarrow> cval \<Rightarrow> (fault, nat \<times> (cval \<times> cval) list) outcome" where
  "members_at h v =
     (case v of
        CRef ObjectCell l \<Rightarrow> (case data_at h l of Some (MemberVector ms) \<Rightarrow> Done (l, ms) | _ \<Rightarrow> Throw Undefined)
      | _ \<Rightarrow> Abort)"

text \<open>
  \<open>addMember\<close> with the key and the value to be taken over, and \<open>operator[]\<close>. An object moved into itself
  has no \<open>o_\<close> when \<open>back\<close> is called on it.
\<close>

definition push_member :: "slot \<Rightarrow> slot \<Rightarrow> slot \<Rightarrow> jstate \<Rightarrow> (fault, jstate) outcome" where
  "push_member s k v st =
     obind (read_slot s st) (\<lambda>obj.
     obind (members_at (js_cells st) obj) (\<lambda>(l, ms).
     obind (read_slot k st) (\<lambda>key.
     obind (key_text (js_cells st) key) (\<lambda>text.
     obind (find_key (js_cells st) ms text) (\<lambda>found.
     require (found = None)
       (obind (move_from k st) (\<lambda>(kw, st1).
        obind (move_from v st1) (\<lambda>(vw, st2).
        case cell_at (js_cells st2) l of
          Some (n, MemberVector ms') \<Rightarrow>
            (if v = s then Throw Undefined
             else Done (st2\<lparr>js_cells := (js_cells st2)[l := Some (n, MemberVector (ms' @ [(kw, vw)]))]\<rparr>))
        | _ \<Rightarrow> Throw Undefined))))))))"

definition slot_index :: "slot \<Rightarrow> nat \<Rightarrow> jstate \<Rightarrow> (fault, slot) outcome" where
  "slot_index s i st =
     obind (read_slot s st) (\<lambda>v.
     case v of
       CRef ArrayCell l \<Rightarrow>
         (case data_at (js_cells st) l of
            Some (ValueVector vs) \<Rightarrow> (if i < length vs then Done (Inside l i) else Throw Undefined)
          | _ \<Rightarrow> Throw Undefined)
     | _ \<Rightarrow> Abort)"

definition slot_key :: "slot \<Rightarrow> string \<Rightarrow> jstate \<Rightarrow> (fault, slot) outcome" where
  "slot_key s key st =
     obind (read_slot s st) (\<lambda>v.
     obind (members_at (js_cells st) v) (\<lambda>(l, ms).
     obind (find_key (js_cells st) ms key) (\<lambda>found.
     case found of Some i \<Rightarrow> Done (Inside l i) | None \<Rightarrow> Abort)))"

datatype operation =
    Construct argument
  | SetTo slot value_literal
  | CopyAssign slot slot
  | MoveAssign slot slot
  | AddValue slot argument
  | AddMember slot slot slot
  | Destruct nat

fun value_step :: "operation \<Rightarrow> jstate \<Rightarrow> (fault, jstate) outcome" where
  "value_step (Construct a) st = new_variable a st"
| "value_step (SetTo s lit) st = set_value s lit st"
| "value_step (CopyAssign s r) st = copy_assign s r st"
| "value_step (MoveAssign s r) st = move_assign s r st"
| "value_step (AddValue s a) st = add_value s a st"
| "value_step (AddMember s k v) st = push_member s k v st"
| "value_step (Destruct i) st = drop_variable i st"

fun value_run :: "operation list \<Rightarrow> jstate \<Rightarrow> (fault, jstate) outcome" where
  "value_run [] st = Done st"
| "value_run (p # ps) st = obind (value_step p st) (value_run ps)"

end
