(* ===== verification/JsonShare.thy ===== *)
theory JsonShare
  imports JsonHeap
begin

text \<open>
  What the operations of \<open>jackson/Value\<close> do to the counts of the cells: every sequence of
  constructions, assignments, additions and destructions that the program gets through leaves each
  cell with a count that is the number of the values referring to it. Copies outlive what they were
  copied from, nothing is left when the last variable goes, unless a value has been put into
  itself, and assigning a value to the variable that holds its array reads a deleted cell.
\<close>

definition var_slot :: "cval option \<Rightarrow> cval multiset" where
  "var_slot x = (case x of None \<Rightarrow> {#} | Some v \<Rightarrow> {#v#})"

definition var_values :: "cval option list \<Rightarrow> cval multiset" where
  "var_values vs = sum_list (map var_slot vs)"

text \<open>The counts are right, with the values in \<open>M\<close> on their way between two places.\<close>

definition counted :: "cval multiset \<Rightarrow> jstate \<Rightarrow> bool" where
  "counted M st \<longleftrightarrow> heap_ok (M + var_values (js_vars st)) (js_cells st)"

definition values_ok :: "jstate \<Rightarrow> bool" where
  "values_ok st \<longleftrightarrow> counted {#} st"

lemma var_values_update:
  "i < length vs \<Longrightarrow> var_values (vs[i := x]) + var_slot (vs ! i) = var_values vs + var_slot x"
  unfolding var_values_def by (rule sum_update)

lemma counted_plain: "(\<And>k l. v \<noteq> CRef k l) \<Longrightarrow> counted (add_mset v M) st \<longleftrightarrow> counted M st"
  using heap_ok_plain by (simp add: counted_def)

lemma counted_null [simp]: "counted (add_mset CNull M) st \<longleftrightarrow> counted M st"
  by (rule counted_plain) simp

section \<open>Reading and writing\<close>

lemma value_at_put:
  assumes "value_at c i = Some v"
  shows "add_mset v (mset (held_values (put_value c i w))) = add_mset w (mset (held_values c))"
    "kind_of (put_value c i w) = kind_of c" "keys_ok c \<Longrightarrow> keys_ok (put_value c i w)"
proof -
  have two: "mset (concat (map (\<lambda>(k, v). [k, v]) ms)) = sum_list (map (\<lambda>(k, v). {#k, v#}) ms)" for ms :: "(cval \<times> cval) list"
    by (induction ms) auto
  show "add_mset v (mset (held_values (put_value c i w))) = add_mset w (mset (held_values c))"
  proof (cases c)
    case (ValueVector vs)
    with assms have i: "i < length vs" "vs ! i = v" by (auto split: if_splits)
    have "add_mset v (mset (vs[i := w])) = add_mset w (mset vs)"
      using i mset_update [OF i(1), of w] nth_mem_mset [OF i(1)] by (simp add: add_mset_commute)
    then show ?thesis using ValueVector by simp
  next
    case (MemberVector ms)
    with assms have i: "i < length ms" "snd (ms ! i) = v" by (auto split: if_splits)
    obtain k where k: "ms ! i = (k, v)" using i(2) by (cases "ms ! i") auto
    have "sum_list (map (\<lambda>(k, v). {#k, v#}) (ms[i := (k, w)])) + {#k, v#} =
        sum_list (map (\<lambda>(k, v). {#k, v#}) ms) + {#k, w#}"
      using sum_update [OF i(1), of "\<lambda>(k, v). {#k, v#}" "(k, w)"] k by simp
    then have "{#k#} + add_mset v (sum_list (map (\<lambda>(k, v). {#k, v#}) (ms[i := (k, w)]))) =
        {#k#} + add_mset w (sum_list (map (\<lambda>(k, v). {#k, v#}) ms))" by simp
    then show ?thesis using MemberVector k by (simp add: two add_mset_commute)
  qed (use assms in simp)
  show "kind_of (put_value c i w) = kind_of c" by (cases c) simp_all
  show "keys_ok (put_value c i w)" if "keys_ok c"
  proof (cases c)
    case (MemberVector ms)
    with assms have i: "i < length ms" by (simp split: if_splits)
    have keys: "\<exists>l. fst x = CRef StringCell l" if "x \<in> set ms" for x
      using \<open>keys_ok c\<close> MemberVector that by (cases x) auto
    then have "\<exists>l. fst x = CRef StringCell l" if "x \<in> set (ms[i := (fst (ms ! i), w)])" for x
      using that set_update_subset_insert [of ms i] nth_mem [OF i] by fastforce
    then show ?thesis using MemberVector by fastforce
  qed simp_all
qed

lemma read_slot_Variable:
  "read_slot (Variable i) st = Done v \<longleftrightarrow> i < length (js_vars st) \<and> js_vars st ! i = Some v"
  by (simp add: read_slot_def split: option.split)

lemma read_slot_Inside:
  "read_slot (Inside l i) st = Done v \<longleftrightarrow> (\<exists>n c. cell_at (js_cells st) l = Some (n, c) \<and> value_at c i = Some v)"
  by (auto simp: read_slot_def data_at_def split: option.split bind_splits)

lemma value_at_held: "value_at c i = Some v \<Longrightarrow> v \<in> set (held_values c)"
proof (cases c)
  case (MemberVector ms)
  assume "value_at c i = Some v"
  with MemberVector have i: "i < length ms" "snd (ms ! i) = v" by (auto split: if_splits)
  then have "(fst (ms ! i), v) \<in> set ms" using nth_mem [OF i(1)] by (metis prod.collapse)
  then show ?thesis using MemberVector by force
qed (auto split: if_splits)

lemma read_slot_in:
  assumes "read_slot s st = Done v"
  shows "v \<in># var_values (js_vars st) + heap_values (js_cells st)"
proof (cases s)
  case (Variable i)
  with assms have i: "i < length (js_vars st)" "js_vars st ! i = Some v" by (simp_all add: read_slot_Variable)
  have "var_values ((js_vars st)[i := None]) + {#v#} = var_values (js_vars st)"
    using var_values_update [OF i(1), of None] i(2) by (simp add: var_slot_def)
  then show ?thesis by (metis union_iff multi_member_last)
next
  case (Inside l i)
  with assms obtain n c where "cell_at (js_cells st) l = Some (n, c)" "value_at c i = Some v" by (auto simp: read_slot_Inside)
  then have "v \<in># heap_values (js_cells st)" using held_in_heap value_at_held by (fastforce simp: data_at_def)
  then show ?thesis by simp
qed

lemma put_counted:
  assumes "counted (add_mset w M) st" "read_slot s st = Done v"
  shows "counted (add_mset v M) (put_slot s w st)"
proof (cases s)
  case (Variable i)
  with assms have i: "i < length (js_vars st)" "js_vars st ! i = Some v" by (simp_all add: read_slot_Variable)
  have "add_mset v (var_values ((js_vars st)[i := Some w])) = add_mset w (var_values (js_vars st))"
    using var_values_update [OF i(1), of "Some w"] i(2) by (simp add: var_slot_def)
  from arg_cong [OF this, of "(+) M"]
  have eq: "add_mset v (M + var_values ((js_vars st)[i := Some w])) = add_mset w (M + var_values (js_vars st))" by simp
  show ?thesis using assms(1) Variable by (simp add: counted_def eq)
next
  case (Inside l i)
  with assms obtain n c where c: "cell_at (js_cells st) l = Some (n, c)" "value_at c i = Some v" by (auto simp: read_slot_Inside)
  have "keys_ok c" using assms(1) c(1) unfolding counted_def heap_ok_def by (auto dest: counts_okD(2))
  then have "heap_ok (add_mset v M + var_values (js_vars st)) ((js_cells st)[l := Some (n, put_value c i w)])"
    using heap_ok_move [OF assms(1) [unfolded counted_def] c(1) value_at_put(2,3) [OF c(2)],
        of "add_mset v M + var_values (js_vars st)" w] value_at_put(1) [OF c(2), of w] by simp
  then show ?thesis using Inside c(1) by (simp add: counted_def put_cell_def)
qed

lemma write_counted:
  assumes "counted (add_mset w M) st" "read_slot s st = Done v"
  shows "\<exists>st'. write_slot s w st = Done st' \<and> counted (add_mset v M) st'"
  using put_counted [OF assms] assms(2) by (simp add: write_slot_def)

section \<open>Sharing, making, destroying\<close>

lemma share_counted:
  assumes "counted M st" "v \<in># M + var_values (js_vars st) + heap_values (js_cells st)"
  shows "\<exists>h. share v (js_cells st) = Done h \<and> counted (add_mset v M) (st\<lparr>js_cells := h\<rparr>) \<and>
    (\<forall>l. data_at h l = data_at (js_cells st) l)"
proof (cases "\<exists>k l. v = CRef k l")
  case False
  then show ?thesis using assms(1) counted_plain [of v M st] by (cases v) simp_all
next
  case True
  then obtain k l where v: "v = CRef k l" by blast
  note ok = assms(1) [unfolded counted_def]
  have "kind_at (js_cells st) l = Some k" using assms(2) v counts_okD(3) [OF ok [unfolded heap_ok_def]] by simp
  then obtain n c where l: "cell_at (js_cells st) l = Some (n, c)" "kind_of c = k" by (auto simp: kind_at_def)
  then have "0 < n" using counts_okD(2) [OF ok [unfolded heap_ok_def]] by blast
  then show ?thesis
    using v l heap_ok_incr [OF ok l(1)] data_at_count [OF l(1)] by (simp add: incrAndGet_def counted_def)
qed

lemma heap_ok_new:
  assumes "heap_ok rs h" "held_values c = []" "keys_ok c"
  shows "heap_ok (add_mset (CRef (kind_of c) (length h)) rs) (h @ [Some (1, c)])"
proof -
  note ok = counts_okD [OF assms(1) [unfolded heap_ok_def]]
  have none: "cell_at h (length h) = None" by (simp add: cell_at_def)
  have eq: "heap_values (h @ [Some (1, c)]) = heap_values h" using assms(2) by (simp add: slot_values_def)
  show ?thesis
    unfolding heap_ok_def eq counts_ok_def
  proof (intro conjI allI impI)
    show "int (references l (add_mset (CRef (kind_of c) (length h)) rs + heap_values h)) = count_of (h @ [Some (1, c)]) l" for l
      using ok(1) [of l] none by (auto simp: count_of_def cell_at_new)
    show "0 < n" "keys_ok d" if "cell_at (h @ [Some (1, c)]) l = Some (n, d)" for l n d
      using that ok(2) [of l n d] assms(3) by (auto simp: cell_at_new split: if_splits)
    show "kind_at (h @ [Some (1, c)]) l = Some k"
      if "CRef k l \<in># add_mset (CRef (kind_of c) (length h)) rs + heap_values h" for k l
    proof (cases "l = length h")
      case True
      then have "CRef k l \<notin># rs + heap_values h" using ok(3) [of k l] none by (auto simp: kind_at_def)
      then show ?thesis using that True by (auto simp: kind_at_def cell_at_new)
    next
      case False
      then show ?thesis using that ok(3) [of k l] by (simp add: kind_at_def cell_at_new)
    qed
  qed
qed

lemma construct_counted:
  assumes "counted M st" "construct lit (js_cells st) = (w, h)"
  shows "counted (add_mset w M) (st\<lparr>js_cells := h\<rparr>)"
proof -
  note new = heap_ok_new [OF assms(1) [unfolded counted_def]]
  show ?thesis
    using assms counted_plain [of w M st] new [of "CharVector s" for s] new [of "ValueVector []"] new [of "MemberVector []"]
    by (cases lit) (auto simp: counted_def new_cell_def)
qed

lemma destroy_counted:
  assumes "counted (add_mset v M) st"
  shows "\<exists>h. destroy v (js_cells st) = Done h \<and> counted M (st\<lparr>js_cells := h\<rparr>) \<and>
    (\<forall>w j. w \<in># M + var_values (js_vars st) + heap_values h \<longrightarrow> denotes (js_cells st) w j \<longrightarrow> denotes h w j)"
  using destroy_all_ok [of "[v]" "M + var_values (js_vars st)" "js_cells st"] assms
  by (auto simp: counted_def destroy_def)

lemma append_counted:
  assumes "counted (add_mset w M) st" "cell_at (js_cells st) l = Some (n, ValueVector vs)"
  shows "counted M (st\<lparr>js_cells := (js_cells st)[l := Some (n, ValueVector (vs @ [w]))]\<rparr>)"
  using heap_ok_move [OF assms(1) [unfolded counted_def] assms(2), of "ValueVector (vs @ [w])" "M + var_values (js_vars st)"]
  by (simp add: counted_def)

lemma append_member_counted:
  assumes "counted (add_mset k (add_mset w M)) st" "cell_at (js_cells st) l = Some (n, MemberVector ms)"
    and "k = CRef StringCell m"
  shows "counted M (st\<lparr>js_cells := (js_cells st)[l := Some (n, MemberVector (ms @ [(k, w)]))]\<rparr>)"
proof -
  have "keys_ok (MemberVector ms)"
    using counts_okD(2) [OF assms(1) [unfolded counted_def heap_ok_def] assms(2)] by simp
  then show ?thesis
    using heap_ok_move [OF assms(1) [unfolded counted_def] assms(2), of "MemberVector (ms @ [(k, w)])" "M + var_values (js_vars st)"]
      assms(3) by (simp add: counted_def)
qed

section \<open>A destructor leaves the bits of its object\<close>

text \<open>
  The assignments and the setters destroy a value while the object still shows the old reference. As
  long as the cell that the object lies in survives, that is as if the object had been null.
\<close>

fun nulled :: "slot \<Rightarrow> cells \<Rightarrow> cells" where
  "nulled (Variable i) h = h"
| "nulled (Inside l i) h = put_cell l i CNull h"

fun slot_alive :: "slot \<Rightarrow> cells \<Rightarrow> bool" where
  "slot_alive (Variable i) h \<longleftrightarrow> True"
| "slot_alive (Inside l i) h \<longleftrightarrow> cell_at h l \<noteq> None"

lemma put_slot_nulled: "put_slot s CNull (st\<lparr>js_cells := h\<rparr>) = (put_slot s CNull st)\<lparr>js_cells := nulled s h\<rparr>"
  by (cases s) simp_all

lemma js_cells_put: "js_cells (put_slot s CNull st) = nulled s (js_cells st)"
  by (cases s) simp_all

lemma cell_at_put: "cell_at (put_cell l i w h) m =
    (if m = l then map_option (\<lambda>(n, c). (n, put_value c i w)) (cell_at h l) else cell_at h m)"
  by (auto simp: put_cell_def cell_at_update cell_at_length split: option.split)

lemma length_put_cell [simp]: "length (put_cell l i w h) = length h"
  by (simp add: put_cell_def split: option.split)

lemma cells_eqI:
  assumes "length h = length h'" "\<And>m. cell_at h m = cell_at h' m"
  shows "h = h'"
proof (rule nth_equalityI [OF assms(1)])
  show "h ! i = h' ! i" if "i < length h" for i using assms(2) [of i] assms(1) that by (simp add: cell_at_def)
qed

lemma put_cell_update:
  "m < length h \<Longrightarrow> m \<noteq> l \<Longrightarrow> (put_cell l i w h)[m := x] = put_cell l i w (h[m := x])"
  by (rule cells_eqI) (auto simp: cell_at_put cell_at_update)

lemma put_cell_update_same:
  "cell_at h l = Some (n, c) \<Longrightarrow> (put_cell l i w h)[l := Some (m, put_value c i w)] = put_cell l i w (h[l := Some (m, c)])"
  by (rule cells_eqI) (auto simp: cell_at_put cell_at_update cell_at_length)

lemma destroy_all_data: "destroy_all vs h = Done h' \<Longrightarrow> data_at h' l = Some c \<Longrightarrow> data_at h l = Some c"
proof (induction vs h rule: destroy_all.induct)
  case (2 v vs h)
  show ?case
  proof (cases "\<exists>k m. v = CRef k m")
    case False
    then show ?thesis using 2 by (cases v) auto
  next
    case True
    then obtain k m where v: "v = CRef k m" by blast
    with 2(8) obtain n d where m: "cell_at h m = Some (n, d)" "n > 0" by (auto split: option.splits if_splits)
    show ?thesis
    proof (cases "n = 1")
      case True
      then have "data_at (h[m := None]) l = Some c" using 2(6) [OF v m(1) refl m(2)] 2(8,9) v m by simp
      then show ?thesis using cell_at_length [OF m(1)] by (simp add: data_at_def cell_at_update split: if_splits)
    next
      case False
      then have "data_at (h[m := Some (n - 1, d)]) l = Some c" using 2(7) [OF v m(1) refl m(2)] 2(8,9) v m by simp
      then show ?thesis using data_at_count [OF m(1)] by simp
    qed
  qed
qed simp

lemma destroy_all_alive: "destroy_all vs h = Done h' \<Longrightarrow> cell_at h' l \<noteq> None \<Longrightarrow> cell_at h l \<noteq> None"
  using destroy_all_data [of vs h h' l] by (auto simp: data_at_def)

lemma destroy_all_put:
  "destroy_all vs h = Done h' \<Longrightarrow> cell_at h' l \<noteq> None \<Longrightarrow> destroy_all vs (put_cell l i w h) = Done (put_cell l i w h')"
proof (induction vs h rule: destroy_all.induct)
  case (2 v vs h)
  show ?case
  proof (cases "\<exists>k m. v = CRef k m")
    case False
    then show ?thesis using 2 by (cases v) auto
  next
    case True
    then obtain k m where v: "v = CRef k m" by blast
    with 2(8) obtain n d where m: "cell_at h m = Some (n, d)" "n > 0" by (auto split: option.splits if_splits)
    note len = cell_at_length [OF m(1)]
    show ?thesis
    proof (cases "n = 1")
      case True
      then have done': "destroy_all (held_values d @ vs) (h[m := None]) = Done h'" using 2(8) v m by simp
      have ml: "m \<noteq> l"
        using destroy_all_alive [OF done' 2(9)] len by (auto simp: cell_at_update)
      have "destroy_all (held_values d @ vs) (put_cell l i w (h[m := None])) = Done (put_cell l i w h')"
        using 2(6) [OF v m(1) refl m(2) _ done' 2(9)] True by simp
      then show ?thesis using v m True ml by (simp add: cell_at_put put_cell_update len)
    next
      case False
      then have done': "destroy_all vs (h[m := Some (n - 1, d)]) = Done h'" using 2(8) v m by simp
      have "destroy_all vs (put_cell l i w (h[m := Some (n - 1, d)])) = Done (put_cell l i w h')"
        using 2(7) [OF v m(1) refl m(2) _ done' 2(9)] False by simp
      then show ?thesis
        using v m False put_cell_update_same [OF m(1)] by (auto simp: cell_at_put put_cell_update len)
    qed
  qed
qed simp

lemma destroy_nulled:
  "destroy v h = Done h' \<Longrightarrow> slot_alive s h' \<Longrightarrow> destroy v (nulled s h) = Done (nulled s h')"
  by (cases s) (simp_all add: destroy_def destroy_all_put del: destroy_all.simps)

lemma share_nulled: "share v h = Done h' \<Longrightarrow> share v (nulled s h) = Done (nulled s h')"
proof (cases "\<exists>k m. v = CRef k m")
  case True
  assume sh: "share v h = Done h'"
  obtain k m where v: "v = CRef k m" using True by blast
  with sh obtain n c where m: "cell_at h m = Some (n, c)" "n > 0" "h' = h[m := Some (n + 1, c)]"
    by (auto simp: incrAndGet_def require_def split: option.splits if_splits)
  show ?thesis
  proof (cases s)
    case (Inside l i)
    show ?thesis
      using v m Inside put_cell_update_same [OF m(1)] put_cell_update [OF cell_at_length [OF m(1)], of l]
      by (cases "m = l") (simp_all add: incrAndGet_def cell_at_put)
  qed (use sh in simp)
qed (cases v; simp)

lemma share_alive: "share v h = Done h' \<Longrightarrow> slot_alive s h' \<longleftrightarrow> slot_alive s h"
  by (cases s; cases v) (auto simp: incrAndGet_def require_def cell_at_update cell_at_length split: option.splits if_splits)

lemma put_cell_new: "l < length h \<Longrightarrow> put_cell l i w (h @ [x]) = put_cell l i w h @ [x]"
  by (rule cells_eqI) (auto simp: cell_at_put cell_at_new)

lemma construct_new: "construct lit h = (w, h') \<Longrightarrow> h' = h \<or> (\<exists>x. h' = h @ [x])"
  by (cases lit) (auto simp: new_cell_def)

lemma construct_nulled:
  assumes "construct lit h = (w, h')" "slot_alive s h"
  shows "construct lit (nulled s h) = (w, nulled s h')"
proof (cases s)
  case (Inside l i)
  then obtain y where "cell_at h l = Some y" using assms(2) by auto
  then have "l < length h" by (rule cell_at_length)
  then show ?thesis using assms(1) Inside by (cases lit) (auto simp: new_cell_def put_cell_new)
qed (use assms in simp)

lemma read_slot_alive: "read_slot s st = Done v \<Longrightarrow> slot_alive s (js_cells st)"
  by (cases s) (auto simp: read_slot_Inside)

lemma read_slot_put: "read_slot s st = Done v \<Longrightarrow> read_slot s (put_slot s w st) = Done w"
proof (cases s)
  case (Inside l i)
  assume "read_slot s st = Done v"
  with Inside obtain n c where "cell_at (js_cells st) l = Some (n, c)" "value_at c i = Some v" by (auto simp: read_slot_Inside)
  then show ?thesis using Inside by (cases c) (auto simp: read_slot_Inside cell_at_put split: if_splits)
qed (simp add: read_slot_Variable)

lemma value_at_put_other: "i \<noteq> j \<Longrightarrow> value_at (put_value c i w) j = value_at c j"
  by (cases c) simp_all

lemma read_slot_put_other: "s \<noteq> r \<Longrightarrow> read_slot r (put_slot s w st) = read_slot r st"
  by (cases s; cases r)
    (auto simp: read_slot_def data_at_def cell_at_put value_at_put_other option.map_comp split: option.split bind_splits)

lemma put_value_twice: "put_value (put_value c i v) i w = put_value c i w"
  by (cases c) (simp_all, metis (no_types, lifting) fst_conv list_update_beyond list_update_overwrite not_le_imp_less nth_list_update_eq)

lemma put_slot_twice: "put_slot s w (put_slot s v st) = put_slot s w st"
proof (cases s)
  case (Inside l i)
  have "put_cell l i w (put_cell l i v h) = put_cell l i w h" for h
    by (rule cells_eqI) (auto simp: cell_at_put put_value_twice option.map_comp intro!: option.map_cong)
  then show ?thesis using Inside by simp
qed simp

lemma put_value_commute: "i \<noteq> j \<Longrightarrow> put_value (put_value c i v) j w = put_value (put_value c j w) i v"
  by (cases c) (simp_all add: list_update_swap)

lemma put_slot_commute: "s \<noteq> r \<Longrightarrow> put_slot r w (put_slot s v st) = put_slot s v (put_slot r w st)"
proof (cases s; cases r)
  fix l i m j assume s: "s = Inside l i" "r = Inside m j" "s \<noteq> r"
  then have "put_cell m j w (put_cell l i v h) = put_cell l i v (put_cell m j w h)" for h
    by (intro cells_eqI)
      (auto simp: cell_at_put put_value_commute option.map_comp intro!: option.map_cong)
  then show "put_slot r w (put_slot s v st) = put_slot s v (put_slot r w st)" using s by simp
qed (simp_all add: list_update_swap)

section \<open>Every operation keeps the counts\<close>

text \<open>The object destroyed, and taken as null from then on.\<close>

lemma destroyed_counted:
  assumes "counted M st" "read_slot s st = Done v" "destroy v (js_cells st) = Done h" "slot_alive s h"
  shows "counted M (put_slot s CNull (st\<lparr>js_cells := h\<rparr>))"
proof -
  have "counted (add_mset v M) (put_slot s CNull st)"
    using put_counted [OF _ assms(2), of CNull M] assms(1) by simp
  from destroy_counted [OF this] destroy_nulled [OF assms(3,4)] show ?thesis
    by (simp add: js_cells_put put_slot_nulled)
qed

lemma put_null_counted:
  assumes "counted (add_mset w M) (put_slot s CNull st)" "read_slot s st = Done v"
  shows "counted M (put_slot s w st)"
  using put_counted [OF assms(1) read_slot_put [OF assms(2)]] by (simp add: put_slot_twice)

lemma cells_twice: "st\<lparr>js_cells := h\<rparr>\<lparr>js_cells := h'\<rparr> = st\<lparr>js_cells := h'\<rparr>"
  by simp

lemma destroy_length: "destroy_all vs h = Done h' \<Longrightarrow> length h' = length h"
proof (induction vs h rule: destroy_all.induct)
  case (2 v vs h)
  show ?case
  proof (cases "\<exists>k m. v = CRef k m")
    case True
    then obtain k m where v: "v = CRef k m" by blast
    with 2(8) obtain n d where m: "cell_at h m = Some (n, d)" "n > 0" by (auto split: option.splits if_splits)
    then show ?thesis using 2(6) [OF v m(1) refl m(2)] 2(7) [OF v m(1) refl m(2)] 2(8) v by (auto split: if_splits)
  qed (use 2 in \<open>cases v; auto\<close>)
qed simp

lemma set_value_counted:
  assumes "counted M st" "set_value s lit st = Done st'"
  shows "counted M st'"
proof -
  obtain v where v: "read_slot s st = Done v" using assms(2) by (auto simp: set_value_def)
  obtain h where h: "destroy v (js_cells st) = Done h" using assms(2) v by (auto simp: set_value_def)
  obtain w h' where w: "construct lit h = (w, h')" by (cases "construct lit h")
  with assms(2) v h obtain x where x: "read_slot s (st\<lparr>js_cells := h'\<rparr>) = Done x" "st' = put_slot s w (st\<lparr>js_cells := h'\<rparr>)"
    by (auto simp: set_value_def write_slot_def)
  have alive: "slot_alive s h"
  proof (cases s)
    case (Inside l i)
    then have "l < length h"
      using read_slot_alive [OF v] destroy_length [OF h [unfolded destroy_def]] by (auto simp: cell_at_length)
    then show ?thesis using Inside read_slot_alive [OF x(1)] construct_new [OF w] by (auto simp: cell_at_new)
  qed simp
  have "counted M (put_slot s CNull (st\<lparr>js_cells := h\<rparr>))" using destroyed_counted [OF assms(1) v h alive] .
  then have "counted (add_mset w M) (put_slot s CNull (st\<lparr>js_cells := h'\<rparr>))"
    using construct_counted [of M "(put_slot s CNull st)\<lparr>js_cells := nulled s h\<rparr>" lit w "nulled s h'"] construct_nulled [OF w alive]
    by (simp add: put_slot_nulled)
  then show ?thesis unfolding x(2) by (rule put_null_counted [OF _ x(1)])
qed

lemma copy_assign_counted:
  assumes "counted M st" "copy_assign s r st = Done st'"
  shows "counted M st'"
proof -
  from assms(2) have sr: "s \<noteq> r" by (auto simp: copy_assign_def require_def split: if_splits)
  obtain v where v: "read_slot s st = Done v" using assms(2) sr by (auto simp: copy_assign_def)
  obtain h where h: "destroy v (js_cells st) = Done h" using assms(2) v sr by (auto simp: copy_assign_def)
  obtain w where w: "read_slot r (st\<lparr>js_cells := h\<rparr>) = Done w" using assms(2) v h sr by (auto simp: copy_assign_def)
  obtain h' where h': "share w h = Done h'" using assms(2) v h w sr by (auto simp: copy_assign_def)
  obtain x where x: "read_slot s (st\<lparr>js_cells := h'\<rparr>) = Done x" "st' = put_slot s w (st\<lparr>js_cells := h'\<rparr>)"
    using assms(2) v h w h' sr by (auto simp: copy_assign_def write_slot_def)
  have alive: "slot_alive s h" using read_slot_alive [OF x(1)] share_alive [OF h'] by simp
  let ?st = "put_slot s CNull (st\<lparr>js_cells := h\<rparr>)"
  have ok: "counted M ?st" using destroyed_counted [OF assms(1) v h alive] .
  have "read_slot r ?st = Done w" using w sr by (simp add: read_slot_put_other)
  from read_slot_in [OF this] have "w \<in># M + var_values (js_vars ?st) + heap_values (js_cells ?st)" by auto
  from share_counted [OF ok this] have "counted (add_mset w M) (put_slot s CNull (st\<lparr>js_cells := h'\<rparr>))"
    using share_nulled [OF h', of s] by (auto simp: put_slot_nulled)
  then show ?thesis unfolding x(2) by (rule put_null_counted [OF _ x(1)])
qed

lemma move_assign_counted:
  assumes "counted M st" "move_assign s r st = Done st'"
  shows "counted M st'"
proof -
  from assms(2) have sr: "s \<noteq> r" by (auto simp: move_assign_def require_def split: if_splits)
  obtain v where v: "read_slot s st = Done v" using assms(2) sr by (auto simp: move_assign_def)
  obtain h where h: "destroy v (js_cells st) = Done h" using assms(2) v sr by (auto simp: move_assign_def)
  let ?st = "st\<lparr>js_cells := h\<rparr>"
  obtain w where w: "read_slot r ?st = Done w" using assms(2) v h sr by (auto simp: move_assign_def)
  obtain x where x: "read_slot s ?st = Done x" "st' = put_slot r CNull (put_slot s w ?st)"
    using assms(2) v h w sr by (auto simp: move_assign_def write_slot_def)
  have ok: "counted M (put_slot s CNull ?st)"
    using destroyed_counted [OF assms(1) v h] read_slot_alive [OF x(1)] by simp
  have "read_slot r (put_slot s CNull ?st) = Done w" using w sr by (simp add: read_slot_put_other)
  from put_counted [OF _ this, of CNull M] ok
  have "counted (add_mset w M) (put_slot s CNull (put_slot r CNull ?st))"
    using sr by (simp add: put_slot_commute)
  then have "counted M (put_slot s w (put_slot r CNull ?st))"
    by (rule put_null_counted) (use x(1) sr in \<open>simp add: read_slot_put_other\<close>)
  then show ?thesis using x(2) sr by (simp add: put_slot_commute)
qed

lemma move_from_counted:
  assumes "counted M st" "move_from r st = Done (w, st')"
  shows "counted (add_mset w M) st'" "read_slot r st = Done w"
proof -
  show r: "read_slot r st = Done w" using assms(2) by (auto simp: move_from_def)
  then have "st' = put_slot r CNull st" using assms(2) by (auto simp: move_from_def write_slot_def)
  then show "counted (add_mset w M) st'" using put_counted [OF _ r, of CNull M] assms(1) by simp
qed

lemma copy_from_counted:
  assumes "counted M st" "read_slot r st = Done w"
  shows "\<exists>h. copy_from r st = Done (w, st\<lparr>js_cells := h\<rparr>) \<and> counted (add_mset w M) (st\<lparr>js_cells := h\<rparr>) \<and>
    (\<forall>l. data_at h l = data_at (js_cells st) l)"
proof -
  from read_slot_in [OF assms(2)] have "w \<in># M + var_values (js_vars st) + heap_values (js_cells st)" by auto
  from share_counted [OF assms(1) this] show ?thesis using assms(2) by (auto simp: copy_from_def)
qed

lemma constructed_counted:
  assumes "counted M st" "constructed a st = Done (w, st')"
  shows "counted (add_mset w M) st'"
proof (cases a)
  case (ACopy r)
  with assms(2) obtain v where v: "read_slot r st = Done v" by (auto simp: copy_from_def)
  from copy_from_counted [OF assms(1) v] show ?thesis using assms(2) ACopy by auto
next
  case (AMove r)
  then show ?thesis using move_from_counted [OF assms(1)] assms(2) by simp
next
  case (ALiteral lit)
  then show ?thesis using construct_counted [OF assms(1)] assms(2) by (auto split: prod.splits)
qed

lemma new_variable_counted:
  assumes "counted M st" "new_variable a st = Done st'"
  shows "counted M st'"
proof -
  obtain w st1 where st1: "constructed a st = Done (w, st1)" "st' = st1\<lparr>js_vars := js_vars st1 @ [Some w]\<rparr>"
    using assms(2) by (auto simp: new_variable_def)
  from constructed_counted [OF assms(1) st1(1)] show ?thesis
    using st1(2) by (simp add: counted_def var_values_def var_slot_def)
qed

lemma drop_counted:
  assumes "counted M st" "read_slot (Variable i) st = Done v"
  shows "\<exists>h. drop_variable i st = Done (st\<lparr>js_vars := (js_vars st)[i := None], js_cells := h\<rparr>) \<and>
    counted M (st\<lparr>js_vars := (js_vars st)[i := None], js_cells := h\<rparr>) \<and> destroy v (js_cells st) = Done h \<and>
    (\<forall>w j. w \<in># M + var_values ((js_vars st)[i := None]) + heap_values h \<longrightarrow> denotes (js_cells st) w j \<longrightarrow> denotes h w j)"
proof -
  have i: "i < length (js_vars st)" "js_vars st ! i = Some v" using assms(2) by (simp_all add: read_slot_Variable)
  have eq: "add_mset v (var_values ((js_vars st)[i := None])) = var_values (js_vars st)"
    using var_values_update [OF i(1), of None] i(2) by (simp add: var_slot_def)
  have "counted (add_mset v M) (st\<lparr>js_vars := (js_vars st)[i := None]\<rparr>)"
    using assms(1) by (simp add: counted_def flip: eq)
  from destroy_counted [OF this] show ?thesis using assms(2) by (auto simp: drop_variable_def)
qed

lemma add_value_counted:
  assumes "counted M st" "add_value s a st = Done st'"
  shows "counted M st'"
proof -
  obtain v where v: "read_slot s st = Done v" using assms(2) by (auto simp: add_value_def)
  have "\<exists>l. v = CRef ArrayCell l"
    using assms(2) v by (cases v) (auto simp: add_value_def split: cell_kind.splits)
  then obtain l where l: "read_slot s st = Done (CRef ArrayCell l)" using v by blast
  obtain w st1 where st1: "constructed a st = Done (w, st1)" using assms(2) l by (auto simp: add_value_def)
  obtain n vs where c: "cell_at (js_cells st1) l = Some (n, ValueVector vs)"
    "st' = st1\<lparr>js_cells := (js_cells st1)[l := Some (n, ValueVector (vs @ [w]))]\<rparr>"
    using assms(2) l st1 by (auto simp: add_value_def split: option.splits cell_data.splits if_splits)
  show ?thesis unfolding c(2) by (rule append_counted [OF constructed_counted [OF assms(1) st1] c(1)])
qed

lemma key_text_Done: "key_text h k = Done s \<Longrightarrow> \<exists>l. k = CRef StringCell l \<and> data_at h l = Some (CharVector s)"
  by (cases "(h, k)" rule: key_text.cases) (auto split: option.splits cell_data.splits)

lemma push_member_counted:
  assumes "counted M st" "push_member s k v st = Done st'"
  shows "counted M st'"
proof -
  obtain obj where obj: "read_slot s st = Done obj" using assms(2) by (auto simp: push_member_def)
  obtain l ms where ms: "members_at (js_cells st) obj = Done (l, ms)" using assms(2) obj by (auto simp: push_member_def)
  obtain key where key: "read_slot k st = Done key" using assms(2) obj ms by (auto simp: push_member_def)
  obtain tx where tx: "key_text (js_cells st) key = Done tx" using assms(2) obj ms key by (auto simp: push_member_def)
  have find: "find_key (js_cells st) ms tx = Done None"
    using assms(2) obj ms key tx by (auto simp: push_member_def require_def split: if_splits)
  obtain kw st1 where st1: "move_from k st = Done (kw, st1)"
    using assms(2) obj ms key tx find by (auto simp: push_member_def)
  obtain vw st2 where st2: "move_from v st1 = Done (vw, st2)"
    using assms(2) obj ms key tx find st1 by (auto simp: push_member_def)
  obtain n ms' where c: "cell_at (js_cells st2) l = Some (n, MemberVector ms')"
    "st' = st2\<lparr>js_cells := (js_cells st2)[l := Some (n, MemberVector (ms' @ [(kw, vw)]))]\<rparr>"
    using assms(2) obj ms key tx find st1 st2 by (auto simp: push_member_def split: option.splits cell_data.splits if_splits)
  have kw: "counted (add_mset kw M) st1" "kw = key" using move_from_counted [OF assms(1) st1] key by simp_all
  have "counted (add_mset vw (add_mset kw M)) st2" using move_from_counted(1) [OF kw(1) st2] .
  then have both: "counted (add_mset kw (add_mset vw M)) st2" by (simp add: add_mset_commute)
  obtain m where m: "kw = CRef StringCell m" using key_text_Done [OF tx] kw(2) by blast
  show ?thesis unfolding c(2) by (rule append_member_counted [OF both c(1) m])
qed

lemma value_step_counted:
  assumes "counted M st" "value_step p st = Done st'"
  shows "counted M st'"
proof (cases p)
  case (Destruct i)
  with assms(2) obtain v where "read_slot (Variable i) st = Done v" by (auto simp: drop_variable_def)
  from drop_counted [OF assms(1) this] show ?thesis using assms(2) Destruct by auto
next
  case (Construct a)
  with assms show ?thesis by (auto intro: new_variable_counted)
next
  case (SetTo s lit)
  with assms show ?thesis by (auto intro: set_value_counted)
next
  case (CopyAssign s r)
  with assms show ?thesis by (auto intro: copy_assign_counted)
next
  case (MoveAssign s r)
  with assms show ?thesis by (auto intro: move_assign_counted)
next
  case (AddValue s a)
  with assms show ?thesis by (auto intro: add_value_counted)
next
  case (AddMember s k v)
  with assms show ?thesis by (auto intro: push_member_counted)
qed

lemma value_run_counted: "counted M st \<Longrightarrow> value_run ps st = Done st' \<Longrightarrow> counted M st'"
  by (induction ps st rule: value_run.induct) (auto dest: value_step_counted)

section \<open>Letting values go\<close>

lemma drop_data:
  assumes "drop_variable i st = Done st'" "data_at (js_cells st') l = Some c"
  shows "data_at (js_cells st) l = Some c"
  using assms by (auto simp: drop_variable_def destroy_def simp del: destroy_all.simps intro: destroy_all_data)

text \<open>Variables can be destructed in any order; the others keep what they stand for.\<close>

lemma drops_ok:
  assumes "counted {#} st" "distinct is" "\<forall>i\<in>set is. \<exists>v. read_slot (Variable i) st = Done v"
  shows "\<exists>st'. value_run (map Destruct is) st = Done st' \<and> counted {#} st' \<and>
    length (js_vars st') = length (js_vars st) \<and>
    (\<forall>n. js_vars st' ! n = (if n \<in> set is then None else js_vars st ! n)) \<and>
    (\<forall>l c. data_at (js_cells st') l = Some c \<longrightarrow> data_at (js_cells st) l = Some c) \<and>
    (\<forall>n v j. n \<notin> set is \<longrightarrow> read_slot (Variable n) st = Done v \<longrightarrow> denotes (js_cells st) v j \<longrightarrow> denotes (js_cells st') v j)"
  using assms
proof (induction "is" arbitrary: st)
  case (Cons i "is")
  then obtain v where v: "read_slot (Variable i) st = Done v" by auto
  then have i: "i < length (js_vars st)" by (simp add: read_slot_Variable)
  let ?vars = "(js_vars st)[i := None]"
  from drop_counted [OF Cons.prems(1) v] obtain h where
    h: "drop_variable i st = Done (st\<lparr>js_vars := ?vars, js_cells := h\<rparr>)"
      "counted {#} (st\<lparr>js_vars := ?vars, js_cells := h\<rparr>)"
    and keep: "\<And>w j. w \<in># var_values ?vars + heap_values h \<Longrightarrow> denotes (js_cells st) w j \<Longrightarrow> denotes h w j"
    by auto
  let ?st = "st\<lparr>js_vars := ?vars, js_cells := h\<rparr>"
  note drop = h(1) and ok = h(2)
  have other: "read_slot (Variable n) ?st = read_slot (Variable n) st" if "n \<noteq> i" for n
    using that by (simp add: read_slot_def)
  have "\<forall>n\<in>set is. \<exists>v. read_slot (Variable n) ?st = Done v" using Cons.prems(2,3) other by force
  from Cons.IH [OF ok _ this] Cons.prems(2) obtain st' where
    run: "value_run (map Destruct is) ?st = Done st'" "counted {#} st'" "length (js_vars st') = length (js_vars ?st)"
    and vars: "\<And>n. js_vars st' ! n = (if n \<in> set is then None else js_vars ?st ! n)"
    and data: "\<And>l c. data_at (js_cells st') l = Some c \<Longrightarrow> data_at (js_cells ?st) l = Some c"
    and kept: "\<And>n v j. n \<notin> set is \<Longrightarrow> read_slot (Variable n) ?st = Done v \<Longrightarrow> denotes (js_cells ?st) v j \<Longrightarrow> denotes (js_cells st') v j"
    by auto
  have "denotes (js_cells st') w j"
    if "n \<notin> set (i # is)" "read_slot (Variable n) st = Done w" "denotes (js_cells st) w j" for n w j
  proof -
    have n: "read_slot (Variable n) ?st = Done w" using other [of n] that by simp
    from keep [of w j] read_slot_in [OF n] that(3) have "denotes h w j" by simp
    then show ?thesis using kept [OF _ n] that(1) by simp
  qed
  moreover have "data_at (js_cells st) l = Some c" if "data_at (js_cells st') l = Some c" for l c
    using drop_data [OF drop data [OF that]] .
  moreover have "js_vars st' ! n = (if n \<in> set (i # is) then None else js_vars st ! n)" for n
    using vars [of n] i by simp
  moreover have "value_run (map Destruct (i # is)) st = Done st'" using run(1) drop by simp
  ultimately show ?case using run(2,3) by (intro exI [of _ st'] conjI) simp_all
qed simp

lemma sum_list_none: "\<forall>x\<in>set xs. f x = (0::'b::comm_monoid_add) \<Longrightarrow> sum_list (map f xs) = 0"
  by (induction xs) auto

definition live_vars :: "jstate \<Rightarrow> nat list" where
  "live_vars st = filter (\<lambda>i. js_vars st ! i \<noteq> None) [0..<length (js_vars st)]"

lemma all_dropped:
  assumes "values_ok st" "acyclic_cells (js_cells st)"
  shows "\<exists>st'. value_run (map Destruct (live_vars st)) st = Done st' \<and> (\<forall>l. cell_at (js_cells st') l = None)"
proof -
  have "\<forall>i\<in>set (live_vars st). \<exists>v. read_slot (Variable i) st = Done v"
    by (auto simp: live_vars_def read_slot_Variable)
  from drops_ok [OF assms(1) [unfolded values_ok_def] _ this] obtain st' where
    st': "value_run (map Destruct (live_vars st)) st = Done st'" "counted {#} st'" "length (js_vars st') = length (js_vars st)"
      "\<And>n. js_vars st' ! n = (if n \<in> set (live_vars st) then None else js_vars st ! n)"
      "\<And>l c. data_at (js_cells st') l = Some c \<Longrightarrow> data_at (js_cells st) l = Some c"
    by (auto simp: live_vars_def)
  have "js_vars st' ! n = None" if "n < length (js_vars st')" for n
    using st'(3,4) that by (simp add: live_vars_def)
  then have "\<forall>x\<in>set (js_vars st'). var_slot x = {#}" by (auto simp: in_set_conv_nth var_slot_def)
  then have "var_values (js_vars st') = {#}" unfolding var_values_def by (rule sum_list_none)
  then have "heap_ok {#} (js_cells st')" using st'(2) by (simp add: counted_def)
  moreover have "acyclic_cells (js_cells st')" using assms(2) st'(5) unfolding acyclic_cells_def by blast
  ultimately show ?thesis using no_leak st'(1) by blast
qed

text \<open>The last reference to an array goes before the element assigned is read.\<close>

lemma assign_own:
  assumes "values_ok st" "read_slot (Variable i) st = Done (CRef k l)" "cell_at (js_cells st) l = Some (1, c)"
  shows "copy_assign (Variable i) (Inside l m) st = Throw Undefined" "move_assign (Variable i) (Inside l m) st = Throw Undefined"
proof -
  have "counted (add_mset (CRef k l) {#}) (put_slot (Variable i) CNull st)"
    using put_counted [OF _ assms(2), of CNull "{#}"] assms(1) by (simp add: values_ok_def)
  from destroy_counted [OF this] obtain h where h: "destroy (CRef k l) (js_cells st) = Done h" by auto
  then have "destroy_all (held_values c) ((js_cells st)[l := None]) = Done h" using assms(3) by (simp add: destroy_def)
  from destroy_all_data [OF this, of l] have "data_at h l = None"
    using cell_at_length [OF assms(3)] by (cases "data_at h l") (auto simp: data_at_def cell_at_update)
  then have "read_slot (Inside l m) (st\<lparr>js_cells := h\<rparr>) = Throw Undefined" by (simp add: read_slot_def)
  then show "copy_assign (Variable i) (Inside l m) st = Throw Undefined" "move_assign (Variable i) (Inside l m) st = Throw Undefined"
    using h assms(2) by (simp_all add: copy_assign_def move_assign_def)
qed

definition no_values :: jstate where
  "no_values = \<lparr>js_vars = [], js_cells = []\<rparr>"

lemma run_ok: "value_run ps no_values = Done st \<Longrightarrow> values_ok st"
  unfolding values_ok_def
  by (rule value_run_counted)
    (simp_all add: no_values_def counted_def var_values_def heap_ok_def counts_ok_def heap_values_def count_of_def cell_at_def)

lemma run_counted:
  assumes "value_run ps no_values = Done st"
  shows "(\<forall>l. count_of (js_cells st) l = int (references l (var_values (js_vars st) + heap_values (js_cells st)))) \<and>
    (\<forall>k l. CRef k l \<in># var_values (js_vars st) + heap_values (js_cells st) \<longrightarrow> kind_at (js_cells st) l = Some k)"
  using run_ok [OF assms] unfolding values_ok_def counted_def heap_ok_def counts_ok_def by simp

lemma copy_kept:
  assumes "values_ok st" "read_slot s st = Done v" "denotes (js_cells st) v j"
    and "distinct is" "\<forall>i\<in>set is. \<exists>w. read_slot (Variable i) st = Done w"
  shows "\<exists>st'. value_run (Construct (ACopy s) # map Destruct is) st = Done st' \<and>
    read_slot (Variable (length (js_vars st))) st' = Done v \<and> denotes (js_cells st') v j"
proof -
  let ?n = "length (js_vars st)"
  obtain h where h: "copy_from s st = Done (v, st\<lparr>js_cells := h\<rparr>)" "\<forall>l. data_at h l = data_at (js_cells st) l"
    using copy_from_counted [OF assms(1) [unfolded values_ok_def] assms(2)] by blast
  let ?st = "st\<lparr>js_cells := h, js_vars := js_vars st @ [Some v]\<rparr>"
  have new: "new_variable (ACopy s) st = Done ?st" using h(1) by (simp add: new_variable_def)
  have ok: "counted {#} ?st" using new_variable_counted [OF assms(1) [unfolded values_ok_def] new] .
  have old: "read_slot (Variable i) ?st = read_slot (Variable i) st" if "i < ?n" for i
    using that by (simp add: read_slot_def nth_append)
  have live: "i < ?n" if "i \<in> set is" for i using assms(5) that by (auto simp: read_slot_Variable)
  then have n: "?n \<notin> set is" by blast
  have "\<forall>i\<in>set is. \<exists>w. read_slot (Variable i) ?st = Done w" using assms(5) old live by metis
  from drops_ok [OF ok assms(4) this] obtain st' where
    st': "value_run (map Destruct is) ?st = Done st'" "length (js_vars st') = length (js_vars ?st)"
      "\<forall>m. js_vars st' ! m = (if m \<in> set is then None else js_vars ?st ! m)"
      "\<forall>m w j. m \<notin> set is \<longrightarrow> read_slot (Variable m) ?st = Done w \<longrightarrow> denotes (js_cells ?st) w j \<longrightarrow> denotes (js_cells st') w j"
    by blast
  have "read_slot (Variable ?n) ?st = Done v" by (simp add: read_slot_Variable)
  moreover have "denotes (js_cells ?st) v j" using denotes_same_data [OF h(2) [rule_format] assms(3)] by simp
  ultimately have "denotes (js_cells st') v j" using st'(4) n by blast
  moreover have "read_slot (Variable ?n) st' = Done v" using st'(2,3) n by (simp add: read_slot_Variable)
  ultimately show ?thesis using st'(1) new by simp
qed

end
