(* ===== verification/JsonTree.thy ===== *)
theory JsonTree
  imports JsonShare
begin

text \<open>
  The counted values implement the trees of \<open>JsonValue\<close>: what \<open>addValue\<close> does to an array on the heap
  is what it does to the tree that the array stands for, and values from which the array cannot be
  reached stand for what they did. Those from which it can, copies of the array first of all, change
  with it.
\<close>

inductive reaches :: "cells \<Rightarrow> cval \<Rightarrow> nat \<Rightarrow> bool" for h where
  here: "reaches h (CRef k l) l"
| there: "data_at h m = Some c \<Longrightarrow> x \<in> set (held_values c) \<Longrightarrow> reaches h x l \<Longrightarrow> reaches h (CRef k m) l"

inductive_cases reachesE: "reaches h (CRef k m) l"

lemma denotes_other_cell:
  assumes "\<not> reaches h v l" "denotes h v j" "\<And>m. m \<noteq> l \<Longrightarrow> data_at h' m = data_at h m"
  shows "denotes h' v j"
proof (rule denotes_transfer [where L = "{m. \<exists>k. reaches h (CRef k m) l}", OF _ _ assms(2)])
  show "data_at h' m = data_at h m" if "m \<notin> {m. \<exists>k. reaches h (CRef k m) l}" for m
    using that assms(3) [of m] here by blast
  show "m' \<notin> {m. \<exists>k. reaches h (CRef k m) l}"
    if "m \<notin> {m. \<exists>k. reaches h (CRef k m) l}" "data_at h m = Some c" "CRef k m' \<in> set (held_values c)" for m c k m'
  proof -
    have "\<not> reaches h (CRef k m') l" using there [OF that(2,3)] that(1) by blast
    moreover have "reaches h (CRef k' m') l \<Longrightarrow> reaches h (CRef k m') l" for k'
      by (erule reachesE) (auto intro: reaches.intros)
    ultimately show ?thesis by blast
  qed
  show "m \<notin> {m. \<exists>k. reaches h (CRef k m) l}" if "v = CRef k m" for k m
  proof -
    have "reaches h (CRef k' m) l \<Longrightarrow> reaches h (CRef k m) l" for k'
      by (erule reachesE) (auto intro: reaches.intros)
    then show ?thesis using assms(1) that by blast
  qed
qed

lemma string_atD: "string_at h v s \<Longrightarrow> \<exists>l. v = CRef StringCell l \<and> data_at h l = Some (CharVector s)"
  by (cases "(h, v, s)" rule: string_at.cases) auto

lemma denotes_plain:
  "denotes h CNull j \<longleftrightarrow> j = JNull" "denotes h (CBool b) j \<longleftrightarrow> j = JBool b" "denotes h (CInt32 i) j \<longleftrightarrow> j = JInt32 i"
  "denotes h (CInt64 i') j \<longleftrightarrow> j = JInt64 i'" "denotes h (CDouble d) j \<longleftrightarrow> j = JDouble d"
  by (cases j; auto)+

lemma denotes_ref:
  "denotes h (CRef StringCell l) j \<longleftrightarrow> (\<exists>s. j = JString s \<and> data_at h l = Some (CharVector s))"
  "denotes h (CRef ArrayCell l) j \<longleftrightarrow> (\<exists>js vs. j = JArray js \<and> data_at h l = Some (ValueVector vs) \<and> denote_all h vs js)"
  "denotes h (CRef ObjectCell l) j \<longleftrightarrow> (\<exists>kjs ms. j = JObject kjs \<and> data_at h l = Some (MemberVector ms) \<and> denote_members h ms kjs)"
  by (cases j; auto split: option.splits cell_data.splits)+

lemma denote_all_iff: "denote_all h vs js \<longleftrightarrow> list_all2 (denotes h) vs js"
proof (induction js arbitrary: vs)
  case (Cons j js)
  then show ?case by (cases vs) simp_all
qed simp

lemma denote_members_iff:
  "denote_members h ms kjs \<longleftrightarrow> list_all2 (\<lambda>(k, v) (key, j). string_at h k key \<and> denotes h v j) ms kjs"
proof (induction kjs arbitrary: ms)
  case (Cons kj kjs)
  then show ?case by (cases ms; cases kj) auto
qed simp

text \<open>A value is larger than those in its cell, and no smaller than those reached from it.\<close>

lemma held_denotes:
  assumes "denotes h (CRef k m) j" "data_at h m = Some c" "x \<in> set (held_values c)"
  shows "\<exists>jx. denotes h x jx \<and> size jx < size j"
proof (cases k)
  case ArrayCell
  with assms(1,2) obtain js vs where j: "j = JArray js" "c = ValueVector vs" "list_all2 (denotes h) vs js"
    by (auto simp: denotes_ref denote_all_iff)
  with assms(3) obtain i where "i < length vs" "vs ! i = x" by (auto simp: in_set_conv_nth)
  with j(3) have "denotes h x (js ! i)" "js ! i \<in> set js" by (auto simp: list_all2_conv_all_nth)
  then show ?thesis using j(1) size_list_estimation' [of "js ! i" js "size (js ! i)" size] by auto
next
  case ObjectCell
  with assms(1,2) obtain kjs ms where j: "j = JObject kjs" "c = MemberVector ms"
    "list_all2 (\<lambda>(k, v) (key, j). string_at h k key \<and> denotes h v j) ms kjs"
    by (auto simp: denotes_ref denote_members_iff)
  from assms(3) j(2) obtain i where i: "i < length ms" "x \<in> {fst (ms ! i), snd (ms ! i)}"
    by (fastforce simp: in_set_conv_nth)
  let ?key = "fst (kjs ! i)" and ?val = "snd (kjs ! i)"
  have len: "length ms = length kjs" using j(3) by (rule list_all2_lengthD)
  have d: "string_at h (fst (ms ! i)) ?key" "denotes h (snd (ms ! i)) ?val"
    using list_all2_nthD [OF j(3) i(1)] by (auto simp: split_beta)
  have mem: "kjs ! i \<in> set kjs" using i(1) len by simp
  have "size ?val < size j"
    using j(1) size_list_estimation' [OF mem, of "size_prod (\<lambda>_. 0) size (kjs ! i)" "size_prod (\<lambda>_. 0) size"]
    by (cases "kjs ! i") simp
  moreover have "size (JString ?key) < size j"
    using j(1) mem by (cases kjs) auto
  moreover have "denotes h (fst (ms ! i)) (JString ?key)" using d(1) by simp
  ultimately show ?thesis using d(2) i(2) by blast
next
  case StringCell
  with assms show ?thesis by (auto simp: denotes_ref)
qed

lemma denotes_reached:
  "reaches h v l \<Longrightarrow> denotes h v j \<Longrightarrow> \<exists>k j'. denotes h (CRef k l) j' \<and> (v = CRef k l \<and> j' = j \<or> size j' < size j)"
proof (induction arbitrary: j rule: reaches.induct)
  case (here k l)
  then show ?case by blast
next
  case (there m c x l k)
  from held_denotes [OF there.prems there.hyps(1,2)] obtain jx where jx: "denotes h x jx" "size jx < size j" by blast
  from there.IH [OF jx(1)] jx(2) show ?case by (metis less_trans)
qed

text \<open>So a value that stands for a tree is in none of its own cells.\<close>

lemma denotes_acyclic:
  "denotes h (CRef k l) j \<Longrightarrow> data_at h l = Some c \<Longrightarrow> x \<in> set (held_values c) \<Longrightarrow> \<not> reaches h x l"
proof (induction "size j" arbitrary: j k rule: less_induct)
  case less
  show ?case
  proof
    assume r: "reaches h x l"
    obtain jx where jx: "denotes h x jx" "size jx < size j" using held_denotes [OF less.prems] by blast
    from denotes_reached [OF r jx(1)] obtain k' j' where "denotes h (CRef k' l) j'" "size j' < size j"
      using jx(2) by (metis less_trans)
    then show False using less.hyps [OF _ _ less.prems(2,3)] r by blast
  qed
qed

lemma array_appended:
  assumes cell: "cell_at h l = Some (n, ValueVector vs)" and arr: "denotes h (CRef ArrayCell l) (JArray js)"
    and w: "denotes h w j" "\<not> reaches h w l"
  shows "denotes (h[l := Some (n, ValueVector (vs @ [w]))]) (CRef ArrayCell l) (JArray (js @ [j]))"
proof -
  let ?h = "h[l := Some (n, ValueVector (vs @ [w]))]"
  have len: "l < length h" using cell by (rule cell_at_length)
  have other: "data_at ?h m = data_at h m" if "m \<noteq> l" for m using that len by (simp add: data_at_def cell_at_update)
  have data: "data_at h l = Some (ValueVector vs)" using cell by (simp add: data_at_def)
  have vs: "list_all2 (denotes h) vs js" using arr data by (auto simp: denotes_ref denote_all_iff)
  have "denotes ?h v i" if "v \<in> set vs" "denotes h v i" for v i
    using denotes_other_cell [OF denotes_acyclic [OF arr data] that(2) other] that(1) by simp
  then have "list_all2 (denotes ?h) vs js" using vs by (auto simp: list_all2_conv_all_nth)
  moreover have "denotes ?h w j" by (rule denotes_other_cell [OF w(2,1) other])
  ultimately have "list_all2 (denotes ?h) (vs @ [w]) (js @ [j])" by (simp add: list_all2_appendI)
  then show ?thesis using len by (simp add: denotes_ref denote_all_iff data_at_def cell_at_update)
qed

lemma reaches_same_data: "reaches h v l \<Longrightarrow> (\<And>m. data_at h' m = data_at h m) \<Longrightarrow> reaches h' v l"
  by (induction rule: reaches.induct) (auto intro: reaches.intros)

lemma addValue_implemented:
  assumes ok: "values_ok st" and s: "read_slot s st = Done (CRef ArrayCell l)" "denotes (js_cells st) (CRef ArrayCell l) j"
    and r: "read_slot r st = Done w" "denotes (js_cells st) w x" "\<not> reaches (js_cells st) w l"
  shows "\<exists>st' j'. add_value s (ACopy r) st = Done st' \<and> addValue j x = (Done j' :: (fault, jvalue) outcome) \<and>
    denotes (js_cells st') (CRef ArrayCell l) j' \<and>
    (\<forall>u ju. \<not> reaches (js_cells st) u l \<longrightarrow> denotes (js_cells st) u ju \<longrightarrow> denotes (js_cells st') u ju)"
proof -
  obtain h where h: "copy_from r st = Done (w, st\<lparr>js_cells := h\<rparr>)" "\<And>m. data_at h m = data_at (js_cells st) m"
    using copy_from_counted [OF ok [unfolded values_ok_def] r(1)] by blast
  obtain js vs where j: "j = JArray js" "data_at (js_cells st) l = Some (ValueVector vs)"
    using s(2) by (auto simp: denotes_ref)
  then obtain n where cell: "cell_at h l = Some (n, ValueVector vs)" using h(2) [of l] by (auto simp: data_at_def)
  let ?h = "h[l := Some (n, ValueVector (vs @ [w]))]"
  have same: "denotes h v i" if "denotes (js_cells st) v i" for v i using denotes_same_data [OF h(2) that] .
  have reach: "\<not> reaches h u l" if "\<not> reaches (js_cells st) u l" for u
    using that reaches_same_data [of h u l "js_cells st"] h(2) by auto
  have "add_value s (ACopy r) st = Done (st\<lparr>js_cells := ?h\<rparr>)" using s(1) h(1) cell by (simp add: add_value_def)
  moreover have "denotes ?h (CRef ArrayCell l) (JArray (js @ [x]))"
    using array_appended [OF cell same [OF s(2) [unfolded j(1)]] same [OF r(2)] reach [OF r(3)]] .
  moreover have "denotes ?h u ju" if "\<not> reaches (js_cells st) u l" "denotes (js_cells st) u ju" for u ju
    by (rule denotes_other_cell [OF reach [OF that(1)] same [OF that(2)]])
      (use cell_at_length [OF cell] in \<open>simp add: data_at_def cell_at_update\<close>)
  ultimately show ?thesis
    unfolding j(1) by (intro exI [of _ "st\<lparr>js_cells := ?h\<rparr>"] exI [of _ "JArray (js @ [x])"]) (simp del: denotes.simps)
qed

end
