(* ===== verification/NetEventLoop.thy ===== *)
theory NetEventLoop
  imports NetLoop NetPoller NetTimer
begin

text \<open>
  An iteration of \<open>EventLoop::loop\<close> over the parts it is made of: the poller, the channels of the wake-up
  descriptor and of the timer descriptor, the timers, and the queued functors; with \<open>runTimer\<close>, \<open>runAfter\<close> and
  \<open>runRepeat\<close>, which may be called from any thread. A timer so added is run: the loop is woken for it, its
  descriptor is armed for the earliest of the timers, and the event of the descriptor runs it.
\<close>

section \<open>The loop\<close>

text \<open>A queued functor is the addition of a timer or one of the program's.\<close>

datatype job = AddTimer nat | UserJob nat

record event_loop =
  el_jobs :: "job loop"
  el_timers :: timer_queue
  el_poller :: poller

definition wakeup_channel :: nat where "wakeup_channel = 0"
definition timer_channel :: nat where "timer_channel = 1"

text \<open>The constructors of \<open>TimerQueue\<close> and \<open>EventLoop\<close> set the callbacks and enable reading.\<close>

definition event_loop_init :: "int \<Rightarrow> int \<Rightarrow> event_loop" where
  "event_loop_init weakupFd timerfd =
     (let store = (\<lambda>c. channel_init (if c = wakeup_channel then weakupFd else timerfd));
          p = poller_init store;
          p = enableReading timer_channel (set_channel timer_channel (set_callback ReadCallback (p_store p timer_channel)) p);
          p = enableReading wakeup_channel (set_channel wakeup_channel (set_callback ReadCallback (p_store p wakeup_channel)) p)
      in \<lparr>el_jobs = loop_init, el_timers = queue_init, el_poller = p\<rparr>)"

text \<open>\<open>updateChannel\<close> and \<open>removeChannel\<close> assert that the channel is the loop's.\<close>

definition el_updateChannel :: "bool \<Rightarrow> nat \<Rightarrow> event_loop \<Rightarrow> (unit, event_loop) outcome" where
  "el_updateChannel owned c el = require owned (Done (el\<lparr>el_poller := updateChannel c (el_poller el)\<rparr>))"

definition el_removeChannel :: "bool \<Rightarrow> nat \<Rightarrow> event_loop \<Rightarrow> (unit, event_loop) outcome" where
  "el_removeChannel owned c el = require owned (Done (el\<lparr>el_poller := removeChannel c (el_poller el)\<rparr>))"

section \<open>Adding timers from any thread\<close>

text \<open>\<open>TimerQueue::addTimer\<close> makes the timer in the calling thread and has the loop's thread insert it.\<close>

definition el_addTimer :: "bool \<Rightarrow> nat \<Rightarrow> nat \<Rightarrow> timestamp \<Rightarrow> double \<Rightarrow> event_loop \<Rightarrow> (unit, event_loop) outcome" where
  "el_addTimer in_loop_thread t cb when' interval el =
     (let q = (el_timers el)\<lparr>tq_heap := (tq_heap (el_timers el))(t \<mapsto> timer_init cb when' interval)\<rparr>
      in if in_loop_thread then obind (addTimerInLoop t q) (\<lambda>q. Done (el\<lparr>el_timers := q\<rparr>))
         else Done (el\<lparr>el_timers := q, el_jobs := queueInLoop False (AddTimer t) (el_jobs el)\<rparr>))"

definition runTimer :: "bool \<Rightarrow> nat \<Rightarrow> nat \<Rightarrow> timestamp \<Rightarrow> event_loop \<Rightarrow> (unit, event_loop) outcome" where
  "runTimer in_loop_thread t cb time el = el_addTimer in_loop_thread t cb time (DFin False 0 0) el"

text \<open>\<open>Throw\<close> is the undefined conversion of an interval that is no 64-bit number of microseconds.\<close>

definition runAfter :: "bool \<Rightarrow> nat \<Rightarrow> nat \<Rightarrow> timestamp \<Rightarrow> double \<Rightarrow> event_loop \<Rightarrow> (unit, event_loop) outcome" where
  "runAfter in_loop_thread t cb now delayTime el =
     (case addTime now delayTime of
        None \<Rightarrow> Throw ()
      | Some time \<Rightarrow> runTimer in_loop_thread t cb time el)"

definition runRepeat :: "bool \<Rightarrow> nat \<Rightarrow> nat \<Rightarrow> timestamp \<Rightarrow> double \<Rightarrow> event_loop \<Rightarrow> (unit, event_loop) outcome" where
  "runRepeat in_loop_thread t cb now interval el =
     (case addTime now interval of
        None \<Rightarrow> Throw ()
      | Some time \<Rightarrow> el_addTimer in_loop_thread t cb time interval el)"

section \<open>An iteration\<close>

text \<open>
  \<open>effect\<close> is what the program's callbacks do to the timers; \<open>spawn\<close> what its functors queue. The callbacks
  that ran are collected.
\<close>

fun run_jobs :: "(nat \<Rightarrow> timer_queue \<Rightarrow> timer_queue) \<Rightarrow> job list \<Rightarrow> timer_queue \<Rightarrow> (unit, timer_queue) outcome" where
  "run_jobs effect [] q = Done q"
| "run_jobs effect (AddTimer t # js) q = obind (addTimerInLoop t q) (run_jobs effect js)"
| "run_jobs effect (UserJob n # js) q = run_jobs effect js (effect n q)"

definition el_doPending :: "(nat \<Rightarrow> timer_queue \<Rightarrow> timer_queue) \<Rightarrow> (job \<Rightarrow> job list) \<Rightarrow> event_loop \<Rightarrow> (unit, event_loop) outcome" where
  "el_doPending effect spawn el =
     obind (run_jobs effect (lp_pending (el_jobs el)) (el_timers el)) (\<lambda>q.
       Done (el\<lparr>el_timers := q, el_jobs := doPendingFunctor spawn (el_jobs el)\<rparr>))"

definition el_callback ::
    "(nat \<Rightarrow> timer_queue \<Rightarrow> timer_queue) \<Rightarrow> timestamp \<Rightarrow> nat \<Rightarrow> event_callback \<Rightarrow> event_loop \<Rightarrow> (unit, nat list \<times> event_loop) outcome" where
  "el_callback effect now c cb el =
     (if c = timer_channel \<and> cb = ReadCallback then
        obind (timer_handleRead effect now (el_timers el)) (\<lambda>(ran, q). Done (ran, el\<lparr>el_timers := q\<rparr>))
      else if c = wakeup_channel \<and> cb = ReadCallback then
        Done ([], el\<lparr>el_jobs := loop_handleRead (el_jobs el)\<rparr>)
      else Done ([], el\<lparr>el_timers := effect c (el_timers el)\<rparr>))"

fun el_callbacks ::
    "(nat \<Rightarrow> timer_queue \<Rightarrow> timer_queue) \<Rightarrow> timestamp \<Rightarrow> (nat \<times> event_callback) list \<Rightarrow> event_loop \<Rightarrow> (unit, nat list \<times> event_loop) outcome" where
  "el_callbacks effect now [] el = Done ([], el)"
| "el_callbacks effect now ((c, cb) # cbs) el =
     obind (el_callback effect now c cb el) (\<lambda>(ran, el).
     obind (el_callbacks effect now cbs el) (\<lambda>(ran', el). Done (ran @ ran', el)))"

text \<open>The body of \<open>loop()\<close>, with what \<open>epoll_wait\<close> delivered and the time it is.\<close>

definition el_iteration ::
    "(nat \<Rightarrow> timer_queue \<Rightarrow> timer_queue) \<Rightarrow> (job \<Rightarrow> job list) \<Rightarrow> timestamp \<Rightarrow> (i32 \<times> nat) list \<Rightarrow> event_loop \<Rightarrow>
      (unit, nat list \<times> event_loop) outcome" where
  "el_iteration effect spawn now es el =
     (case poll es (el_poller el) of
        (active, p) \<Rightarrow>
          obind (el_callbacks effect now (concat (map (\<lambda>c. map (Pair c) (handleEvent (p_store p c))) active))
                   (el\<lparr>el_poller := p\<rparr>)) (\<lambda>(ran, el).
          obind (el_doPending effect spawn el) (\<lambda>el. Done (ran, el))))"

section \<open>The descriptor is armed for the earliest timer\<close>

text \<open>Times are positive, as those after 1970 are; \<open>reset\<close> does not arm the descriptor for others.\<close>

definition positive_times :: "timer_queue \<Rightarrow> bool" where
  "positive_times q \<longleftrightarrow> (\<forall>e\<in>set (tq_timers q). 0 < fst e)"

definition armed :: "timer_queue \<Rightarrow> bool" where
  "armed q \<longleftrightarrow> positive_times q \<and>
     (tq_timers q \<noteq> [] \<longrightarrow> (\<exists>x. tq_armed q = Some x \<and> sint x = fst (hd (tq_timers q))))"

lemma hd_insort: "hd (insort x xs) = (if xs = [] \<or> x \<le> hd xs then x else hd xs)"
  by (cases xs) auto

lemma addTimerInLoop_ok:
  assumes "tq_inv q" "armed q" "tq_heap q t = Some tm" "t \<notin> snd ` set (tq_timers q)" "t < UINTPTR_MAX"
    and "0 < sint (tm_expiration tm)"
  shows "\<exists>q'. addTimerInLoop t q = Done q' \<and> tq_inv q' \<and> armed q' \<and> tq_heap q' = tq_heap q \<and>
    tq_timers q' = insort (sint (tm_expiration tm), t) (tq_timers q)"
proof -
  let ?w = "sint (tm_expiration tm)" and ?ts = "tq_timers q"
  let ?ch = "case ?ts of [] \<Rightarrow> True | e # _ \<Rightarrow> ?w < fst e"
  let ?q = "q\<lparr>tq_timers := insort (?w, t) ?ts\<rparr>"
  let ?r = "if ?ch then resetTimerfd (tm_expiration tm) ?q else ?q"
  have "(?w, t) \<notin> set ?ts" using assms(4) by force
  then have "timer_insert t q = Done (?ch, ?q)" using assms(3) by (simp add: timer_insert_def Let_def)
  then have "addTimerInLoop t q = Done ?r" using assms(3) by (simp add: addTimerInLoop_def)
  moreover have "tq_inv ?q" using insert_ok(2) [OF assms(1,3,4,5)] .
  then have "tq_inv ?r" by (simp add: resetTimerfd_def tq_inv_def)
  moreover have "armed ?r"
    using assms(2,6) by (cases ?ts) (auto simp: armed_def positive_times_def resetTimerfd_def set_insort_key hd_insort)
  ultimately show ?thesis by (auto simp: resetTimerfd_def)
qed

text \<open>What the program's callbacks may do to the timers, also at the time of the next event.\<close>

definition good_intervals :: "timestamp \<Rightarrow> timer_queue \<Rightarrow> bool" where
  "good_intervals now q \<longleftrightarrow> (\<forall>t tm. tq_heap q t = Some tm \<longrightarrow> tm_repeat tm \<longrightarrow>
     (\<exists>x. addTime now (tm_interval tm) = Some x \<and> 0 < sint x))"

definition good_effect :: "timestamp \<Rightarrow> (nat \<Rightarrow> timer_queue \<Rightarrow> timer_queue) \<Rightarrow> bool" where
  "good_effect now effect \<longleftrightarrow> adds_timers effect \<and>
     (\<forall>cb q. tq_inv q \<longrightarrow> armed q \<longrightarrow> armed (effect cb q)) \<and>
     (\<forall>cb q. tq_inv q \<longrightarrow> positive_times q \<longrightarrow> positive_times (effect cb q)) \<and>
     (\<forall>cb q. good_intervals now q \<longrightarrow> good_intervals now (effect cb q))"

lemma good_effectD:
  assumes "good_effect now effect" "tq_inv q"
  shows "tq_inv (effect cb q)" "armed q \<Longrightarrow> armed (effect cb q)" "good_intervals now q \<Longrightarrow> good_intervals now (effect cb q)"
    "tq_heap q \<subseteq>\<^sub>m tq_heap (effect cb q)" "set (tq_timers q) \<subseteq> set (tq_timers (effect cb q))"
    "snd ` set (tq_timers (effect cb q)) \<subseteq> snd ` set (tq_timers q) \<union> - dom (tq_heap q)"
    "positive_times q \<Longrightarrow> positive_times (effect cb q)"
  using assms unfolding good_effect_def adds_timers_def by blast+

section \<open>Queued timers\<close>

text \<open>A timer whose addition is queued is there, and not yet among the timers.\<close>

definition queued_ok :: "timer_queue \<Rightarrow> job list \<Rightarrow> bool" where
  "queued_ok q js \<longleftrightarrow> distinct (filter (\<lambda>j. \<exists>t. j = AddTimer t) js) \<and>
     (\<forall>t. AddTimer t \<in> set js \<longrightarrow> t \<notin> snd ` set (tq_timers q) \<and> t < UINTPTR_MAX \<and>
       (\<exists>tm. tq_heap q t = Some tm \<and> 0 < sint (tm_expiration tm)))"

lemma queued_after:
  assumes "queued_ok q js" "tq_heap q \<subseteq>\<^sub>m tq_heap q'"
    and "snd ` set (tq_timers q') \<subseteq> snd ` set (tq_timers q) \<union> - dom (tq_heap q)"
  shows "queued_ok q' js"
  unfolding queued_ok_def
proof (intro conjI allI impI)
  fix t assume t: "AddTimer t \<in> set js"
  with assms(1) obtain tm where tm: "tq_heap q t = Some tm" "0 < sint (tm_expiration tm)" "t \<notin> snd ` set (tq_timers q)" "t < UINTPTR_MAX"
    by (auto simp: queued_ok_def)
  then show "t \<notin> snd ` set (tq_timers q')" "t < UINTPTR_MAX" using assms(3) by auto
  show "\<exists>tm. tq_heap q' t = Some tm \<and> 0 < sint (tm_expiration tm)" using assms(2) tm by (force simp: map_le_def)
qed (use assms(1) in \<open>simp add: queued_ok_def\<close>)

lemma run_jobs_ok:
  assumes "good_effect now effect"
  shows "tq_inv q \<Longrightarrow> armed q \<Longrightarrow> good_intervals now q \<Longrightarrow> queued_ok q js \<Longrightarrow>
    \<exists>q'. run_jobs effect js q = Done q' \<and> tq_inv q' \<and> armed q' \<and> good_intervals now q' \<and> tq_heap q \<subseteq>\<^sub>m tq_heap q' \<and>
      set (tq_timers q) \<subseteq> set (tq_timers q') \<and>
      (\<forall>t tm. AddTimer t \<in> set js \<longrightarrow> tq_heap q t = Some tm \<longrightarrow> (sint (tm_expiration tm), t) \<in> set (tq_timers q'))"
proof (induction js arbitrary: q)
  case (Cons j js)
  show ?case
  proof (cases j)
    case (AddTimer t)
    from Cons.prems(4) AddTimer obtain tm where tm: "tq_heap q t = Some tm" "t \<notin> snd ` set (tq_timers q)" "t < UINTPTR_MAX"
      "0 < sint (tm_expiration tm)" by (auto simp: queued_ok_def)
    from addTimerInLoop_ok [OF Cons.prems(1,2) tm] obtain r where
      r: "addTimerInLoop t q = Done r" "tq_inv r" "armed r" "tq_heap r = tq_heap q"
        "tq_timers r = insort (sint (tm_expiration tm), t) (tq_timers q)" by blast
    have "good_intervals now r" using Cons.prems(3) r(4) by (simp add: good_intervals_def)
    moreover have "queued_ok r js" using Cons.prems(4) AddTimer r(4,5) by (auto simp: queued_ok_def set_insort_key)
    ultimately obtain q' where q': "run_jobs effect js r = Done q'" "tq_inv q'" "armed q'" "good_intervals now q'"
      "tq_heap r \<subseteq>\<^sub>m tq_heap q'" "set (tq_timers r) \<subseteq> set (tq_timers q')"
      "\<forall>t tm. AddTimer t \<in> set js \<longrightarrow> tq_heap r t = Some tm \<longrightarrow> (sint (tm_expiration tm), t) \<in> set (tq_timers q')"
      using Cons.IH [OF r(2,3)] by blast
    then show ?thesis using AddTimer r(1,4,5) tm(1) by (auto simp: set_insort_key)
  next
    case (UserJob n)
    let ?r = "effect n q"
    note good = good_effectD [OF assms Cons.prems(1), of n]
    have "queued_ok q js" using Cons.prems(4) UserJob by (auto simp: queued_ok_def)
    then have "queued_ok ?r js" using good(4,6) by (rule queued_after)
    then obtain q' where q': "run_jobs effect js ?r = Done q'" "tq_inv q'" "armed q'" "good_intervals now q'"
      "tq_heap ?r \<subseteq>\<^sub>m tq_heap q'" "set (tq_timers ?r) \<subseteq> set (tq_timers q')"
      "\<forall>t tm. AddTimer t \<in> set js \<longrightarrow> tq_heap ?r t = Some tm \<longrightarrow> (sint (tm_expiration tm), t) \<in> set (tq_timers q')"
      using Cons.IH [OF good(1) good(2) [OF Cons.prems(2)] good(3) [OF Cons.prems(3)]] by blast
    have "tq_heap q \<subseteq>\<^sub>m tq_heap q'" using good(4) q'(5) by (rule map_le_trans)
    moreover have "tq_heap ?r t = Some tm" if "tq_heap q t = Some tm" for t tm using good(4) that by (force simp: map_le_def)
    ultimately show ?thesis using UserJob q' good(5) by auto
  qed
qed simp

section \<open>An event of the timer descriptor\<close>

lemma subset_steps: "A \<subseteq> B \<union> C \<Longrightarrow> B \<subseteq> D \<union> E \<Longrightarrow> C \<subseteq> E \<Longrightarrow> A \<subseteq> D \<union> E"
  and disjoint_steps: "A \<subseteq> B \<union> (- D) \<Longrightarrow> F \<inter> B = {} \<Longrightarrow> F \<subseteq> D \<Longrightarrow> F \<inter> A = {}"
  by blast+

lemma run_timers_good:
  assumes "good_effect now effect"
  shows "run_timers effect es q = Done (cbs, q') \<Longrightarrow> tq_inv q \<Longrightarrow> positive_times q \<Longrightarrow> good_intervals now q \<Longrightarrow>
    tq_inv q' \<and> positive_times q' \<and> good_intervals now q' \<and> tq_heap q \<subseteq>\<^sub>m tq_heap q' \<and>
    snd ` set (tq_timers q') \<subseteq> snd ` set (tq_timers q) \<union> - dom (tq_heap q)"
proof (induction es arbitrary: q cbs)
  case (Cons e es)
  obtain w t where e: "e = (w, t)" by fastforce
  with Cons.prems(1) obtain tm cbs' where tm: "tq_heap q t = Some tm" "run_timers effect es (effect (tm_callback tm) q) = Done (cbs', q')"
    by (auto split: option.splits)
  let ?r = "effect (tm_callback tm) q"
  note good = good_effectD [OF assms Cons.prems(2), of "tm_callback tm"]
  have ih: "tq_inv q' \<and> positive_times q' \<and> good_intervals now q' \<and> tq_heap ?r \<subseteq>\<^sub>m tq_heap q' \<and>
    snd ` set (tq_timers q') \<subseteq> snd ` set (tq_timers ?r) \<union> - dom (tq_heap ?r)"
    using Cons.IH [OF tm(2) good(1) good(7) [OF Cons.prems(3)] good(3) [OF Cons.prems(4)]] .
  have "tq_heap q \<subseteq>\<^sub>m tq_heap q'" using good(4) ih by (metis map_le_trans)
  moreover have "- dom (tq_heap ?r) \<subseteq> - dom (tq_heap q)" using map_le_implies_dom_le [OF good(4)] by blast
  then have "snd ` set (tq_timers q') \<subseteq> snd ` set (tq_timers q) \<union> - dom (tq_heap q)"
    by (rule subset_steps [OF ih [THEN conjunct2, THEN conjunct2, THEN conjunct2, THEN conjunct2] good(6)])
  ultimately show ?case using ih by simp
qed simp

lemma tq_reset_armed:
  assumes "tq_reset now es q = Done q'" "tq_inv q'" "positive_times q'"
  shows "armed q'"
proof -
  obtain r where r: "reset_entries now es q = Done r" using assms(1) by (auto simp: tq_reset_def)
  show ?thesis
  proof (cases "tq_timers r")
    case Nil
    then show ?thesis using assms r by (auto simp: tq_reset_def armed_def Let_def resetTimerfd_def split: if_splits)
  next
    case (Cons e es')
    obtain w t where e: "e = (w, t)" by fastforce
    have same: "tq_timers q' = tq_timers r" "tq_heap q' = tq_heap r"
      using assms(1) r by (auto simp: tq_reset_def Let_def resetTimerfd_def split: if_splits)
    then obtain tm where tm: "tq_heap r t = Some tm" "w = sint (tm_expiration tm)" "0 < w"
      using assms(2,3) Cons e by (auto simp: tq_inv_def positive_times_def)
    then have "valid_time (tm_expiration tm)" by (simp add: valid_time_def word_sless_alt)
    then show ?thesis
      using assms(1,3) r Cons e tm by (auto simp: tq_reset_def Let_def resetTimerfd_def armed_def)
  qed
qed

lemma timer_event_armed:
  assumes "good_effect now effect" "tq_inv q" "positive_times q" "good_intervals now q"
    and "timer_handleRead effect now q = Done (cbs, q')" "tq_inv q'"
  shows "armed q' \<and> good_intervals now q' \<and> (\<forall>t. t \<notin> snd ` set (tq_timers q) \<longrightarrow> tq_heap q t \<noteq> None \<longrightarrow>
    tq_heap q' t = tq_heap q t \<and> t \<notin> snd ` set (tq_timers q'))"
proof -
  let ?es = "filter (\<lambda>e. fst e \<le> sint now) (tq_timers q)"
  let ?q = "q\<lparr>tq_timers := filter (\<lambda>e. sint now < fst e) (tq_timers q)\<rparr>"
  obtain q1 where q1: "run_timers effect ?es ?q = Done (cbs, q1)" "tq_reset now ?es q1 = Done q'"
    using assms(5) by (auto simp: timer_handleRead_def getExpired_ok [OF assms(2)])
  have q: "tq_inv ?q" "positive_times ?q" "good_intervals now ?q"
    using assms(2-4) by (auto simp: tq_inv_def sorted_wrt_filter distinct_map_filter positive_times_def good_intervals_def)
  note ran = run_timers_good [OF assms(1) q1(1) q]
  have "due now ?es q1"
    unfolding due_def
  proof (intro conjI)
    show "distinct (map snd ?es)" using assms(2) by (auto simp: tq_inv_def distinct_map_filter)
    have dis: "snd ` set ?es \<inter> snd ` set (tq_timers ?q) = {}"
    proof (rule ccontr)
      assume "snd ` set ?es \<inter> snd ` set (tq_timers ?q) \<noteq> {}"
      then obtain t w w' where t: "(w, t) \<in> set (tq_timers q)" "(w', t) \<in> set (tq_timers q)" "w \<le> sint now" "sint now < w'" by auto
      moreover have "inj_on snd (set (tq_timers q))" using assms(2) by (simp add: tq_inv_def distinct_map)
      ultimately show False using inj_onD [of snd "set (tq_timers q)" "(w, t)" "(w', t)"] by simp
    qed
    have "snd ` set ?es \<subseteq> dom (tq_heap ?q)" using assms(2) by (force simp: tq_inv_def)
    then show "snd ` set ?es \<inter> snd ` set (tq_timers q1) = {}"
      by (rule disjoint_steps [OF ran [THEN conjunct2, THEN conjunct2, THEN conjunct2, THEN conjunct2] dis])
    show "\<forall>(w, t)\<in>set ?es. t < UINTPTR_MAX \<and>
        (\<exists>tm. tq_heap q1 t = Some tm \<and> (tm_repeat tm \<longrightarrow> addTime now (tm_interval tm) \<noteq> None))"
    proof clarify
      fix w t assume "(w, t) \<in> set ?es"
      then obtain tm where "tq_heap q t = Some tm" "t < UINTPTR_MAX" using assms(2) by (auto simp: tq_inv_def)
      moreover from this have "tq_heap q1 t = Some tm" using ran by (force simp: map_le_def)
      ultimately show "t < UINTPTR_MAX \<and> (\<exists>tm. tq_heap q1 t = Some tm \<and> (tm_repeat tm \<longrightarrow> addTime now (tm_interval tm) \<noteq> None))"
        using assms(4) by (force simp: good_intervals_def)
    qed
  qed
  from tq_reset_ok [OF _ this] ran q1(2) have re: "rearmed now ?es q1 q'" by auto
  have sub: "snd ` set (tq_timers q') \<subseteq> snd ` set (tq_timers q1) \<union> snd ` set ?es"
    using re unfolding rearmed_def by (elim conjE)
  have "\<forall>t. t \<notin> snd ` set ?es \<longrightarrow> tq_heap q' t = tq_heap q1 t" using re unfolding rearmed_def by (elim conjE)
  then have same: "tq_heap q' t = tq_heap q1 t" if "t \<notin> snd ` set ?es" for t using that by blast
  have known: "\<exists>um. tq_heap q1 t = Some um" if "t \<in> snd ` set ?es" for t
  proof -
    from that obtain v where "(v, t) \<in> set (tq_timers q)" by force
    then obtain um where "tq_heap q t = Some um" using assms(2) by (force simp: tq_inv_def)
    then show ?thesis using ran by (force simp: map_le_def)
  qed
  have "positive_times q'"
    unfolding positive_times_def
  proof
    fix e assume "e \<in> set (tq_timers q')"
    moreover obtain w t where e: "e = (w, t)" by fastforce
    ultimately obtain tm where tm: "tq_heap q' t = Some tm" "w = sint (tm_expiration tm)" using assms(6) by (auto simp: tq_inv_def)
    show "0 < fst e"
    proof (cases "t \<in> snd ` set ?es")
      case True
      then obtain um where um: "tq_heap q1 t = Some um" using known by blast
      then have "tq_heap q' t = (if tm_repeat um then Some (um\<lparr>tm_expiration := next_time now um\<rparr>) else None)"
        using re True by (simp add: rearmed_def)
      moreover from this have "tm_repeat um" using tm(1) by (auto split: if_splits)
      moreover from this obtain x where "addTime now (tm_interval um) = Some x" "0 < sint x"
        using ran um by (force simp: good_intervals_def)
      ultimately show ?thesis using tm e by (auto simp: next_time_def)
    next
      case False
      have "tq_heap q' t = tq_heap q1 t" using same False .
      then have "tq_heap q1 t = Some tm" using tm(1) by simp
      have "t \<in> snd ` set (tq_timers q')" using imageI [OF \<open>e \<in> set (tq_timers q')\<close>, of snd] e by simp
      then have "t \<in> snd ` set (tq_timers q1)" using subsetD [OF sub] False by (metis UnE)
      then obtain w1 where "(w1, t) \<in> set (tq_timers q1)" by auto
      then show ?thesis using ran \<open>tq_heap q1 t = Some tm\<close> tm(2) e by (force simp: tq_inv_def positive_times_def)
    qed
  qed
  then have "armed q'" using tq_reset_armed [OF q1(2) assms(6)] by blast
  moreover have "good_intervals now q'"
    unfolding good_intervals_def
  proof (intro allI impI)
    fix t tm assume t: "tq_heap q' t = Some tm" "tm_repeat tm"
    show "\<exists>x. addTime now (tm_interval tm) = Some x \<and> 0 < sint x"
    proof (cases "t \<in> snd ` set ?es")
      case True
      then obtain um where um: "tq_heap q1 t = Some um" using known by blast
      then have "tq_heap q' t = (if tm_repeat um then Some (um\<lparr>tm_expiration := next_time now um\<rparr>) else None)"
        using re True by (simp add: rearmed_def)
      then have "tm_interval tm = tm_interval um" "tm_repeat um" using t(1) by (auto split: if_splits)
      then show ?thesis using ran um by (force simp: good_intervals_def)
    next
      case False
      then show ?thesis using ran t same unfolding good_intervals_def by metis
    qed
  qed
  moreover have "tq_heap q' t = tq_heap q t \<and> t \<notin> snd ` set (tq_timers q')"
    if "t \<notin> snd ` set (tq_timers q)" "tq_heap q t \<noteq> None" for t
  proof -
    have t: "t \<notin> snd ` set ?es" using that(1) by auto
    have "t \<in> dom (tq_heap ?q)" "t \<notin> snd ` set (tq_timers ?q)" using that by auto
    then have "t \<notin> snd ` set (tq_timers q1)" using ran [THEN conjunct2, THEN conjunct2, THEN conjunct2, THEN conjunct2, THEN subsetD, of t] by auto
    moreover have "tq_heap q1 t = tq_heap q t" using ran that(2) by (force simp: map_le_def)
    ultimately show ?thesis using same [OF t] subsetD [OF sub] t by (metis UnE)
  qed
  ultimately show ?thesis by blast
qed

section \<open>From \<open>runAfter\<close> to the callback\<close>

definition el_inv :: "timestamp \<Rightarrow> event_loop \<Rightarrow> bool" where
  "el_inv now el \<longleftrightarrow> tq_inv (el_timers el) \<and> armed (el_timers el) \<and> good_intervals now (el_timers el) \<and>
     queued_ok (el_timers el) (lp_pending (el_jobs el)) \<and>
     (\<forall>c\<in>{timer_channel, wakeup_channel}. ch_callbacks (p_store (el_poller el) c) = [ReadCallback])"

lemma event_loop_init_inv: "el_inv now (event_loop_init weakupFd timerfd)"
  by (simp add: el_inv_def event_loop_init_def)
    (simp add: queue_init_def tq_inv_def armed_def positive_times_def good_intervals_def queued_ok_def loop_init_def poller_init_def
      enableReading_def with_events_def updateChannel_def set_channel_def set_callback_def channel_init_def poller_update_def
      Let_def timer_channel_def wakeup_channel_def New_def isNoneEvent_def)

text \<open>Functors that run in the loop's thread insert their timers at once and queue only others like them.\<close>

definition user_spawn :: "(job \<Rightarrow> job list) \<Rightarrow> bool" where
  "user_spawn spawn \<longleftrightarrow> (\<forall>j t. AddTimer t \<notin> set (spawn j))"

lemma user_spawn_queued: "user_spawn spawn \<Longrightarrow> queued_ok q (concat (map spawn js))"
proof -
  assume "user_spawn spawn"
  then have none: "AddTimer t \<notin> set (concat (map spawn js))" for t by (auto simp: user_spawn_def)
  then have "filter (\<lambda>j. \<exists>t. j = AddTimer t) (concat (map spawn js)) = []" by (auto simp: filter_empty_conv)
  then show ?thesis using none unfolding queued_ok_def by simp
qed

lemma el_doPending_ok:
  assumes "good_effect now effect" "user_spawn spawn" "el_inv now el"
  shows "\<exists>el'. el_doPending effect spawn el = Done el' \<and> el_inv now el' \<and>
    tq_heap (el_timers el) \<subseteq>\<^sub>m tq_heap (el_timers el') \<and>
    (\<forall>t tm. AddTimer t \<in> set (lp_pending (el_jobs el)) \<longrightarrow> tq_heap (el_timers el) t = Some tm \<longrightarrow>
      (sint (tm_expiration tm), t) \<in> set (tq_timers (el_timers el')))"
proof -
  obtain q' where q': "run_jobs effect (lp_pending (el_jobs el)) (el_timers el) = Done q'" "tq_inv q'" "armed q'"
    "good_intervals now q'" "tq_heap (el_timers el) \<subseteq>\<^sub>m tq_heap q'"
    "\<forall>t tm. AddTimer t \<in> set (lp_pending (el_jobs el)) \<longrightarrow> tq_heap (el_timers el) t = Some tm \<longrightarrow>
      (sint (tm_expiration tm), t) \<in> set (tq_timers q')"
    using run_jobs_ok [OF assms(1), of "el_timers el" "lp_pending (el_jobs el)"] assms(3) unfolding el_inv_def by blast
  have "queued_ok q' (lp_pending (doPendingFunctor spawn (el_jobs el)))"
    by (simp add: doPending_ok user_spawn_queued [OF assms(2)])
  then show ?thesis using q' assms(3) by (simp add: el_doPending_def el_inv_def)
qed

lemma handle_readable:
  "ch_callbacks ch = [ReadCallback] \<Longrightarrow> ch_current ch = POLLIN \<Longrightarrow> handleEvent ch = [ReadCallback]"
  by (simp add: handleEvent_def Let_def POLLIN_def POLLHUP_def POLLERR_def POLLNVAL_def POLLPRI_def POLLRDHUP_def POLLOUT_def)

lemma poll_one:
  "\<exists>p'. poll [(ev, c)] p = ([c], p') \<and> p_store p' = (p_store p)(c := (p_store p c)\<lparr>ch_current := ev\<rparr>)"
  by (simp add: poll_def set_channel_def)

text \<open>An iteration for one readable descriptor.\<close>

lemma iteration_one:
  assumes "el_inv now el" "c \<in> {timer_channel, wakeup_channel}"
  shows "\<exists>p. el_iteration effect spawn now' [(POLLIN, c)] el =
      obind (el_callback effect now' c ReadCallback (el\<lparr>el_poller := p\<rparr>)) (\<lambda>(ran, el).
        obind (el_doPending effect spawn el) (\<lambda>el. Done (ran, el))) \<and> el_inv now (el\<lparr>el_poller := p\<rparr>)"
proof -
  obtain p where p: "poll [(POLLIN, c)] (el_poller el) = ([c], p)"
    "p_store p = (p_store (el_poller el))(c := (p_store (el_poller el) c)\<lparr>ch_current := POLLIN\<rparr>)"
    using poll_one by blast
  have "handleEvent (p_store p c) = [ReadCallback]"
    by (rule handle_readable) (use p(2) assms in \<open>auto simp: el_inv_def\<close>)
  moreover have "el_inv now (el\<lparr>el_poller := p\<rparr>)" using assms(1) p(2) by (auto simp: el_inv_def)
  ultimately show ?thesis
    by (intro exI [of _ p]) (simp add: el_iteration_def p(1) obind_assoc split_def)
qed

lemma wakeup_iteration:
  assumes "good_effect now effect" "user_spawn spawn" "el_inv now el"
  shows "\<exists>el'. el_iteration effect spawn now' [(POLLIN, wakeup_channel)] el = Done ([], el') \<and> el_inv now el' \<and>
    tq_heap (el_timers el) \<subseteq>\<^sub>m tq_heap (el_timers el') \<and>
    (\<forall>t tm. AddTimer t \<in> set (lp_pending (el_jobs el)) \<longrightarrow> tq_heap (el_timers el) t = Some tm \<longrightarrow>
      (sint (tm_expiration tm), t) \<in> set (tq_timers (el_timers el')))"
proof -
  obtain p where p: "el_iteration effect spawn now' [(POLLIN, wakeup_channel)] el =
      obind (el_callback effect now' wakeup_channel ReadCallback (el\<lparr>el_poller := p\<rparr>)) (\<lambda>(ran, el).
        obind (el_doPending effect spawn el) (\<lambda>el. Done (ran, el)))" "el_inv now (el\<lparr>el_poller := p\<rparr>)"
    using iteration_one [OF assms(3)] by blast
  let ?el = "el\<lparr>el_poller := p, el_jobs := loop_handleRead (el_jobs el)\<rparr>"
  have "el_inv now ?el" using p(2) by (simp add: el_inv_def loop_handleRead_def)
  from el_doPending_ok [OF assms(1,2) this] obtain el' where el': "el_doPending effect spawn ?el = Done el'" "el_inv now el'"
    "tq_heap (el_timers el) \<subseteq>\<^sub>m tq_heap (el_timers el')"
    "\<forall>t tm. AddTimer t \<in> set (lp_pending (el_jobs el)) \<longrightarrow> tq_heap (el_timers el) t = Some tm \<longrightarrow>
      (sint (tm_expiration tm), t) \<in> set (tq_timers (el_timers el'))"
    by (auto simp: loop_handleRead_def)
  then show ?thesis
    using p(1) by (simp add: el_callback_def wakeup_channel_def timer_channel_def)
qed

lemma timer_iteration:
  assumes "good_effect now effect" "user_spawn spawn" "el_inv now el"
    and "(w, t) \<in> set (tq_timers (el_timers el))" "w \<le> sint now" "tq_heap (el_timers el) t = Some tm"
  shows "\<exists>el' ran. el_iteration effect spawn now [(POLLIN, timer_channel)] el = Done (ran, el') \<and> el_inv now el' \<and>
    tm_callback tm \<in> set ran"
proof -
  let ?q = "el_timers el"
  have q: "tq_inv ?q" "armed ?q" "good_intervals now ?q" "queued_ok ?q (lp_pending (el_jobs el))"
    using assms(3) by (simp_all add: el_inv_def)
  obtain p where p: "el_iteration effect spawn now [(POLLIN, timer_channel)] el =
      obind (el_callback effect now timer_channel ReadCallback (el\<lparr>el_poller := p\<rparr>)) (\<lambda>(ran, el).
        obind (el_doPending effect spawn el) (\<lambda>el. Done (ran, el)))" "el_inv now (el\<lparr>el_poller := p\<rparr>)"
    using iteration_one [OF assms(3)] by blast
  let ?ran = "map (\<lambda>e. tm_callback (the (tq_heap ?q (snd e)))) (filter (\<lambda>e. fst e \<le> sint now) (tq_timers ?q))"
  have eff: "adds_timers effect" using assms(1) by (simp add: good_effect_def)
  have "\<forall>t tm. tq_heap ?q t = Some tm \<longrightarrow> tm_repeat tm \<longrightarrow> addTime now (tm_interval tm) \<noteq> None"
    using q(3) by (force simp: good_intervals_def)
  from timer_event [OF eff q(1) this] obtain q' where q': "timer_handleRead effect now ?q = Done (?ran, q')" "tq_inv q'" by auto
  have pos: "positive_times ?q" using q(2) by (simp add: armed_def)
  note after = timer_event_armed [OF assms(1) q(1) pos q(3) q']
  have "queued_ok q' (lp_pending (el_jobs el))"
    unfolding queued_ok_def
  proof (intro conjI allI impI)
    fix u assume "AddTimer u \<in> set (lp_pending (el_jobs el))"
    then obtain um where u: "u \<notin> snd ` set (tq_timers ?q)" "tq_heap ?q u = Some um" "0 < sint (tm_expiration um)" "u < UINTPTR_MAX"
      using q(4) unfolding queued_ok_def by blast
    then show "u \<notin> snd ` set (tq_timers q')" "u < UINTPTR_MAX" "\<exists>tm. tq_heap q' u = Some tm \<and> 0 < sint (tm_expiration tm)"
      using after by auto
  qed (use q(4) in \<open>simp add: queued_ok_def\<close>)
  then have inv: "el_inv now (el\<lparr>el_poller := p, el_timers := q'\<rparr>)"
    using p(2) q'(2) after by (simp add: el_inv_def)
  have "tm_callback tm \<in> set ?ran" using assms(4-6) by force
  moreover obtain el' where "el_doPending effect spawn (el\<lparr>el_poller := p, el_timers := q'\<rparr>) = Done el'" "el_inv now el'"
    using el_doPending_ok [OF assms(1,2) inv] by blast
  ultimately show ?thesis
    using p(1) q'(1) by (intro exI [of _ el'] exI [of _ ?ran]) (simp add: el_callback_def)
qed

text \<open>
  The timer that another thread asks for: the loop is woken and inserts it, its descriptor is then armed
  for a time that is not later, and the event of the descriptor at that time or later runs its callback.
\<close>

lemma runAfter_ok:
  assumes "good_effect later effect" "user_spawn spawn" "el_inv later el"
    and "tq_heap (el_timers el) t = None" "t < UINTPTR_MAX"
    and "addTime now delayTime = Some w" "0 < sint w" "sint w \<le> sint later"
  shows "\<exists>el1 el2 el3 ran x. runAfter False t cb now delayTime el = Done el1 \<and> 0 < lp_wakes (el_jobs el1) \<and>
    el_iteration effect spawn soon [(POLLIN, wakeup_channel)] el1 = Done ([], el2) \<and>
    tq_armed (el_timers el2) = Some x \<and> sint x \<le> sint w \<and>
    el_iteration effect spawn later [(POLLIN, timer_channel)] el2 = Done (ran, el3) \<and> cb \<in> set ran"
proof -
  let ?tm = "timer_init cb w (DFin False 0 0)"
  let ?q = "(el_timers el)\<lparr>tq_heap := (tq_heap (el_timers el))(t \<mapsto> ?tm)\<rparr>"
  let ?el = "el\<lparr>el_timers := ?q, el_jobs := queueInLoop False (AddTimer t) (el_jobs el)\<rparr>"
  have run: "runAfter False t cb now delayTime el = Done ?el"
    using assms(6) by (simp add: runAfter_def runTimer_def el_addTimer_def)
  have wakes: "0 < lp_wakes (el_jobs ?el)" by (simp add: queue_defs)
  note inv = assms(3) [unfolded el_inv_def]
  have new: "t \<notin> snd ` set (tq_timers (el_timers el))" using inv assms(4) by (force simp: tq_inv_def)
  have "tq_inv ?q" using inv new unfolding tq_inv_def by (force split: prod.splits)
  moreover have "armed ?q" using inv by (simp add: armed_def positive_times_def)
  moreover have "good_intervals later ?q"
    using inv by (auto simp: good_intervals_def timer_init_def split: if_splits)
  moreover have fresh: "AddTimer t \<notin> set (lp_pending (el_jobs el))" using inv assms(4) by (auto simp: queued_ok_def)
  have "queued_ok ?q (lp_pending (el_jobs ?el))"
    using inv new fresh assms(5,7) unfolding queued_ok_def by (auto simp: timer_init_def)
  ultimately have "el_inv later ?el" using inv by (simp add: el_inv_def)
  from wakeup_iteration [OF assms(1,2) this, of soon] obtain el2 where
    el2: "el_iteration effect spawn soon [(POLLIN, wakeup_channel)] ?el = Done ([], el2)" "el_inv later el2"
      "tq_heap ?q \<subseteq>\<^sub>m tq_heap (el_timers el2)" "(sint (tm_expiration ?tm), t) \<in> set (tq_timers (el_timers el2))"
    by auto
  have mem: "(sint w, t) \<in> set (tq_timers (el_timers el2))" using el2(4) by (simp add: timer_init_def)
  have heap: "tq_heap (el_timers el2) t = Some ?tm" using el2(3) by (force simp: map_le_def)
  have "armed (el_timers el2)" "sorted (tq_timers (el_timers el2))" using el2(2) by (auto simp: el_inv_def tq_inv_def)
  then obtain x where x: "tq_armed (el_timers el2) = Some x" "sint x = fst (hd (tq_timers (el_timers el2)))"
    using mem by (auto simp: armed_def)
  have "hd (tq_timers (el_timers el2)) \<le> (sint w, t)"
    using mem \<open>sorted (tq_timers (el_timers el2))\<close> by (cases "tq_timers (el_timers el2)") auto
  then have "sint x \<le> sint w" using x(2) by (cases "hd (tq_timers (el_timers el2))") auto
  moreover obtain el3 ran where "el_iteration effect spawn later [(POLLIN, timer_channel)] el2 = Done (ran, el3)" "cb \<in> set ran"
    using timer_iteration [OF assms(1,2) el2(2) mem assms(8) heap] by (auto simp: timer_init_def)
  ultimately show ?thesis using run wakes el2(1) x(1) by blast
qed

section \<open>A second\<close>

text \<open>The arithmetic of \<open>addTime\<close> for 1.0, whose significand is 2 to the 52.\<close>

lemma floor_log2_micros:
  "floor_log2 1000000 (Suc 0) = 19" "floor_log2 38685626227668133590597632000000 38685626227668133590597632 = 19"
  by (simp_all add: floor_log2_def scale2_def run_simps)

lemma double_of_micros: "double_of_int 1000000 = DFin False 8589934592000000 (- 33)"
  by (simp add: double_of_int_def round_ratio_def floor_log2_micros scale2_def div_round_def Let_def)

lemma one_second_product:
  "double_mul (DFin False 4503599627370496 (- 52)) (DFin False 8589934592000000 (- 33)) = DFin False 8589934592000000 (- 33)"
  by (simp add: ratio2_def round_ratio_def floor_log2_micros scale2_def div_round_def Let_def)

lemma one_second: "addTime t (DFin False (2 ^ 52) (- 52)) = Some (t + 1000000)"
  by (simp add: addTime_def kMicroSecondsPerSecond_def double_of_micros one_second_product del: double_mul.simps)
    (simp add: ratio2_def)

end
