(* ===== verification/NetThread.thy ===== *)
theory NetThread
  imports Prelude
begin

text \<open>
  \<open>net/ThreadEventLoop\<close>: a thread with a loop on its stack, \<open>startLoop\<close>, which waits on a condition until
  the loop is there, and the destructor, which quits the loop and joins the thread. The steps of the two
  threads interleave; what is done with the mutex held is one step. Of the loop itself only \<open>quit_\<close> is here,
  with the assignment at the beginning of \<open>EventLoop::loop\<close>; \<open>NetLoop\<close> has the rest.
\<close>

text \<open>
  The owner: before \<open>startLoop\<close>, at the test of its wait, waiting, after it, in the destructor past its test of
  \<open>loop_\<close>, in \<open>join\<close>, and destructed. The thread: not created, created, past the constructor of its
  loop, past the signal, in \<open>EventLoop::loop\<close>, out of it, and ended.
\<close>

datatype owner_place = Fresh | Checking | Sleeping | Started | Quitting | Joining | Destructed

datatype loop_place = NotCreated | Created | HasLoop | Published | Looping | Stopped | LoopEnded

text \<open>\<open>te_loop\<close> is whether \<open>loop_\<close> is set; the loop is alive from its constructor to the thread's end.\<close>

record thread_loop =
  te_owner :: owner_place
  te_thread :: loop_place
  te_loop :: bool
  te_quit :: bool

definition thread_loop_init :: thread_loop where
  "thread_loop_init = \<lparr>te_owner = Fresh, te_thread = NotCreated, te_loop = False, te_quit = False\<rparr>"

definition te_alive :: "thread_loop \<Rightarrow> bool" where
  "te_alive t \<longleftrightarrow> te_thread t \<in> {HasLoop, Published, Looping, Stopped}"

text \<open>\<open>startLoop\<close> up to its wait, the test of the wait, and the destructor's test.\<close>

definition te_start :: "thread_loop \<Rightarrow> thread_loop" where
  "te_start t = t\<lparr>te_owner := Checking, te_thread := Created\<rparr>"

definition te_check :: "thread_loop \<Rightarrow> thread_loop" where
  "te_check t = t\<lparr>te_owner := (if te_loop t then Started else Sleeping)\<rparr>"

definition te_destruct :: "thread_loop \<Rightarrow> thread_loop" where
  "te_destruct t = t\<lparr>te_owner := (if te_loop t then Quitting else Destructed)\<rparr>"

definition te_call_quit :: "thread_loop \<Rightarrow> thread_loop" where
  "te_call_quit t = t\<lparr>te_owner := Joining, te_quit := True\<rparr>"

text \<open>\<open>threadFunc\<close>.\<close>

definition te_make :: "thread_loop \<Rightarrow> thread_loop" where
  "te_make t = t\<lparr>te_thread := HasLoop, te_quit := False\<rparr>"

definition te_publish :: "thread_loop \<Rightarrow> thread_loop" where
  "te_publish t = t\<lparr>te_thread := Published, te_loop := True,
     te_owner := (if te_owner t = Sleeping then Checking else te_owner t)\<rparr>"

definition te_enter :: "thread_loop \<Rightarrow> thread_loop" where
  "te_enter t = t\<lparr>te_thread := Looping, te_quit := False\<rparr>"

definition te_end :: "thread_loop \<Rightarrow> thread_loop" where
  "te_end t = t\<lparr>te_thread := LoopEnded, te_loop := False\<rparr>"

text \<open>
  A step is faulty when it calls the loop after the thread has ended and its stack is gone. The
  test at the head of the loop sees \<open>quit_\<close> after the poll at the latest. With \<open>others\<close> the owner has
  handed the loop on, and who has it may call \<open>quit\<close> too; with \<open>sp\<close> the condition may wake the owner
  without a signal.
\<close>

inductive te_step :: "bool \<Rightarrow> bool \<Rightarrow> thread_loop \<Rightarrow> bool \<Rightarrow> thread_loop \<Rightarrow> bool" for others sp where
  starts: "te_owner t = Fresh \<Longrightarrow> te_step others sp t False (te_start t)"
| checks: "te_owner t = Checking \<Longrightarrow> te_step others sp t False (te_check t)"
| te_spurious: "sp \<Longrightarrow> te_owner t = Sleeping \<Longrightarrow> te_step others sp t False (t\<lparr>te_owner := Checking\<rparr>)"
| destructs: "te_owner t \<in> {Fresh, Started} \<Longrightarrow> te_step others sp t False (te_destruct t)"
| calls_quit: "te_owner t = Quitting \<Longrightarrow> te_step others sp t (\<not> te_alive t) (te_call_quit t)"
| joins: "te_owner t = Joining \<Longrightarrow> te_thread t = LoopEnded \<Longrightarrow> te_step others sp t False (t\<lparr>te_owner := Destructed\<rparr>)"
| makes: "te_thread t = Created \<Longrightarrow> te_step others sp t False (te_make t)"
| publishes: "te_thread t = HasLoop \<Longrightarrow> te_step others sp t False (te_publish t)"
| enters: "te_thread t = Published \<Longrightarrow> te_step others sp t False (te_enter t)"
| leaves: "te_thread t = Looping \<Longrightarrow> te_quit t \<Longrightarrow> te_step others sp t False (t\<lparr>te_thread := Stopped\<rparr>)"
| ends: "te_thread t = Stopped \<Longrightarrow> te_step others sp t False (te_end t)"
| elsewhere: "others \<Longrightarrow> te_owner t \<in> {Started, Quitting, Joining} \<Longrightarrow> te_alive t \<Longrightarrow>
    te_step others sp t False (t\<lparr>te_quit := True\<rparr>)"

inductive_cases te_stepE: "te_step others sp t b t'"

text \<open>Any number of steps, and whether one was faulty.\<close>

inductive te_reach :: "bool \<Rightarrow> bool \<Rightarrow> thread_loop \<Rightarrow> bool \<Rightarrow> thread_loop \<Rightarrow> bool" for others sp where
  te_none: "te_reach others sp t False t"
| te_more: "te_reach others sp t f t' \<Longrightarrow> te_step others sp t' f' t'' \<Longrightarrow> te_reach others sp t (f \<or> f') t''"

text \<open>
  \<open>loop_\<close> is set exactly between the signal and the end of the thread; the owner sleeps only when the
  signal is still to come; it gets past the wait only with a loop that has been published.
\<close>

definition te_inv :: "thread_loop \<Rightarrow> bool" where
  "te_inv t \<longleftrightarrow>
     (te_loop t \<longleftrightarrow> te_thread t \<in> {Published, Looping, Stopped}) \<and>
     (te_owner t = Fresh \<longrightarrow> te_thread t = NotCreated) \<and>
     (te_thread t = NotCreated \<longrightarrow> te_owner t \<in> {Fresh, Destructed}) \<and>
     (te_owner t = Sleeping \<longrightarrow> te_thread t \<in> {Created, HasLoop}) \<and>
     (te_owner t = Checking \<longrightarrow> te_thread t \<in> {Created, HasLoop, Published, Looping} \<and> (te_thread t = Looping \<longrightarrow> \<not> te_quit t)) \<and>
     (te_owner t \<in> {Started, Quitting, Joining} \<longrightarrow> te_thread t \<in> {Published, Looping, Stopped, LoopEnded})"

lemma te_init_inv: "te_inv thread_loop_init"
  by (simp add: te_inv_def thread_loop_init_def)

lemmas te_ops = te_start_def te_check_def te_destruct_def te_call_quit_def te_make_def te_publish_def te_enter_def te_end_def

lemma te_step_inv: "te_step others sp t b t' \<Longrightarrow> te_inv t \<Longrightarrow> te_inv t'"
  by (erule te_stepE; cases "te_owner t"; cases "te_thread t"; simp add: te_inv_def te_ops te_alive_def)

lemma te_reach_inv: "te_reach others sp t f t' \<Longrightarrow> te_inv t \<Longrightarrow> te_inv t'"
  by (induction rule: te_reach.induct) (auto intro: te_step_inv)

lemmas te_reached = te_reach_inv [OF _ te_init_inv]

lemma te_one: "te_step others sp t b t' \<Longrightarrow> te_reach others sp t b t'"
  using te_more [OF te_none, of others sp t b t'] by simp

lemma te_then: "te_reach others sp t f t' \<Longrightarrow> te_step others sp t' f' t'' \<Longrightarrow> g = (f \<or> f') \<Longrightarrow> te_reach others sp t g t''"
  by (simp add: te_more)

lemma step_to: "te_step others sp t b t' \<Longrightarrow> t' = t'' \<Longrightarrow> te_step others sp t b t''"
  by simp

lemma te_trans: "te_reach others sp t' g t'' \<Longrightarrow> te_reach others sp t f t' \<Longrightarrow> te_reach others sp t (f \<or> g) t''"
proof (induction rule: te_reach.induct)
  case (te_more a g b g' c)
  then show ?case using te_reach.te_more [of others sp t "f \<or> g" b g' c] by (simp add: disj_assoc)
qed simp

text \<open>
  While \<open>startLoop\<close> waits, every step that is no spurious wake-up brings its return nearer, and there is
  always one: the owner never sleeps with \<open>loop_\<close> set. \<open>te_rank\<close> counts the steps that are left.
\<close>

fun thread_rank :: "loop_place \<Rightarrow> nat" where
  "thread_rank Created = 3"
| "thread_rank HasLoop = 2"
| "thread_rank Published = 1"
| "thread_rank _ = 0"

definition te_rank :: "thread_loop \<Rightarrow> nat" where
  "te_rank t = 2 * thread_rank (te_thread t) + (if te_owner t = Checking then 1 else 0)"

definition te_waits :: "thread_loop \<Rightarrow> bool" where
  "te_waits t \<longleftrightarrow> te_owner t \<in> {Checking, Sleeping}"

lemma te_not_asleep: "te_inv t \<Longrightarrow> \<not> (te_owner t = Sleeping \<and> te_loop t)"
  by (cases "te_thread t") (auto simp: te_inv_def)

lemma te_goes_on:
  assumes "te_inv t" "te_waits t" "te_step others False t b t'"
  shows "\<not> b \<and> (te_owner t' = Started \<and> te_loop t' \<or> te_waits t' \<and> te_rank t' < te_rank t)"
  using assms(3,1,2)
  by (elim te_stepE; cases "te_owner t"; cases "te_thread t"; simp add: te_inv_def te_waits_def te_ops te_rank_def)

lemma te_enabled:
  assumes "te_inv t" "te_waits t"
  shows "\<exists>t'. te_step others False t False t'"
proof (cases "te_owner t = Checking")
  case True
  then show ?thesis by (blast intro: checks)
next
  case False
  with assms have "te_thread t \<in> {Created, HasLoop}" by (simp add: te_inv_def te_waits_def)
  then show ?thesis by (blast intro: makes publishes)
qed

lemma startLoop_returns:
  assumes "te_inv t" "te_waits t"
  shows "\<exists>t'. te_reach others False t False t' \<and> te_owner t' = Started \<and> te_loop t'"
  using assms
proof (induction "te_rank t" arbitrary: t rule: less_induct)
  case less
  obtain t1 where t1: "te_step others False t False t1" using te_enabled [OF less.prems] by blast
  from te_goes_on [OF less.prems t1]
  have "\<exists>t'. te_reach others False t1 False t' \<and> te_owner t' = Started \<and> te_loop t'"
    using less.hyps [of t1] te_step_inv [OF t1 less.prems(1)] te_none by blast
  then show ?case using te_trans [OF _ te_one [OF t1]] by fastforce
qed

text \<open>Without others that quit the loop, the destructor never calls a loop that is gone.\<close>

definition te_own_inv :: "thread_loop \<Rightarrow> bool" where
  "te_own_inv t \<longleftrightarrow> te_inv t \<and> (te_owner t \<in> {Started, Quitting} \<longrightarrow>
     te_thread t = Published \<or> te_thread t = Looping \<and> \<not> te_quit t)"

lemma own_inv: "te_step False sp t b t' \<Longrightarrow> te_own_inv t \<Longrightarrow> \<not> b \<and> te_own_inv t'"
  by (erule te_stepE; cases "te_owner t"; cases "te_thread t"; simp add: te_own_inv_def te_inv_def te_ops te_alive_def)

lemma own_reach: "te_reach False sp t f t' \<Longrightarrow> te_own_inv t \<Longrightarrow> \<not> f \<and> te_own_inv t'"
  by (induction rule: te_reach.induct) (auto dest: own_inv)

lemma own_init: "te_own_inv thread_loop_init"
  by (simp add: te_own_inv_def te_init_inv) (simp add: thread_loop_init_def)

text \<open>A \<open>quit\<close> the loop has seen ends the thread, and the destructor with it.\<close>

lemma te_joins:
  assumes "te_owner t = Joining" "te_thread t = Looping" "te_quit t"
  shows "\<exists>t'. te_reach False sp t False t' \<and> te_owner t' = Destructed"
proof -
  have r: "te_reach False sp t False (t\<lparr>te_thread := Stopped\<rparr>)" using te_one [OF leaves] assms by blast
  have "te_reach False sp t False (te_end (t\<lparr>te_thread := Stopped\<rparr>))" by (rule te_then [OF r ends]) simp_all
  then have "te_reach False sp t False ((te_end (t\<lparr>te_thread := Stopped\<rparr>))\<lparr>te_owner := Destructed\<rparr>)"
    by (rule te_then [OF _ joins]) (simp_all add: te_end_def assms(1))
  then show ?thesis by fastforce
qed

text \<open>
  A \<open>quit\<close> between the signal and the beginning of \<open>EventLoop::loop\<close> is lost: \<open>loop\<close> resets \<open>quit_\<close>, and the
  destructor waits for good.
\<close>

lemma te_stuck: "te_reach False sp t f t' \<Longrightarrow> te_owner t = Joining \<and> te_thread t = Looping \<and> \<not> te_quit t \<Longrightarrow> t' = t"
proof (induction rule: te_reach.induct)
  case (te_more t f t' f' t'')
  then show ?case by (auto elim: te_stepE)
qed simp

lemma quit_lost:
  "\<exists>t. te_reach False False thread_loop_init False t \<and> te_owner t = Joining \<and>
    (\<forall>sp f t'. te_reach False sp t f t' \<longrightarrow> te_owner t' = Joining)"
proof -
  let ?s = "\<lambda>p q l r. \<lparr>te_owner = p, te_thread = q, te_loop = l, te_quit = r\<rparr>"
  have "te_reach False False thread_loop_init False (?s Fresh NotCreated False False)"
    using te_none by (simp add: thread_loop_init_def)
  then have "te_reach False False thread_loop_init False (?s Checking Created False False)"
    by (rule te_then [OF _ starts [THEN step_to]]) (simp_all add: te_start_def)
  then have "te_reach False False thread_loop_init False (?s Checking HasLoop False False)"
    by (rule te_then [OF _ makes [THEN step_to]]) (simp_all add: te_make_def)
  then have "te_reach False False thread_loop_init False (?s Checking Published True False)"
    by (rule te_then [OF _ publishes [THEN step_to]]) (simp_all add: te_publish_def)
  then have "te_reach False False thread_loop_init False (?s Started Published True False)"
    by (rule te_then [OF _ checks [THEN step_to]]) (simp_all add: te_check_def)
  then have "te_reach False False thread_loop_init False (?s Quitting Published True False)"
    by (rule te_then [OF _ destructs [THEN step_to]]) (simp_all add: te_destruct_def)
  then have "te_reach False False thread_loop_init False (?s Joining Published True True)"
    by (rule te_then [OF _ calls_quit [THEN step_to]]) (simp_all add: te_call_quit_def te_alive_def)
  then have "te_reach False False thread_loop_init False (?s Joining Looping True False)"
    by (rule te_then [OF _ enters [THEN step_to]]) (simp_all add: te_enter_def)
  then show ?thesis using te_stuck by (intro exI [of _ "?s Joining Looping True False"]) fastforce
qed

end
