(* ===== verification/NetAddress.thy ===== *)
theory NetAddress
  imports Prelude
begin

unbundle bit_operations_syntax

text \<open>
  \<open>net/AddressOps\<close> and the part of \<open>net/SocketOps\<close> and \<open>net/Socket\<close> that computes: the byte order of ports and
  addresses, their text, and what \<open>accept\<close> does with its error numbers. The machine is little-endian, a
  \<open>sockaddr_in\<close> holds its address and port in network order. \<open>inet_pton\<close> and \<open>inet_ntop\<close> are those of the C
  library for IPv4. The other functions pass their arguments to a system call.
\<close>

section \<open>Byte order\<close>

definition hton16 :: "16 word \<Rightarrow> 16 word" where
  "hton16 w = push_bit 8 w OR drop_bit 8 w"

definition byte_at :: "nat \<Rightarrow> 32 word \<Rightarrow> nat" where
  "byte_at i w = unat (take_bit 8 (drop_bit (8 * i) w))"

definition of_bytes :: "nat list \<Rightarrow> 32 word" where
  "of_bytes bs = of_nat (foldr (\<lambda>b n. b + 256 * n) bs 0)"

text \<open>\<open>hostToNetwork16\<close>, \<open>netwrokToHost16\<close> and \<open>hostTONewwork32\<close>.\<close>

definition hostToNetwork16 :: "16 word \<Rightarrow> 16 word" where
  "hostToNetwork16 host16 = hton16 host16"

definition netwrokToHost16 :: "16 word \<Rightarrow> 16 word" where
  "netwrokToHost16 net16 = hton16 net16"

definition hostTONewwork32 :: "32 word \<Rightarrow> 32 word" where
  "hostTONewwork32 host32 = of_bytes (rev (map (\<lambda>i. byte_at i host32) [0..<4]))"

lemma hton16_twice [simp]: "hton16 (hton16 w) = w"
  unfolding hton16_def
  by (rule bit_word_eqI) (auto simp: bit_simps)

lemma port_round_trip: "netwrokToHost16 (hostToNetwork16 p) = p"
  by (simp add: netwrokToHost16_def hostToNetwork16_def)

lemma byte_at_unat: "byte_at i w = unat w div 2 ^ (8 * i) mod 256"
  unfolding byte_at_def unsigned_take_bit_eq unsigned_drop_bit_eq
  using unsigned_less [of w, where 'a = nat]
  by (simp add: take_bit_eq_mod [where 'a = nat] drop_bit_eq_div [where 'a = nat])

lemma byte_at_of_bytes:
  assumes "length bs = 4" "\<forall>b\<in>set bs. b < 256" "i < 4"
  shows "byte_at i (of_bytes bs) = bs ! i"
proof -
  obtain a b c d where bs: "bs = [a, b, c, d]"
    using assms(1) by (auto simp: numeral_eq_Suc length_Suc_conv)
  let ?n = "a + 256 * (b + 256 * (c + 256 * d))"
  have lt: "a < 256" "b < 256" "c < 256" "d < 256" using assms(2) bs by auto
  then have n: "?n < 2 ^ 32" by simp
  have w: "of_bytes bs = word_of_nat ?n" unfolding of_bytes_def bs by simp
  have "unat (of_bytes bs) = ?n" unfolding w unat_of_nat using n by (simp add: take_bit_nat_eq_self)
  then have "byte_at i (of_bytes bs) = ?n div 2 ^ (8 * i) mod 256"
    by (simp add: byte_at_unat)
  moreover have "i = 0 \<or> i = 1 \<or> i = 2 \<or> i = 3" using assms(3) by auto
  moreover have d: "(x + 256 * y) div 256 = y" "(x + 256 * y) mod 256 = x" if "x < 256" for x y :: nat
    using that by simp_all
  moreover have "m div 65536 = m div 256 div 256" "m div 16777216 = m div 256 div 256 div 256" for m :: nat
    by (simp_all add: div_mult2_eq [symmetric])
  ultimately show ?thesis using lt bs by (elim disjE) (simp_all add: d del: distrib_left_numeral)
qed

section \<open>Addresses as text\<close>

definition inet_ntop :: "32 word \<Rightarrow> string" where
  "inet_ntop a = dec (byte_at 0 a) @ ''.'' @ dec (byte_at 1 a) @ ''.'' @ dec (byte_at 2 a) @ ''.'' @ dec (byte_at 3 a)"

text \<open>
  \<open>inet_pton\<close> reads four numbers up to 255 without leading zeros, separated by dots: \<open>done\<close> are those
  read, \<open>cur\<close> is the one being read.
\<close>

fun pton_loop :: "string \<Rightarrow> nat list \<Rightarrow> nat option \<Rightarrow> nat list option" where
  "pton_loop [] done cur = (case cur of Some n \<Rightarrow> if length done = 3 then Some (done @ [n]) else None | None \<Rightarrow> None)"
| "pton_loop (ch # s) done cur =
     (if is_digit ch then
        (case cur of
           None \<Rightarrow> pton_loop s done (Some (digit_val ch))
         | Some n \<Rightarrow>
             if n = 0 \<or> 10 * n + digit_val ch > 255 then None else pton_loop s done (Some (10 * n + digit_val ch)))
      else if ch = CHR ''.'' then
        (case cur of Some n \<Rightarrow> if length done = 3 then None else pton_loop s (done @ [n]) None | None \<Rightarrow> None)
      else None)"

definition inet_pton :: "string \<Rightarrow> 32 word option" where
  "inet_pton s = map_option of_bytes (pton_loop s [] None)"

lemma pton_digits:
  "n < 256 \<Longrightarrow> pton_loop (dec n @ s) bs None = pton_loop s bs (Some n)"
proof (induction n arbitrary: s rule: dec.induct)
  case (1 n)
  show ?case
  proof (cases "n < 10")
    case False
    have step: "pton_loop (digit_char (n mod 10) # s) bs (Some (n div 10)) = pton_loop s bs (Some n)"
      using False 1(2) digit_char_props(1,2) [of "n mod 10"] by (simp add: div_eq_0_iff)
    show ?thesis using 1 False step by (simp add: dec_induct_cases(2))
  qed (simp add: dec_induct_cases digit_char_props)
qed

lemma dot_no_digit: "\<not> is_digit CHR ''.''"
  by (simp add: is_digit_def byte_of_def)

lemma byte_at_lt: "byte_at i a < 256"
  by (simp add: byte_at_unat)

lemma pton_ntop_bytes:
  "pton_loop (inet_ntop a) [] None = Some [byte_at 0 a, byte_at 1 a, byte_at 2 a, byte_at 3 a]"
  unfolding inet_ntop_def by (simp add: pton_digits byte_at_lt dot_no_digit pton_digits [where s = "[]", simplified])

lemma of_bytes_byte_at: "of_bytes [byte_at 0 a, byte_at 1 a, byte_at 2 a, byte_at 3 a] = a"
proof -
  let ?n = "unat a"
  have "?n < 2 ^ 32" using unsigned_less [of a] by simp
  moreover have "m = m mod 256 + 256 * (m div 256 mod 256 + 256 * (m div 65536 mod 256 + 256 * (m div 16777216 mod 256)))"
    if "m < 2 ^ 32" for m :: nat
  proof -
    have "m div 16777216 < 256" using that by (simp add: less_mult_imp_div_less)
    then have "m div 16777216 mod 256 = m div 65536 div 256" by (simp add: div_mult2_eq [symmetric])
    moreover have "m div 65536 = m div 256 div 256" by (simp add: div_mult2_eq [symmetric])
    ultimately show ?thesis by (simp only: mod_mult_div_eq)
  qed
  ultimately have "foldr (\<lambda>b n. b + 256 * n) [byte_at 0 a, byte_at 1 a, byte_at 2 a, byte_at 3 a] 0 = ?n"
    by (simp add: byte_at_unat)
  then have "of_bytes [byte_at 0 a, byte_at 1 a, byte_at 2 a, byte_at 3 a] = of_nat ?n" unfolding of_bytes_def by metis
  then show ?thesis by simp
qed

lemma pton_ntop: "inet_pton (inet_ntop a) = Some a"
  unfolding inet_pton_def pton_ntop_bytes by (simp only: option.map of_bytes_byte_at)

section \<open>Address objects\<close>

text \<open>
  \<open>addrClient_\<close> is set only by \<open>setAddrClient_\<close>; until then its bytes are undetermined, None here.
\<close>

record sockaddr =
  sin_family :: nat
  sin_addr :: "32 word"
  sin_port :: "16 word"

record address =
  ao_addr :: sockaddr
  ao_client :: "sockaddr option"

definition AF_INET :: nat where
  "AF_INET = 2"

definition address_any :: "16 word \<Rightarrow> address" where
  "address_any port = \<lparr>ao_addr = \<lparr>sin_family = AF_INET, sin_addr = hostTONewwork32 0, sin_port = hostToNetwork16 port\<rparr>,
     ao_client = None\<rparr>"

text \<open>\<open>inet_pton\<close> answers 0, which is not negative, for a text that is no address; the zeros stay.\<close>

definition address_ip :: "string \<Rightarrow> 16 word \<Rightarrow> address" where
  "address_ip ip port = \<lparr>ao_addr = \<lparr>sin_family = AF_INET,
       sin_addr = (case inet_pton ip of Some a \<Rightarrow> a | None \<Rightarrow> 0), sin_port = hostToNetwork16 port\<rparr>,
     ao_client = None\<rparr>"

definition address_of :: "sockaddr \<Rightarrow> address" where
  "address_of addr = \<lparr>ao_addr = addr, ao_client = None\<rparr>"

definition setAddrClient :: "sockaddr \<Rightarrow> address \<Rightarrow> address" where
  "setAddrClient addr a = a\<lparr>ao_client := Some addr\<rparr>"

text \<open>\<open>socketOps::toHostPort\<close> with \<open>snprintf\<close> into \<open>sz\<close> bytes, and \<open>AddressOps::toHostPort\<close>.\<close>

definition sockaddr_toHostPort :: "nat \<Rightarrow> sockaddr \<Rightarrow> string" where
  "sockaddr_toHostPort sz addr =
     take (sz - 1) ('' '' @ inet_ntop (sin_addr addr) @ '':'' @ dec (unat (netwrokToHost16 (sin_port addr))) @ '' '')"

definition address_toHostPort :: "address \<Rightarrow> string option" where
  "address_toHostPort a = map_option (sockaddr_toHostPort 32) (ao_client a)"

lemma length_dec_byte: "length (dec (byte_at i a)) \<le> 3"
  using byte_at_lt [of i a] by (intro length_dec_le) simp_all

lemma length_dec_port: "length (dec (unat (p :: 16 word))) \<le> 5"
  using unsigned_less [of p, where 'a = nat] by (intro length_dec_le) simp_all

text \<open>The 32 bytes are enough for every address and port.\<close>

lemma toHostPort_whole:
  "sockaddr_toHostPort 32 addr =
     '' '' @ inet_ntop (sin_addr addr) @ '':'' @ dec (unat (netwrokToHost16 (sin_port addr))) @ '' ''"
proof -
  have "length (inet_ntop (sin_addr addr)) \<le> 15"
    using length_dec_byte [of 0 "sin_addr addr"] length_dec_byte [of 1 "sin_addr addr"]
      length_dec_byte [of 2 "sin_addr addr"] length_dec_byte [of 3 "sin_addr addr"] by (simp add: inet_ntop_def)
  then show ?thesis
    using length_dec_port [of "netwrokToHost16 (sin_port addr)"] unfolding sockaddr_toHostPort_def by (intro take_all) simp
qed

text \<open>An address made from text, as a peer: what is printed is what it was made from.\<close>

lemma toHostPort_of_ip:
  "address_toHostPort (setAddrClient (ao_addr (address_ip (inet_ntop a) port)) b) =
     Some ('' '' @ inet_ntop a @ '':'' @ dec (unat port) @ '' '')"
  by (simp add: address_toHostPort_def setAddrClient_def toHostPort_whole address_ip_def pton_ntop port_round_trip)

text \<open>Without a peer there is nothing determined to print, whatever address the object was made of.\<close>

lemma toHostPort_unset:
  "address_toHostPort (address_any port) = None" "address_toHostPort (address_ip ip port) = None"
  "address_toHostPort (address_of addr) = None"
  by (simp_all add: address_toHostPort_def address_any_def address_ip_def address_of_def)

section \<open>Accepting\<close>

datatype errno =
    EAGAIN | ECONNABORTED | EINTR | EPROTO | EPERM | EMFILE | EBADF | EFAULT | EINVAL | ENFILE | ENOBUFS | ENOMEM
  | ENOTSOCK | EOPNOTSUPP | OtherErrno nat

fun errno_number :: "errno \<Rightarrow> nat" where
  "errno_number EAGAIN = 11"
| "errno_number ECONNABORTED = 103"
| "errno_number EINTR = 4"
| "errno_number EPROTO = 71"
| "errno_number EPERM = 1"
| "errno_number EMFILE = 24"
| "errno_number EBADF = 9"
| "errno_number EFAULT = 14"
| "errno_number EINVAL = 22"
| "errno_number ENFILE = 23"
| "errno_number ENOBUFS = 105"
| "errno_number ENOMEM = 12"
| "errno_number ENOTSOCK = 88"
| "errno_number EOPNOTSUPP = 95"
| "errno_number (OtherErrno n) = n"

fun accept_message :: "errno \<Rightarrow> string" where
  "accept_message EAGAIN = ''Socket::EAGAIN''"
| "accept_message ECONNABORTED = ''Socket::ECONNABORTED''"
| "accept_message EINTR = ''Socket::EINTR''"
| "accept_message EPROTO = ''Socket::EPROTO''"
| "accept_message EPERM = ''Socket::EPERM''"
| "accept_message EMFILE = ''Socket::EMFILE''"
| "accept_message EBADF = ''Socket::EBADF''"
| "accept_message EFAULT = ''Socket::EFAULT''"
| "accept_message EINVAL = ''Socket::EINVAL''"
| "accept_message ENFILE = ''Socket::ENFILE''"
| "accept_message ENOBUFS = ''Socket::ENOBUFS''"
| "accept_message ENOMEM = ''Socket::ENOMEM''"
| "accept_message ENOTSOCK = ''Socket::ENOTSOCK''"
| "accept_message EOPNOTSUPP = ''unexpected error of ::accept '' @ dec (errno_number EOPNOTSUPP)"
| "accept_message (OtherErrno n) = ''unknown error of ::accept '' @ dec n"

text \<open>\<open>accept4\<close> answered a connection and its peer, or an error; the lines logged come with the result.\<close>

definition socketOps_accept :: "(errno, nat \<times> sockaddr) sum \<Rightarrow> int \<times> sockaddr option \<times> string list" where
  "socketOps_accept r =
     (case r of
        Inr (connfd, addr) \<Rightarrow> (int connfd, Some addr, [])
      | Inl e \<Rightarrow> (- 1, None, [''Socket::accept error '' @ dec (errno_number e), accept_message e]))"

text \<open>\<open>Socket::accept\<close> sets the peer of a connection, but not of one with the descriptor 0.\<close>

definition socket_accept :: "(errno, nat \<times> sockaddr) sum \<Rightarrow> address \<Rightarrow> int \<times> address \<times> string list" where
  "socket_accept r peer =
     (case socketOps_accept r of
        (connfd, addr, out) \<Rightarrow>
          (connfd, (case addr of Some ad \<Rightarrow> if connfd > 0 then setAddrClient ad peer else peer | None \<Rightarrow> peer), out))"

lemma socket_accept_ok:
  assumes "socket_accept (Inr (fd, addr)) (address_any port) = (connfd, peer, out)" "0 < fd"
  shows "connfd = int fd \<and> out = [] \<and>
    address_toHostPort peer = Some ('' '' @ inet_ntop (sin_addr addr) @ '':'' @ dec (unat (netwrokToHost16 (sin_port addr))) @ '' '')"
  using assms by (auto simp: socket_accept_def socketOps_accept_def address_toHostPort_def setAddrClient_def toHostPort_whole)

lemma socket_accept_error:
  "socket_accept (Inl e) peer = (- 1, peer, [''Socket::accept error '' @ dec (errno_number e), accept_message e])"
  by (simp add: socket_accept_def socketOps_accept_def)

end
