(* ===== verification/BaseThread.thy ===== *)
theory BaseThread
  imports Prelude
begin

text \<open>
  \<open>base/Mutex.h\<close>, \<open>base/Thread\<close>, \<open>base/CurrentThread.h\<close> and the per-process and per-thread instances of
  \<open>base/Singleton.h\<close>, \<open>base/ThreadLocal.h\<close> and \<open>base/ThreadLocalSingleton.h\<close>. Of \<open>pthread_mutex_lock\<close> the model has that
  it returns in one thread at a time, of \<open>pthread_cond_wait\<close>, in \<open>base/Condition.h\<close>, that it releases the mutex, waits,
  and returns with the mutex locked again; the assignments to \<open>holder_\<close> are steps of their own. The number of a thread in
  the list is one less than its thread id, so that 0 is no thread's id.
\<close>

section \<open>The mutex and its holder\<close>

text \<open>
  Where a thread is with one mutex: outside, after \<open>pthread_mutex_lock\<close> and before \<open>holder_\<close> is set, between
  \<open>lock\<close> and \<open>unlock\<close>, within \<open>Condition::wait\<close>, and after \<open>pthread_mutex_unlock\<close> and before \<open>holder_\<close> is reset.
\<close>

datatype mutex_place = Unlocked | Locking | Locked | InWait | Unlocking

record mutex =
  mx_owner :: "nat option"
  mx_holder :: nat
  mx_threads :: "mutex_place list"

definition tid_of :: "nat \<Rightarrow> nat" where
  "tid_of i = Suc i"

definition mutex_init :: "nat \<Rightarrow> mutex" where
  "mutex_init k = \<lparr>mx_owner = None, mx_holder = 0, mx_threads = replicate k Unlocked\<rparr>"

definition at_place :: "nat \<Rightarrow> mutex_place \<Rightarrow> mutex \<Rightarrow> bool" where
  "at_place i p m \<longleftrightarrow> i < length (mx_threads m) \<and> mx_threads m ! i = p"

definition go_to :: "nat \<Rightarrow> mutex_place \<Rightarrow> mutex \<Rightarrow> mutex" where
  "go_to i p m = m\<lparr>mx_threads := (mx_threads m)[i := p]\<rparr>"

definition mutex_acquire :: "nat \<Rightarrow> mutex \<Rightarrow> mutex" where
  "mutex_acquire i m = go_to i Locking (m\<lparr>mx_owner := Some i\<rparr>)"

definition mutex_set_holder :: "nat \<Rightarrow> mutex \<Rightarrow> mutex" where
  "mutex_set_holder i m = go_to i Locked (m\<lparr>mx_holder := tid_of i\<rparr>)"

definition mutex_release :: "nat \<Rightarrow> mutex \<Rightarrow> mutex" where
  "mutex_release i m = go_to i Unlocking (m\<lparr>mx_owner := None\<rparr>)"

definition mutex_reset_holder :: "nat \<Rightarrow> mutex \<Rightarrow> mutex" where
  "mutex_reset_holder i m = go_to i Unlocked (m\<lparr>mx_holder := 0\<rparr>)"

text \<open>
  \<open>Condition::wait\<close> and \<open>timedWait\<close>: the mutex is released and locked again within \<open>pthread_cond_wait\<close>, which knows
  nothing of \<open>holder_\<close>. That it returns may be due to a signal, to the time, or to nothing.
\<close>

definition mutex_wait :: "nat \<Rightarrow> mutex \<Rightarrow> mutex" where
  "mutex_wait i m = go_to i InWait (m\<lparr>mx_owner := None\<rparr>)"

definition mutex_wait_returns :: "nat \<Rightarrow> mutex \<Rightarrow> mutex" where
  "mutex_wait_returns i m = go_to i Locked (m\<lparr>mx_owner := Some i\<rparr>)"

inductive mutex_step :: "mutex \<Rightarrow> mutex \<Rightarrow> bool" where
  acquires: "at_place i Unlocked m \<Longrightarrow> mx_owner m = None \<Longrightarrow> mutex_step m (mutex_acquire i m)"
| sets_holder: "at_place i Locking m \<Longrightarrow> mutex_step m (mutex_set_holder i m)"
| waits_for: "at_place i Locked m \<Longrightarrow> mutex_step m (mutex_wait i m)"
| wait_returns: "at_place i InWait m \<Longrightarrow> mx_owner m = None \<Longrightarrow> mutex_step m (mutex_wait_returns i m)"
| releases: "at_place i Locked m \<Longrightarrow> mutex_step m (mutex_release i m)"
| resets_holder: "at_place i Unlocking m \<Longrightarrow> mutex_step m (mutex_reset_holder i m)"

text \<open>\<open>isLockbyThisThread\<close>, and the assert of the destructor.\<close>

definition isLockbyThisThread :: "nat \<Rightarrow> mutex \<Rightarrow> bool" where
  "isLockbyThisThread i m \<longleftrightarrow> mx_holder m = tid_of i"

definition mutex_destroyable :: "mutex \<Rightarrow> bool" where
  "mutex_destroyable m \<longleftrightarrow> mx_holder m = 0"

definition mutex_inv :: "mutex \<Rightarrow> bool" where
  "mutex_inv m \<longleftrightarrow>
     (\<forall>i. at_place i Locking m \<or> at_place i Locked m \<longrightarrow> mx_owner m = Some i) \<and>
     (\<forall>i. mx_holder m = tid_of i \<longrightarrow> at_place i Locked m \<or> at_place i InWait m \<or> at_place i Unlocking m)"

lemma at_place_go_to [simp]:
  "at_place j q (go_to i p m) \<longleftrightarrow> (if i = j then i < length (mx_threads m) \<and> q = p else at_place j q m)"
  by (auto simp: at_place_def go_to_def)

lemma at_place_fields [simp]:
  "at_place i p (m\<lparr>mx_owner := x\<rparr>) = at_place i p m" "at_place i p (m\<lparr>mx_holder := y\<rparr>) = at_place i p m"
  "mx_owner (go_to i p m) = mx_owner m" "mx_holder (go_to i p m) = mx_holder m"
  by (simp_all add: at_place_def go_to_def)

lemma at_place_length: "at_place i p m \<Longrightarrow> i < length (mx_threads m)"
  by (simp add: at_place_def)

lemma at_place_unique: "at_place i p m \<Longrightarrow> at_place i q m \<Longrightarrow> p = q"
  by (simp add: at_place_def)

lemmas mutex_ops = mutex_acquire_def mutex_set_holder_def mutex_release_def mutex_reset_holder_def
  mutex_wait_def mutex_wait_returns_def tid_of_def

lemma mutex_init_inv: "mutex_inv (mutex_init k)"
  by (auto simp: mutex_inv_def mutex_init_def at_place_def tid_of_def)

lemma mutex_step_inv: "mutex_step m m' \<Longrightarrow> mutex_inv m \<Longrightarrow> mutex_inv m'"
proof (induction rule: mutex_step.induct)
  case (acquires i m)
  have "\<not> at_place j Locking m \<and> \<not> at_place j Locked m" for j
    using acquires by (metis mutex_inv_def option.distinct(1))
  then show ?case
    using acquires by (auto simp: mutex_inv_def mutex_ops at_place_length dest: at_place_unique)
next
  case (sets_holder i m)
  have "\<not> at_place j Locking m \<and> \<not> at_place j Locked m" if "j \<noteq> i" for j
    using sets_holder that by (metis mutex_inv_def option.inject)
  then show ?case
    using sets_holder by (auto simp: mutex_inv_def mutex_ops at_place_length dest: at_place_unique)
next
  case (waits_for i m)
  have "\<not> at_place j Locking m \<and> \<not> at_place j Locked m" if "j \<noteq> i" for j
    using waits_for that by (metis mutex_inv_def option.inject)
  then show ?case
    using waits_for by (auto simp: mutex_inv_def mutex_ops at_place_length dest: at_place_unique)
next
  case (wait_returns i m)
  have "\<not> at_place j Locking m \<and> \<not> at_place j Locked m" for j
    using wait_returns by (metis mutex_inv_def option.distinct(1))
  then show ?case
    using wait_returns by (auto simp: mutex_inv_def mutex_ops at_place_length dest: at_place_unique)
next
  case (releases i m)
  have "\<not> at_place j Locking m \<and> \<not> at_place j Locked m" if "j \<noteq> i" for j
    using releases that by (metis mutex_inv_def option.inject)
  then show ?case
    using releases by (auto simp: mutex_inv_def mutex_ops at_place_length dest: at_place_unique)
qed (auto simp: mutex_inv_def mutex_ops at_place_length dest: at_place_unique)

lemma mutex_reach_inv: "mutex_step\<^sup>*\<^sup>* (mutex_init k) m \<Longrightarrow> mutex_inv m"
  by (induction rule: rtranclp_induct) (auto intro: mutex_init_inv mutex_step_inv)

text \<open>
  No two threads are inside; one that finds its id in \<open>holder_\<close> is inside, in a wait or still in \<open>unlock\<close>; and the
  destructor's assert holds when every thread is outside.
\<close>

lemma mutex_safe:
  assumes "mutex_step\<^sup>*\<^sup>* (mutex_init k) m"
  shows "(at_place i Locked m \<longrightarrow> at_place j Locked m \<longrightarrow> i = j) \<and>
    (isLockbyThisThread i m \<longrightarrow> at_place i Locked m \<or> at_place i InWait m \<or> at_place i Unlocking m) \<and>
    (list_all (\<lambda>p. p = Unlocked) (mx_threads m) \<longrightarrow> mutex_destroyable m)"
proof -
  note inv = mutex_reach_inv [OF assms, unfolded mutex_inv_def]
  have "mutex_destroyable m" if "list_all (\<lambda>p. p = Unlocked) (mx_threads m)"
  proof (cases "mx_holder m")
    case (Suc i)
    then have "at_place i Locked m \<or> at_place i InWait m \<or> at_place i Unlocking m" using inv by (simp add: tid_of_def)
    then show ?thesis using that by (auto simp: at_place_def list_all_length)
  qed (simp add: mutex_destroyable_def)
  moreover have "at_place i Locked m \<longrightarrow> at_place j Locked m \<longrightarrow> i = j" using inv by (metis option.inject)
  ultimately show ?thesis using inv by (simp add: isLockbyThisThread_def)
qed

text \<open>
  The converse does not hold. \<open>unlock\<close> resets \<open>holder_\<close> after it has released the mutex, so the reset may
  come when another thread has locked it: that thread holds the mutex and fails \<open>assertLocked\<close>.
\<close>

lemma mutex_handover:
  "\<exists>m. mutex_step\<^sup>*\<^sup>* (mutex_init 2) m \<and> at_place 1 Locked m \<and> mx_owner m = Some 1 \<and> \<not> isLockbyThisThread 1 m"
proof -
  let ?m = "\<lambda>owner holder p q. \<lparr>mx_owner = owner, mx_holder = holder, mx_threads = [p, q]\<rparr>"
  have step: "mutex_step (?m None 0 Unlocked Unlocked) (?m (Some 0) 0 Locking Unlocked)"
    "mutex_step (?m (Some 0) 0 Locking Unlocked) (?m (Some 0) 1 Locked Unlocked)"
    "mutex_step (?m (Some 0) 1 Locked Unlocked) (?m None 1 Unlocking Unlocked)"
    "mutex_step (?m None 1 Unlocking Unlocked) (?m (Some 1) 1 Unlocking Locking)"
    "mutex_step (?m (Some 1) 1 Unlocking Locking) (?m (Some 1) 2 Unlocking Locked)"
    "mutex_step (?m (Some 1) 2 Unlocking Locked) (?m (Some 1) 0 Unlocked Locked)"
    using acquires [of 0 "?m None 0 Unlocked Unlocked"] sets_holder [of 0 "?m (Some 0) 0 Locking Unlocked"]
      releases [of 0 "?m (Some 0) 1 Locked Unlocked"] acquires [of 1 "?m None 1 Unlocking Unlocked"]
      sets_holder [of 1 "?m (Some 1) 1 Unlocking Locking"] resets_holder [of 0 "?m (Some 1) 2 Unlocking Locked"]
    by (simp_all add: at_place_def mutex_ops go_to_def numeral_2_eq_2)
  have "mutex_init 2 = ?m None 0 Unlocked Unlocked" by (simp add: mutex_init_def numeral_2_eq_2)
  then have "mutex_step\<^sup>*\<^sup>* (mutex_init 2) (?m (Some 1) 0 Unlocked Locked)"
    using step by (metis (no_types, lifting) rtranclp.intros)
  then show ?thesis
    by (intro exI [of _ "?m (Some 1) 0 Unlocked Locked"]) (simp add: at_place_def isLockbyThisThread_def tid_of_def)
qed

text \<open>
  A thread that waits leaves its id in \<open>holder_\<close>, so \<open>assertLocked\<close> holds for a thread that does not have the mutex;
  and a thread that returns from a wait when another has locked and unlocked the mutex meanwhile fails it.
\<close>

lemma wait_keeps_holder:
  "at_place i Locked m \<Longrightarrow> isLockbyThisThread i m \<Longrightarrow>
    mx_owner (mutex_wait i m) = None \<and> isLockbyThisThread i (mutex_wait i m)"
  by (simp add: mutex_wait_def isLockbyThisThread_def)

lemma wait_loses_holder:
  "at_place i InWait m \<Longrightarrow> mx_holder m = 0 \<Longrightarrow>
    mx_owner (mutex_wait_returns i m) = Some i \<and> \<not> isLockbyThisThread i (mutex_wait_returns i m)"
  by (simp add: mutex_wait_returns_def isLockbyThisThread_def tid_of_def)

section \<open>The current thread\<close>

text \<open>
  The thread-local variables. \<open>gettid\<close> is what the system call answers in this thread, a positive
  number.
\<close>

record cur_thread =
  t_cachedTid :: int
  t_stringTid :: string
  t_threadName :: string

definition cur_thread_init :: cur_thread where
  "cur_thread_init = \<lparr>t_cachedTid = 0, t_stringTid = [], t_threadName = ''unknown''\<rparr>"

definition pad_left :: "nat \<Rightarrow> string \<Rightarrow> string" where
  "pad_left n s = replicate (n - length s) CHR 0x20 @ s"

text \<open>\<open>snprintf\<close> keeps 31 characters of \<open>%5d\<close> and a space.\<close>

definition CacheTid :: "int \<Rightarrow> cur_thread \<Rightarrow> cur_thread" where
  "CacheTid gettid ct =
     ct\<lparr>t_cachedTid := gettid,
        t_stringTid := take 31 (pad_left 5 ((if gettid < 0 then ''-'' else []) @ dec (nat \<bar>gettid\<bar>)) @ '' '')\<rparr>"

definition current_tid :: "int \<Rightarrow> cur_thread \<Rightarrow> int \<times> cur_thread" where
  "current_tid gettid ct =
     (let ct = (if t_cachedTid ct = 0 then CacheTid gettid ct else ct) in (t_cachedTid ct, ct))"

text \<open>What the main thread does before \<open>main\<close>.\<close>

definition CurrentThreadInit :: "int \<Rightarrow> cur_thread \<Rightarrow> cur_thread" where
  "CurrentThreadInit gettid ct = CacheTid gettid (ct\<lparr>t_threadName := ''main''\<rparr>)"

definition afterFork :: "int \<Rightarrow> cur_thread \<Rightarrow> cur_thread" where
  "afterFork gettid ct = CacheTid gettid (ct\<lparr>t_cachedTid := 0, t_threadName := ''main''\<rparr>)"

section \<open>Threads\<close>

text \<open>
  What the function of a thread may throw: an \<open>Exception\<close> with its message and stack trace, or something
  else. \<open>started\<close> has no return statement, so what it answers is not modelled.
\<close>

datatype thrown = AnException string string | SomethingElse

record thread =
  th_started :: bool
  th_tid :: int
  th_name :: string

definition thread_init :: "string \<Rightarrow> thread" where
  "thread_init name = \<lparr>th_started = False, th_tid = 0, th_name = name\<rparr>"

definition thread_start :: "thread \<Rightarrow> thread" where
  "thread_start th = th\<lparr>th_started := True\<rparr>"

definition runInthread ::
  "int \<Rightarrow> (thrown, unit) outcome \<Rightarrow> thread \<Rightarrow> cur_thread \<Rightarrow> (thrown, string list \<times> thread \<times> cur_thread) outcome" where
  "runInthread gettid func th ct =
     (let (tid, ct) = current_tid gettid ct;
          th = th\<lparr>th_tid := tid\<rparr>;
          ct = ct\<lparr>t_threadName := th_name th\<rparr>
      in case func of
           Done u \<Rightarrow> Done ([], th, ct\<lparr>t_threadName := ''finshed''\<rparr>)
         | Throw (AnException what trace) \<Rightarrow>
             Done ([''Thread:'' @ t_threadName ct @ ''tid='' @ dec (nat (t_cachedTid ct)),
                    ''reson:'' @ what, ''stack trace:'' @ trace], th, ct)
         | Throw SomethingElse \<Rightarrow> Done ([''unknown exception''], th, ct)
         | Abort \<Rightarrow> Abort)"

text \<open>No exception leaves a thread, and it keeps its name unless its function returned.\<close>

lemma runInthread_ok:
  assumes "func \<noteq> Abort" "gettid > 0" "t_cachedTid ct = 0"
  shows "\<exists>out th' ct'. runInthread gettid func th ct = Done (out, th', ct') \<and> th_tid th' = gettid \<and>
    t_cachedTid ct' = gettid \<and> t_threadName ct' = (if func = Done () then ''finshed'' else th_name th) \<and>
    (out = [] \<longleftrightarrow> func = Done ())"
  using assms
  by (cases func) (auto simp: runInthread_def current_tid_def CacheTid_def Let_def split: thrown.splits)

section \<open>One instance for the process, or for each thread\<close>

text \<open>
  \<open>Singleton::instance\<close> by \<open>pthread_once\<close>, which runs the initialisation for the first caller only;
  \<open>ThreadLocal::Value\<close> and \<open>ThreadLocalSingleton::instance\<close> make the object of a thread at its first call.
\<close>

definition singleton_instance :: "'a \<Rightarrow> 'a option \<Rightarrow> 'a \<times> 'a option" where
  "singleton_instance new s = (case s of None \<Rightarrow> (new, Some new) | Some v \<Rightarrow> (v, s))"

definition local_value :: "'a \<Rightarrow> nat \<Rightarrow> (nat \<rightharpoonup> 'a) \<Rightarrow> 'a \<times> (nat \<rightharpoonup> 'a)" where
  "local_value new i m = (case m i of None \<Rightarrow> (new, m(i \<mapsto> new)) | Some v \<Rightarrow> (v, m))"

definition local_instance :: "'a \<Rightarrow> nat \<Rightarrow> (nat \<rightharpoonup> 'a) \<Rightarrow> 'a \<times> (nat \<rightharpoonup> 'a)" where
  "local_instance new i m = (case m i of None \<Rightarrow> (new, m(i \<mapsto> new)) | Some v \<Rightarrow> (v, m))"

lemma instances_stay:
  "singleton_instance new s = (v, s') \<Longrightarrow> singleton_instance new' s' = (v, s')"
  "local_value new i m = (v, m') \<Longrightarrow> local_value new' i m' = (v, m') \<and> (j \<noteq> i \<longrightarrow> m' j = m j)"
  "local_instance new i m = (v, m') \<Longrightarrow> local_instance new' i m' = (v, m') \<and> (j \<noteq> i \<longrightarrow> m' j = m j)"
  by (auto simp: singleton_instance_def local_value_def local_instance_def split: option.splits)

text \<open>
  The objects of a \<open>ThreadLocal\<close> over time, numbered as they are made. A thread that ends has its object deleted
  by the destructor that the key was made with, as long as there is a key.
\<close>

record tls =
  tl_key :: bool
  tl_value :: "nat \<rightharpoonup> nat"
  tl_made :: nat
  tl_deleted :: "nat list"

definition tls_init :: tls where
  "tls_init = \<lparr>tl_key = True, tl_value = Map.empty, tl_made = 0, tl_deleted = []\<rparr>"

definition tl_use :: "nat \<Rightarrow> tls \<Rightarrow> nat \<times> tls" where
  "tl_use i s =
     (let (v, m) = local_value (tl_made s) i (tl_value s)
      in (v, s\<lparr>tl_value := m, tl_made := tl_made s + (if tl_value s i = None then 1 else 0)\<rparr>))"

definition tl_thread_ends :: "nat \<Rightarrow> tls \<Rightarrow> tls" where
  "tl_thread_ends i s =
     (case tl_value s i of
        None \<Rightarrow> s
      | Some v \<Rightarrow> s\<lparr>tl_value := (tl_value s)(i := None), tl_deleted := tl_deleted s @ (if tl_key s then [v] else [])\<rparr>)"

definition tl_key_delete :: "tls \<Rightarrow> tls" where
  "tl_key_delete s = s\<lparr>tl_key := False\<rparr>"

inductive tls_step :: "tls \<Rightarrow> tls \<Rightarrow> bool" where
  tls_used: "tl_key s \<Longrightarrow> tls_step s (snd (tl_use i s))"
| tls_ended: "tls_step s (tl_thread_ends i s)"
| tls_unkeyed: "tls_step s (tl_key_delete s)"

definition tls_inv :: "tls \<Rightarrow> bool" where
  "tls_inv s \<longleftrightarrow> distinct (tl_deleted s) \<and> (\<forall>i v. tl_value s i = Some v \<longrightarrow> v < tl_made s \<and> v \<notin> set (tl_deleted s)) \<and>
     (\<forall>i j v. tl_value s i = Some v \<longrightarrow> tl_value s j = Some v \<longrightarrow> i = j) \<and> (\<forall>v\<in>set (tl_deleted s). v < tl_made s) \<and>
     (tl_key s \<longrightarrow> {..<tl_made s} \<subseteq> set (tl_deleted s) \<union> ran (tl_value s))"

lemma tls_step_inv: "tls_step s s' \<Longrightarrow> tls_inv s \<Longrightarrow> tls_inv s'"
proof (induction rule: tls_step.induct)
  case (tls_used s i)
  show ?case
  proof (cases "tl_value s i")
    case None
    have fresh: "v < tl_made s" if "tl_value s j = Some v" for j v using tls_used(2) that by (auto simp: tls_inv_def)
    have "ran ((tl_value s)(i \<mapsto> tl_made s)) = insert (tl_made s) (ran (tl_value s))" using None by (simp add: ran_map_upd)
    with None tls_used fresh show ?thesis
      by (auto simp: tls_inv_def tl_use_def local_value_def less_Suc_eq dest: fresh)
  qed (use tls_used in \<open>simp add: tl_use_def local_value_def\<close>)
next
  case (tls_ended s i)
  show ?case
  proof (cases "tl_value s i")
    case (Some v)
    have "ran (tl_value s) \<subseteq> insert v (ran ((tl_value s)(i := None)))"
    proof
      fix u assume "u \<in> ran (tl_value s)"
      then obtain j where "tl_value s j = Some u" by (auto simp: ran_def)
      with Some show "u \<in> insert v (ran ((tl_value s)(i := None)))" by (cases "j = i") (auto simp: ran_def)
    qed
    moreover have "tl_value s j \<noteq> Some v" if "j \<noteq> i" for j using that Some tls_ended by (auto simp: tls_inv_def)
    ultimately show ?thesis using Some tls_ended by (auto simp: tls_inv_def tl_thread_ends_def split: if_splits)
  qed (use tls_ended in \<open>simp add: tl_thread_ends_def\<close>)
qed (simp add: tls_inv_def tl_key_delete_def)

text \<open>
  No two threads share an object, none is deleted twice or while a thread has it, and when all threads
  have ended before the key was deleted, every object made has been deleted.
\<close>

lemma tls_objects:
  assumes "tls_step\<^sup>*\<^sup>* tls_init s"
  shows "distinct (tl_deleted s)"
    and "tl_value s i = Some v \<Longrightarrow> tl_value s j = Some v \<Longrightarrow> i = j"
    and "tl_value s i = Some v \<Longrightarrow> v \<notin> set (tl_deleted s)"
    and "tl_key s \<Longrightarrow> tl_value s = Map.empty \<Longrightarrow> set (tl_deleted s) = {..<tl_made s}"
proof -
  from assms have "tls_inv s"
  proof (induction rule: rtranclp_induct)
    case base
    show ?case by (simp add: tls_inv_def tls_init_def)
  qed (rule tls_step_inv)
  then show "distinct (tl_deleted s)" "tl_value s i = Some v \<Longrightarrow> tl_value s j = Some v \<Longrightarrow> i = j"
    "tl_value s i = Some v \<Longrightarrow> v \<notin> set (tl_deleted s)"
    "tl_key s \<Longrightarrow> tl_value s = Map.empty \<Longrightarrow> set (tl_deleted s) = {..<tl_made s}"
    by (auto simp: tls_inv_def)
qed

end
