(* ===== verification/RpcBatch.thy ===== *)
theory RpcBatch
  imports RpcServer "HOL-Library.Multiset"
begin

text \<open>
  \<open>ThreadSafeBatchResponse\<close> of \<open>zrpc/server/Rpcserver.cpp\<close>, when the callbacks of a batch answer later and
  from other threads: an array under a mutex, shared by the loop over the batch and by the copies of
  the callbacks handed out for its requests. The copy that goes last sends the array.
\<close>

section \<open>The collector\<close>

text \<open>
  \<open>cr_copies\<close> counts, for each request handed out so far, the copies of its callback; \<open>cr_loop\<close> is whether the
  loop still has its own. \<open>cr_responses\<close> has the responses with the number of the request answered, \<open>cr_sent\<close> the
  arrays that \<open>done\<close> was called with.
\<close>

record collector =
  cr_loop :: bool
  cr_copies :: "nat list"
  cr_responses :: "(nat \<times> jvalue) list"
  cr_sent :: "jvalue list list"

definition collector_init :: collector where
  "collector_init = \<lparr>cr_loop = True, cr_copies = [], cr_responses = [], cr_sent = []\<rparr>"

definition use_count :: "collector \<Rightarrow> nat" where
  "use_count c = (if cr_loop c then 1 else 0) + sum_list (cr_copies c)"

text \<open>The destructor of the shared data, when a copy was the last.\<close>

definition released :: "collector \<Rightarrow> collector" where
  "released c = (if use_count c = 0 then c\<lparr>cr_sent := cr_sent c @ [map snd (cr_responses c)]\<rparr> else c)"

definition addResponse :: "nat \<Rightarrow> jvalue \<Rightarrow> collector \<Rightarrow> collector" where
  "addResponse i response c = c\<lparr>cr_responses := cr_responses c @ [(i, response)]\<rparr>"

text \<open>
  The steps: the loop hands a callback to a procedure, or ends, by its end or an exception; who has a copy of a
  callback copies it, answers with it, or drops it.
\<close>

definition hand_out :: "collector \<Rightarrow> collector" where
  "hand_out c = c\<lparr>cr_copies := cr_copies c @ [1]\<rparr>"

definition end_loop :: "collector \<Rightarrow> collector" where
  "end_loop c = released (c\<lparr>cr_loop := False\<rparr>)"

definition copy_callback :: "nat \<Rightarrow> collector \<Rightarrow> collector" where
  "copy_callback i c = c\<lparr>cr_copies := (cr_copies c)[i := cr_copies c ! i + 1]\<rparr>"

definition drop_callback :: "nat \<Rightarrow> collector \<Rightarrow> collector" where
  "drop_callback i c = released (c\<lparr>cr_copies := (cr_copies c)[i := cr_copies c ! i - 1]\<rparr>)"

definition has_callback :: "nat \<Rightarrow> collector \<Rightarrow> bool" where
  "has_callback i c \<longleftrightarrow> i < length (cr_copies c) \<and> 0 < cr_copies c ! i"

inductive batch_step :: "collector \<Rightarrow> collector \<Rightarrow> bool" where
  hands_out: "cr_loop c \<Longrightarrow> batch_step c (hand_out c)"
| ends_loop: "cr_loop c \<Longrightarrow> batch_step c (end_loop c)"
| copies: "has_callback i c \<Longrightarrow> batch_step c (copy_callback i c)"
| answers: "has_callback i c \<Longrightarrow> batch_step c (addResponse i r c)"
| drops: "has_callback i c \<Longrightarrow> batch_step c (drop_callback i c)"

inductive_cases batch_stepE: "batch_step c c'"

section \<open>Sent once, when all is there\<close>

definition collector_inv :: "collector \<Rightarrow> bool" where
  "collector_inv c \<longleftrightarrow> cr_sent c = (if use_count c = 0 then [map snd (cr_responses c)] else [])"

lemma has_callback_used: "has_callback i c \<Longrightarrow> 0 < use_count c"
proof -
  assume "has_callback i c"
  then have "0 < cr_copies c ! i" "cr_copies c ! i \<in> set (cr_copies c)" by (auto simp: has_callback_def)
  then have "0 < sum_list (cr_copies c)" using member_le_sum_list [of "cr_copies c ! i" "cr_copies c"] by linarith
  then show ?thesis unfolding use_count_def by linarith
qed

lemma collector_init_inv: "collector_inv collector_init"
  by (simp add: collector_inv_def collector_init_def use_count_def)

lemma released_inv: "cr_sent c = [] \<Longrightarrow> collector_inv (released c)"
proof -
  have "use_count (c\<lparr>cr_sent := x\<rparr>) = use_count c" for x by (simp add: use_count_def)
  then show "cr_sent c = [] \<Longrightarrow> collector_inv (released c)" by (cases "use_count c = 0") (simp_all add: collector_inv_def released_def)
qed

lemma batch_step_inv: "batch_step c c' \<Longrightarrow> collector_inv c \<Longrightarrow> collector_inv c'"
proof (induction rule: batch_step.induct)
  case (hands_out c)
  then show ?case by (simp add: collector_inv_def hand_out_def use_count_def)
next
  case (ends_loop c)
  then have "cr_sent c = []" by (simp add: collector_inv_def use_count_def)
  then show ?case unfolding end_loop_def by (intro released_inv) simp
next
  case (copies i c)
  have "has_callback i (copy_callback i c)" using copies.hyps by (simp add: has_callback_def copy_callback_def)
  then have "0 < use_count (copy_callback i c)" "0 < use_count c" using has_callback_used copies.hyps by blast+
  moreover have "cr_sent (copy_callback i c) = cr_sent c" by (simp add: copy_callback_def)
  ultimately show ?case using copies.prems by (simp add: collector_inv_def)
next
  case (answers i c r)
  then have "0 < use_count c" using has_callback_used by blast
  moreover have "use_count (addResponse i r c) = use_count c" "cr_sent (addResponse i r c) = cr_sent c"
    by (simp_all add: addResponse_def use_count_def)
  ultimately show ?case using answers.prems by (simp add: collector_inv_def)
next
  case (drops i c)
  then have "cr_sent c = []" using has_callback_used by (auto simp: collector_inv_def)
  then show ?case unfolding drop_callback_def by (intro released_inv) simp
qed

lemma batch_reach_inv: "batch_step\<^sup>*\<^sup>* collector_init c \<Longrightarrow> collector_inv c"
  by (induction rule: rtranclp_induct) (auto intro: collector_init_inv batch_step_inv)

text \<open>Nothing is left to do, or to go wrong, once the array has been sent.\<close>

lemma batch_done_final: "collector_inv c \<Longrightarrow> cr_sent c \<noteq> [] \<Longrightarrow> \<not> batch_step c c'"
proof
  assume inv: "collector_inv c" "cr_sent c \<noteq> []" and "batch_step c c'"
  then have "use_count c = 0" by (auto simp: collector_inv_def split: if_splits)
  moreover from this have "\<not> cr_loop c" by (simp add: use_count_def split: if_splits)
  ultimately have "\<not> cr_loop c" "\<not> has_callback i c" for i
    using has_callback_used [of i c] by (simp, metis less_irrefl)
  with \<open>batch_step c c'\<close> show False by (auto elim!: batch_stepE)
qed

lemma batch_collected:
  assumes "batch_step\<^sup>*\<^sup>* collector_init c"
  shows "cr_sent c = (if use_count c = 0 then [map snd (cr_responses c)] else []) \<and>
    (cr_sent c \<noteq> [] \<longrightarrow> \<not> cr_loop c \<and> (\<forall>n\<in>set (cr_copies c). n = 0) \<and> (\<forall>c'. \<not> batch_step c c'))"
proof (cases "use_count c = 0")
  case True
  then have "\<not> cr_loop c" "\<forall>n\<in>set (cr_copies c). n = 0" by (simp_all add: use_count_def split: if_splits)
  with True show ?thesis using batch_reach_inv [OF assms] batch_done_final [of c]
    unfolding collector_inv_def by simp
next
  case False
  then show ?thesis using batch_reach_inv [OF assms] unfolding collector_inv_def by simp
qed

section \<open>Callbacks that answer at once\<close>

text \<open>The requests of a batch in turn: each is handed its callback, answers and drops it.\<close>

fun answer_at_once :: "nat \<Rightarrow> jvalue list list \<Rightarrow> collector \<Rightarrow> collector" where
  "answer_at_once i [] c = c"
| "answer_at_once i (rs # rss) c = answer_at_once (Suc i) rss (drop_callback i (fold (addResponse i) rs (hand_out c)))"

lemma fold_addResponse:
  "cr_responses (fold (addResponse i) rs c) = cr_responses c @ map (Pair i) rs"
  "cr_copies (fold (addResponse i) rs c) = cr_copies c" "cr_loop (fold (addResponse i) rs c) = cr_loop c"
  "cr_sent (fold (addResponse i) rs c) = cr_sent c"
  by (induction rs arbitrary: c) (simp_all add: addResponse_def)

lemma fold_answers: "has_callback i c \<Longrightarrow> batch_step\<^sup>*\<^sup>* c (fold (addResponse i) rs c)"
proof (induction rs arbitrary: c)
  case (Cons r rs)
  have "has_callback i (addResponse i r c)" using Cons.prems by (simp add: has_callback_def addResponse_def)
  then show ?case using Cons.IH answers [OF Cons.prems, of r] by (simp add: converse_rtranclp_into_rtranclp)
qed simp

lemma answer_at_once_ok:
  "cr_loop c \<Longrightarrow> length (cr_copies c) = i \<Longrightarrow> cr_sent c = [] \<Longrightarrow> \<forall>n\<in>set (cr_copies c). n = 0 \<Longrightarrow>
    batch_step\<^sup>*\<^sup>* c (answer_at_once i rss c) \<and> cr_sent (end_loop (answer_at_once i rss c)) = [map snd (cr_responses c) @ concat rss] \<and>
    cr_loop (answer_at_once i rss c)"
proof (induction rss arbitrary: i c)
  case Nil
  then show ?case by (simp add: end_loop_def released_def use_count_def)
next
  case (Cons rs rss)
  let ?a = "fold (addResponse i) rs (hand_out c)"
  have has: "has_callback i (hand_out c)" "has_callback i ?a"
    using Cons.prems(2) by (auto simp: has_callback_def hand_out_def fold_addResponse)
  let ?d = "drop_callback i ?a"
  have d: "?d = ?a\<lparr>cr_copies := cr_copies c @ [0]\<rparr>"
    unfolding Cons.prems(2) [symmetric] using Cons.prems(1) by (simp add: drop_callback_def released_def use_count_def fold_addResponse hand_out_def)
  have "batch_step\<^sup>*\<^sup>* c ?d"
    using hands_out [OF Cons.prems(1)] fold_answers [OF has(1), of rs] drops [OF has(2)]
    by (meson converse_rtranclp_into_rtranclp rtranclp.rtrancl_into_rtrancl)
  moreover have "batch_step\<^sup>*\<^sup>* ?d (answer_at_once (Suc i) rss ?d) \<and>
      cr_sent (end_loop (answer_at_once (Suc i) rss ?d)) = [map snd (cr_responses ?d) @ concat rss] \<and>
      cr_loop (answer_at_once (Suc i) rss ?d)"
    unfolding d by (rule Cons.IH) (use Cons.prems in \<open>simp_all add: fold_addResponse hand_out_def ball_Un\<close>)
  moreover have "map snd (cr_responses ?d) = map snd (cr_responses c) @ rs"
    unfolding d by (simp add: fold_addResponse hand_out_def o_def)
  ultimately show ?case by (auto intro: rtranclp_trans)
qed

text \<open>
  So for callbacks that answer before they return, the loop of \<open>handleBatchRequests\<close> as \<open>RpcServer\<close> models it, with
  the responses in a list, is what the collector does.
\<close>

lemma batch_at_once:
  assumes "rs \<noteq> []" "\<forall>r\<in>set rs. snd (snd (batch_item srv r)) = Returned"
  shows "fst (snd (handleBatchRequests srv (JArray rs))) =
    map JArray (cr_sent (end_loop (answer_at_once 0 (map (\<lambda>r. fst (snd (batch_item srv r))) rs) collector_init)))"
proof -
  have "cr_sent (end_loop (answer_at_once 0 rss collector_init)) = [concat rss]" for rss
    using answer_at_once_ok [of collector_init 0 rss] by (simp add: collector_init_def)
  then show ?thesis using assms(1) batch_loop_ok [OF assms(2)] by (simp add: handleBatchRequests_def)
qed

end
