(* ===== verification/Spec2Isabelle.thy ===== *)
theory Spec2Isabelle
  imports RpcCall StubClient StubService NetHttp NetPoller NetLoop NetTimer NetTcp NetServer BaseLog BaseSync JsonTree NetEventLoop NetThread NetAddress BaseThread RpcBatch
begin

text \<open>
  A verification library for LALI RPC FRAME, the C++ framework under \<open>src/LALI\<close>: a JSON library
  (\<open>jackson\<close>), a JSON-RPC 2.0 client, server and stub generator (\<open>zrpc\<close>), the TCP and HTTP layer with
  its event loop (\<open>net\<close>), and threads, logging and time (\<open>base\<close>).

  \<^bold>\<open>How the parts interact.\<close> A loop (\<open>EventLoop\<close>) polls descriptors through \<open>Poller\<close> and calls the
  callbacks of their \<open>Channel\<close>s, runs due timers (\<open>TimerQueue\<close>) and the functors other threads have
  queued. \<open>Acceptor\<close>, \<open>TcpServer\<close>, \<open>Connector\<close> and \<open>TcpClient\<close> make \<open>TcpConnection\<close>s, each in one loop of an
  \<open>EventLoopThreadPool\<close>, which move bytes between a socket and two \<open>Buffer\<close>s. On the input buffer work
  the HTTP server and both ends of RPC, which cut it into messages, parse these with \<open>Reader\<close> into a
  \<open>Document\<close>, and print their answers with \<open>Writer\<close>. The stub generator reads an interface
  description with the same JSON library and writes C++ text. Everything logs through \<open>Logstream\<close>,
  into \<open>AsyncLogging\<close> and \<open>LogFile\<close>.

  \<^bold>\<open>Conventions\<close> (\<open>Prelude\<close>, \<open>OrdMap\<close>). An operation that may throw or fail an \<open>assert\<close> has a result of
  type \<open>outcome\<close>: \<open>Done\<close>, \<open>Throw\<close> or \<open>Abort\<close>. The build sets no \<open>NDEBUG\<close>, so asserts are live. \<open>int32_t\<close> and
  \<open>int64_t\<close> are words and wrap where the code's type does; sizes and positions in memory are naturals,
  counts of references and of calls are integers or naturals without a bound. Bytes are characters.
  A \<open>std::map\<close> is an association list in the order of its keys, a \<open>std::vector\<close> is a list. Three
  interfaces are locales: \<open>key_map\<close> (\<open>OrdMap\<close>), what lookups find after \<open>put\<close> and \<open>del\<close>; \<open>byte_queue\<close>
  (\<open>NetBuffer\<close>), what the message loops need of a buffer; \<open>key_handler\<close> (\<open>JsonValue\<close>), what replaying a value
  needs of a JSON handler, interpreted on the document builder and both writers. Results
  of system calls and of the user's callbacks are parameters; \<open>strtod\<close>, \<open>printf\<close>, \<open>gmtime_r\<close> and \<open>strftime\<close> are modelled
  as far as the source uses them. A name that clashes with
  a HOL constant has a prefix of its component.

  \<^bold>\<open>JSON.\<close> \<open>JsonDouble\<close>: binary64 as exact rationals, \<open>strtod\<close>, \<open>printf\<close> with \<open>%g\<close>. \<open>JsonValue\<close> models \<open>Value.h\<close> with
  values as trees, \<open>Exception.h\<close>, and the events that \<open>writeTo\<close> sends a handler. \<open>JsonReader\<close> is
  \<open>Reader.h\<close> and \<open>Reader.cc\<close> function by function, over any handler; the recursion through arrays and
  objects has fuel, three units a byte and three more, which C3 shows to be always enough. \<open>strtod\<close> and
  \<open>strtol\<close> are given a pointer and no length, so the reader has a parameter \<open>mem\<close>: the memory behind the
  text. \<open>doc_parse\<close> is the case where the NUL of a \<open>std::string\<close> follows, and the lemmas \<open>*_behind\<close> say that
  the memory has no influence unless the text is cut within a number (\<open>number_ends\<close>).
  \<open>JsonDocument\<close> is the handler of \<open>Document.h\<close> that builds a tree, with its stack of levels, and proves
  that events of a value build that value. \<open>JsonWriter\<close> has \<open>Writer\<close>, \<open>PrettyWriter\<close> and \<open>itoa\<close>, and
  shows what text they print. \<open>JsonRoundTrip\<close> states the grammar of accepted texts and joins reader and
  writer. \<open>JsonHeap\<close>, \<open>JsonShare\<close> and \<open>JsonTree\<close> model \<open>Value.h\<close> and \<open>Value.cc\<close> a second time, as the cells with
  counted references that copies share: constructors, assignments, setters, insertions and
  destructors; what they do to the counts, and that they implement the trees.

  \<^bold>\<open>RPC.\<close> \<open>NetBuffer\<close> is \<open>net/Buffer\<close>. \<open>RpcFraming\<close> is the message format both ends share; \<open>RpcServer\<close> has
  \<open>Procedure\<close>, \<open>RpcService\<close>, \<open>Rpcserver\<close> and \<open>BaseServer\<close>, where the effect of a message is the calls of
  user callbacks, the responses and the way it ends; \<open>RpcBatch\<close> has the collector of a batch's responses when
  callbacks answer later, and is joined to \<open>RpcServer\<close> for callbacks that answer at once; \<open>RpcClient\<close> has \<open>RpcClient.cpp\<close>; \<open>RpcCall\<close> composes
  the two. The loops over a buffer end because each round takes bytes off.

  \<^bold>\<open>Stubs.\<close> \<open>StubTemplates\<close> is \<open>replaceAll\<close>, a partial function that is None when the code never returns, with
  the conditions under which it does; \<open>StubProto\<close> is \<open>StubGenerator\<close>; \<open>StubClient\<close> and \<open>StubService\<close> have
  every template and generator function of the two stubs, and show the text they generate.

  \<^bold>\<open>Network.\<close> \<open>NetPoller\<close>: channels, the poller and its calls of \<open>epoll_ctl\<close>; a descriptor that was
  closed may come back in another channel. \<open>NetLoop\<close>: queued functors and wake-ups, where the push under the
  mutex and the wake-up after it are two steps that those of the loop interleave with, and the pool of loops. \<open>NetTimer\<close>: times,
  timers and their queue. \<open>NetEventLoop\<close>: one iteration over all of these, and timers from other
  threads. \<open>NetThread\<close>: \<open>ThreadEventLoop\<close>, as the steps of its two threads, with spurious wake-ups or
  without. \<open>NetTcp\<close>: \<open>TcpConnection\<close>, with steps labelled by the operation that runs, so that what was handed over
  and what the socket took is a function of the history. \<open>NetConnector\<close> and \<open>NetServer\<close>: the connector, acceptor, server and client. \<open>NetAddress\<close>: byte order,
  addresses and \<open>accept\<close>. \<open>NetHttp\<close>: the HTTP server; its parse loop is a partial function, None where
  the code would not return.

  \<^bold>\<open>Base.\<close> \<open>BaseTime\<close>: times as text, with the calendar behind \<open>gmtime_r\<close>, and that later times have greater texts.
  \<open>BaseStream\<close>: the log line. \<open>BaseLog\<close>: log files and \<open>AsyncLogging\<close>, as steps of the logging threads and
  the writing thread. \<open>BaseSync\<close>: latch, queue and thread pool, as steps under a mutex, with signals
  and spurious wake-ups. \<open>BaseThread\<close>: the mutex with its holder, threads, thread-local ids, and
  instances made once.

  \<^bold>\<open>What the theorems show.\<close> C1 to C9: reading and writing JSON are inverse, reading ends, follows a grammar,
  and fails no assert of its own unless the text is cut within a double, and the writer prints the text described recursively.
  C10 to C13: counted references. C14: the buffer is a queue. C15 to C22: messages are cut, checked,
  dispatched and answered, once, and where they are not. C23 and C24: stubs. C25: HTTP.
  C26 to C35: the loop, its timers and threads, and connections. C36 to C40: logging, mutex and
  thread pool. Error properties (C7, C13, C19, C31, C33) state what the code does on inputs or
  orders of steps that it does not mean to mishandle. Lemmas of this file without a number state
  further behaviour of the same kind.

  \<^bold>\<open>Not modelled.\<close> System calls behind \<open>Socket\<close> and \<open>SocketOps\<close>, options of sockets, \<open>stdio\<close>. \<open>Timestamp::toString\<close>,
  whose format string is not a valid one. \<open>BoundedBlockingQueue\<close> and \<open>ThreadLocalSingleton::pointer\<close>, which
  cannot be instantiated. \<open>base/Exception\<close>, which is its message and a stack trace. The deletion of a
  \<open>Singleton\<close> at exit. Iterators of JSON objects are positions in a list. A callback of the RPC client that
  makes a call while it runs, and server callbacks that answer after they have returned, other than
  into the collector of a batch, are left out. C34 is about connectors that are not stopped: \<open>Connector::stop\<close> is
  a step only under a flag, and a lemma shows the null pointer it reaches. The tasks
  of the thread pool are not empty function objects. Programs under \<open>example\<close> and \<open>test\<close> are not part of
  the library.
\<close>

section \<open>JSON\<close>

text \<open>
  C1: the text a \<open>Writer\<close> prints of a value is parsed by \<open>Document::parse\<close> to that
  value. Integers written from 64 bits come back with the 32-bit tag when they fit; the
  hypotheses leave out the doubles and keys whose printed form is not read back.
\<close>

theorem json_round_trip:
  assumes "readable v" "distinct_keys v" "write_value v = Some t"
  shows "doc_parse t = Some (PARSE_OK, norm v)"
  using assms by (rule round_trip)

theorem json_round_trip_witness:
  "doc_parse ''{\"a\":[-5,\"x\",true],\"b\":null}'' = Some (PARSE_OK,
     JObject [(''a'', JArray [JInt32 (- 5), JString ''x'', JBool True]), (''b'', JNull)])"
proof -
  let ?v = "JObject [(''a'', JArray [JInt64 (- 5), JString ''x'', JBool True]), (''b'', JNull)]"
  have r: "readable ?v" by (simp add: plain_key_def byte_of_def)
  have "render ?v = ''{\"a\":[-5,\"x\",true],\"b\":null}''"
    by (simp add: commas_def member_text_def dec_int_def run_simps escape_def escape_char_def byte_of_def)
  then have "write_value ?v = Some ''{\"a\":[-5,\"x\",true],\"b\":null}''"
    using r by (simp only: writer_render readable_writable)
  from json_round_trip [OF r _ this] show ?thesis by (simp add: in_int32_def)
qed

text \<open>
  C2: so is the text of a \<open>PrettyWriter\<close>, for any indentation of white space.
\<close>

theorem pretty_round_trip_thm:
  assumes "readable v" "distinct_keys v" "list_all is_ws ind" "pretty_value ind v = Some t"
  shows "doc_parse t = Some (PARSE_OK, norm v)"
  using assms by (rule pretty_round_trip)

theorem pretty_round_trip_witness:
  "\<exists>t. pretty_value ''  '' (JArray [JBool True, JNull]) = Some t \<and>
     doc_parse t = Some (PARSE_OK, JArray [JBool True, JNull])"
proof -
  have "pretty_value ''  '' (JArray [JBool True, JNull]) = Some (pretty ''  '' 0 (JArray [JBool True, JNull]))"
    by (rule pretty_writer_render) simp
  then show ?thesis
    using pretty_round_trip_thm [of "JArray [JBool True, JNull]" "''  ''"] by (simp add: is_ws_def)
qed

text \<open>
  C3: \<open>Reader::parse\<close> ends on every input and for every handler: the fuel of three
  units a byte and three more never runs out. \<open>mem\<close>, here and below, is what is in memory behind the
  text.
\<close>

theorem reader_terminates: "reader_run mem (3 * length s + 3) hdl s h \<noteq> PFuel"
  using reader_run_not_fuel [of mem s hdl h] by (simp add: fuel_of_def)

text \<open>
  C4: a parse that succeeds has sent its handler the events of some value, in order
  and complete, and none of them was refused.
\<close>

theorem reader_sends_value:
  assumes "reader_parse mem hdl s h = Some (PARSE_OK, h')"
  shows "\<exists>v. run_events hdl (events v) h = HGo h'"
  using assms by (auto simp: reader_parse_OK dest: reader_run_events)

theorem reader_sends_value_witness:
  "\<exists>v. run_events doc_handler (events v) doc_init = HGo (doc_init\<lparr>doc_root := JBool True, doc_seen := True\<rparr>)"
  by (rule reader_sends_value [of "[]" _ "''true''"])
    (simp add: reader_parse_def reader_run_def fuel_of_def parse_unfold parseLiteral_def assertNext_def
      doc_put_def doc_addValue_def doc_init_def is_ws_def eval_nat_numeral)

text \<open>
  C5: every text of the grammar \<open>text_of\<close> is accepted, with the events of its value sent
  to any handler, up to the answer of the handler. What is behind the text in memory must not go on
  with a number at its end.
\<close>

theorem reader_reads_text:
  assumes "text_of v t" "ws w" "ws w'" "number_ends mem (w @ t @ w')"
  shows "reader_run mem (fuel_of (w @ t @ w')) hdl (w @ t @ w') h = after_answer [] (run_events hdl (events v) h)"
  unfolding reader_behind(1) [OF assms(4)] using assms(1-3) by (rule reader_run_text)

theorem reader_reads_text_witness:
  "reader_run '',5'' (fuel_of '' [ ] '') writer_handler '' [ ] '' writer_init =
     after_answer [] (run_events writer_handler [EStartArray, EEndArray] writer_init)"
  using reader_reads_text [OF text_empty_array [of "'' ''"], of "'' ''" "'' ''" "'',5''" writer_handler writer_init]
  by (simp add: is_ws_def number_ends_def number_stop_def is_digit_def byte_of_def)



text \<open>
  C7: a document with a repeated key ends the process: the assert of \<open>addMember\<close>
  fails while the document is built. Every value the document does build has distinct keys.
\<close>

theorem duplicate_key_aborts:
  assumes "text_of v t" "\<not> distinct_keys v"
  shows "doc_parse t = None"
  using doc_parse_text [OF assms(1), of "[]" "[]"] assms(2) by simp

theorem duplicate_key_aborts_witness: "doc_parse ''{\"k\":null,\"k\":null}'' = None"
proof -
  let ?v = "JObject [(''k'', JNull), (''k'', JNull)]"
  have "readable ?v" by (simp add: plain_key_def byte_of_def)
  from text_render [OF this] have "text_of ?v ''{\"k\":null,\"k\":null}''"
    by (simp add: commas_def member_text_def)
  from duplicate_key_aborts [OF this] show ?thesis by simp
qed

text \<open>
  C8: replaying a value into a \<open>Writer\<close> and into a \<open>PrettyWriter\<close> gives the texts
  \<open>render\<close> and \<open>pretty\<close> describe, commas, colons, quotes and line breaks in place.
\<close>

theorem writer_prints_text:
  assumes "writable v"
  shows "write_value v = Some (render v) \<and> pretty_value ind v = Some (pretty ind 0 v)"
  using assms by (simp add: writer_render pretty_writer_render)

theorem writer_prints_text_witness:
  "write_value (JArray [JNull, JBool False]) = Some ''[null,false]''"
  using writer_prints_text [of "JArray [JNull, JBool False]"] by (simp add: commas_def)

text \<open>
  C9: \<open>itoa\<close>, with its table of digit pairs and its digit count from a magic product,
  writes exactly the decimal numeral into a buffer that has room for it, and counts its bytes. The
  writer's buffers of 11 and 20 bytes have.
\<close>

theorem itoa_prints_decimal:
  assumes "length (dec_int (sint v)) \<le> length buf" "length (dec_int (sint w)) \<le> length buf'"
  shows "itoa32 v buf = Some (length (dec_int (sint v)), dec_int (sint v) @ drop (length (dec_int (sint v))) buf) \<and>
    itoa64 w buf' = Some (length (dec_int (sint w)), dec_int (sint w) @ drop (length (dec_int (sint w))) buf') \<and>
    length (dec_int (sint (v :: i32))) \<le> 11 \<and> length (dec_int (sint (w :: i64))) \<le> 20"
  using assms by (simp_all add: itoa_dec dec_int_length)

theorem itoa_prints_decimal_witness:
  "itoa32 (- 2147483648) (replicate 11 nul_char) = Some (11, ''-2147483648'')"
  using itoa_prints_decimal [of "- 2147483648" "replicate 11 nul_char" 0 "''0''"]
  by (simp add: dec_int_def run_simps)

text \<open>
  \<open>Writer::Key\<close> does not escape: a key with a quote in it is printed as it is, and the text is not
  one that \<open>Document::parse\<close> accepts.
\<close>

lemma key_not_escaped:
  "write_value (JObject [([CHR 0x22], JNull)]) = Some ''{\"\"\":null}'' \<and>
   map_option fst (doc_parse ''{\"\"\":null}'') = Some PARSE_MISS_COLON"
  by code_simp

text \<open>
  What the comment in \<open>Writer::Double\<close> says \<open>.0\<close> is added for does not hold for
  negative numbers: -1.0 is printed \<open>-1\<close>, and read back as an integer. The negative infinity is
  printed without its sign.
\<close>

lemma doubles_misread:
  "write_value (JDouble (DFin True (2 ^ 52) (- 52))) = Some ''-1'' \<and>
   doc_parse ''-1'' = Some (PARSE_OK, JInt32 (- 1)) \<and>
   write_value (JDouble (DInf True)) = Some ''Infinity'' \<and>
   doc_parse ''Infinity'' = Some (PARSE_OK, JDouble (DInf False))"
proof -
  have g: "fmt_g 17 (DFin True (2 ^ 52) (- 52)) = ''-1''"
    by (simp add: fmt_g_one [simplified])
  have f: "format_double (DFin True (2 ^ 52) (- 52)) = Some ''-1''"
    unfolding format_double_def g by (simp add: is_digit_def byte_of_def)
  have "text_of (JInt32 (- 1)) ''-1''"
    using text_int32 [of "- 1"] by (simp add: in_int32_def dec_int_def run_simps)
  then have "doc_parse ''-1'' = Some (PARSE_OK, JInt32 (- 1))"
    using doc_parse_text [of _ _ "[]" "[]"] by fastforce
  moreover have "doc_parse ''Infinity'' = Some (PARSE_OK, JDouble (DInf False))"
    using doc_parse_text [OF text_infinity, of "[]" "[]"] by simp
  ultimately show ?thesis
    using f writer_render [of "JDouble (DFin True (2 ^ 52) (- 52))"] writer_render [of "JDouble (DInf True)"]
    by (simp add: double_text_def format_double_def [of "DInf True"])
qed

section \<open>Values with counted references\<close>

text \<open>
  C10: \<open>addValue\<close> on the heap implements \<open>addValue\<close> on the trees that the other theorems speak
  of: the array stands for the longer tree, and what cannot reach the array stands for what it did.
\<close>

theorem array_value_added:
  assumes "values_ok st" "read_slot s st = Done (CRef ArrayCell l)" "denotes (js_cells st) (CRef ArrayCell l) j"
    and "read_slot r st = Done w" "denotes (js_cells st) w x" "\<not> reaches (js_cells st) w l"
  shows "\<exists>st' j'. add_value s (ACopy r) st = Done st' \<and> addValue j x = (Done j' :: (fault, jvalue) outcome) \<and>
    denotes (js_cells st') (CRef ArrayCell l) j' \<and>
    (\<forall>u ju. \<not> reaches (js_cells st) u l \<longrightarrow> denotes (js_cells st) u ju \<longrightarrow> denotes (js_cells st') u ju)"
  using assms by (rule addValue_implemented)

theorem array_value_added_witness:
  "\<exists>st'. add_value (Variable 0) (ACopy (Variable 1))
      \<lparr>js_vars = [Some (CRef ArrayCell 0), Some (CRef StringCell 1)], js_cells = [Some (1, ValueVector []), Some (1, CharVector ''x'')]\<rparr> = Done st' \<and>
    denotes (js_cells st') (CRef ArrayCell 0) (JArray [JString ''x''])"
proof -
  let ?st = "\<lparr>js_vars = [Some (CRef ArrayCell 0), Some (CRef StringCell 1)],
      js_cells = [Some (1, ValueVector []), Some (1, CharVector ''x'')]\<rparr>"
  have "value_run [Construct (ALiteral VArray), Construct (ALiteral (VString ''x''))] no_values = Done ?st"
    by code_simp
  then have ok: "values_ok ?st" by (rule run_ok)
  have "\<not> reaches (js_cells ?st) (CRef StringCell 1) 0" by (rule notI, erule reachesE) (auto simp: data_at_def cell_at_def)
  from array_value_added [OF ok, of "Variable 0" 0 "JArray []" "Variable 1" "CRef StringCell 1" "JString ''x''"] this
  show ?thesis by (fastforce simp: read_slot_def data_at_def cell_at_def)
qed

text \<open>
  C11: the values with counted references of \<open>Value.h\<close>: after any sequence of constructions, copies,
  moves, setters, additions and destructions that the program gets through, the count of every cell is the
  number of values referring to it, and every value tagged string, array or object refers to a live cell
  of that kind.
\<close>

theorem values_keep_types:
  assumes "value_run ps no_values = Done st"
  shows "(\<forall>l. count_of (js_cells st) l = int (references l (var_values (js_vars st) + heap_values (js_cells st)))) \<and>
    (\<forall>k l. CRef k l \<in># var_values (js_vars st) + heap_values (js_cells st) \<longrightarrow> kind_at (js_cells st) l = Some k)"
  using run_counted [OF assms] by blast

theorem values_keep_types_witness:
  "\<exists>st. value_run [Construct (ALiteral VArray), AddValue (Variable 0) (ALiteral (VString ''x'')),
      Construct (ACopy (Variable 0)), Destruct 0] no_values = Done st \<and>
    kind_at (js_cells st) 1 = Some StringCell \<and> count_of (js_cells st) 1 = 1"
proof -
  let ?ps = "[Construct (ALiteral VArray), AddValue (Variable 0) (ALiteral (VString ''x'')),
      Construct (ACopy (Variable 0)), Destruct 0]"
  let ?st = "\<lparr>js_vars = [None, Some (CRef ArrayCell 0)],
      js_cells = [Some (1, ValueVector [CRef StringCell 1]), Some (1, CharVector ''x'')]\<rparr>"
  have run: "value_run ?ps no_values = Done ?st" by code_simp
  have vals: "var_values (js_vars ?st) + heap_values (js_cells ?st) = {#CRef ArrayCell 0, CRef StringCell 1#}"
    by (simp add: var_values_def var_slot_def heap_values_def slot_values_def)
  have "count_of (js_cells ?st) 1 = 1 \<and> kind_at (js_cells ?st) 1 = Some StringCell"
    using values_keep_types [OF run] unfolding vals by simp
  then show ?thesis using run by blast
qed

text \<open>
  C12: when the program destructs all its variables, every cell has been deleted, as long as no value
  had been put into itself.
\<close>

theorem nothing_leaks:
  assumes "value_run ps no_values = Done st" "acyclic_cells (js_cells st)"
  shows "\<exists>st'. value_run (map Destruct (live_vars st)) st = Done st' \<and> (\<forall>l. cell_at (js_cells st') l = None)"
  using all_dropped [OF run_ok [OF assms(1)] assms(2)] .

theorem nothing_leaks_witness:
  "\<exists>st'. value_run [Destruct 0, Destruct 1]
      \<lparr>js_vars = [Some (CRef ArrayCell 0), Some (CRef ArrayCell 0)], js_cells = [Some (2, ValueVector [CRef StringCell 1]), Some (1, CharVector ''x'')]\<rparr> = Done st' \<and>
    (\<forall>l. cell_at (js_cells st') l = None)"
proof -
  let ?st = "\<lparr>js_vars = [Some (CRef ArrayCell 0), Some (CRef ArrayCell 0)],
      js_cells = [Some (2, ValueVector [CRef StringCell 1]), Some (1, CharVector ''x'')]\<rparr>"
  have run: "value_run [Construct (ALiteral VArray), AddValue (Variable 0) (ALiteral (VString ''x'')), Construct (ACopy (Variable 0))] no_values = Done ?st"
    by code_simp
  have "acyclic_cells (js_cells ?st)"
    unfolding acyclic_cells_def
    by (rule exI [of _ "\<lambda>l. if l = 0 then 1 else 0"]) (auto simp: data_at_def cell_at_def nth_Cons split: if_splits nat.splits)
  from nothing_leaks [OF run this] show ?thesis by (simp add: live_vars_def)
qed

text \<open>
  C13: assigning to a variable an element of the array that only this variable refers to, \<open>v = v[m]\<close>
  by copy or by move, reads a deleted cell: the operators destroy the old value before they read the new one.
\<close>

theorem assign_own_element:
  assumes "values_ok st" "read_slot (Variable i) st = Done (CRef ArrayCell l)" "cell_at (js_cells st) l = Some (1, c)"
    and "slot_index (Variable i) m st = Done s"
  shows "copy_assign (Variable i) s st = Throw Undefined \<and> move_assign (Variable i) s st = Throw Undefined"
  using assign_own [OF assms(1-3)] assms(2,4) by (auto simp: slot_index_def split: option.splits cell_data.splits if_splits)

theorem assign_own_element_witness:
  "copy_assign (Variable 0) (Inside 0 0) \<lparr>js_vars = [Some (CRef ArrayCell 0)], js_cells = [Some (1, ValueVector [CInt32 7])]\<rparr> = Throw Undefined"
proof -
  let ?st = "\<lparr>js_vars = [Some (CRef ArrayCell 0)], js_cells = [Some (1, ValueVector [CInt32 7])]\<rparr>"
  have "value_run [Construct (ALiteral VArray), AddValue (Variable 0) (ALiteral (VInt32 7))] no_values = Done ?st"
    by code_simp
  then have "values_ok ?st" by (rule run_ok)
  from assign_own_element [OF this, of 0 0 "ValueVector [CInt32 7]" 0 "Inside 0 0"] show ?thesis
    by (simp add: slot_index_def read_slot_def data_at_def cell_at_def)
qed

section \<open>The byte buffer\<close>

text \<open>
  C14: \<open>Buffer\<close> implements a queue of bytes. \<open>append\<close>, whether the vector has room, is
  compacted or grows, adds to the back; \<open>retrieve\<close> and \<open>retrieveUntil\<close> drop from the front;
  \<open>retrieveAsString\<close> empties it; \<open>prepend\<close> adds to the front while its reserve lasts; all keep the
  index invariant.
\<close>

theorem buffer_refines_queue:
  assumes "buffer_inv b"
  shows "buffer_inv (append_bytes s b) \<and> content (append_bytes s b) = content b @ s \<and>
    buffer_inv (retrieve n b) \<and> content (retrieve n b) = drop n (content b) \<and>
    (readerIndex b \<le> k \<longrightarrow> buffer_inv (retrieveUntil k b) \<and> content (retrieveUntil k b) = drop (k - readerIndex b) (content b)) \<and>
    fst (retrieveAsString b) = content b \<and> buffer_inv (snd (retrieveAsString b)) \<and>
    content (snd (retrieveAsString b)) = [] \<and>
    (prepend_bytes s b = Some b'' \<longrightarrow> buffer_inv b'' \<and> content b'' = s @ content b) \<and>
    readableBytes b = length (content b)"
  using assms retrieveAll_ok
  by (simp add: append_ok retrieve_ok retrieveUntil_ok prepend_ok content_length retrieveAsString_def)

theorem buffer_refines_queue_witness:
  "content (retrieve 2 (append_bytes ''GET '' buffer_init)) = ''T ''"
proof -
  have a: "buffer_inv (append_bytes ''GET '' buffer_init)" "content (append_bytes ''GET '' buffer_init) = ''GET ''"
    using buffer_refines_queue [OF buffer_init_ok(1), of "''GET ''"] by (simp_all add: buffer_init_ok(2))
  have "content (retrieve 2 (append_bytes ''GET '' buffer_init)) = drop 2 (content (append_bytes ''GET '' buffer_init))"
    using buffer_refines_queue [OF a(1), of "[]" 2] by blast
  then show ?thesis unfolding a(2) by simp
qed

section \<open>The RPC server\<close>

text \<open>
  C15: \<open>RpcServer::validateRequest\<close> accepts exactly the objects with an id (a string or an
  integer), version 2.0, a method other than \<open>rpc.\<close> and no member besides these and \<open>params\<close>.
\<close>

theorem request_validation:
  assumes "distinct (map fst ms)"
  shows "validateRequest (JObject ms) = Done () \<longleftrightarrow> valid_request ms"
  using assms by (rule validateRequest_spec)

theorem request_validation_witness:
  "validateRequest (JObject [(''jsonrpc'', JString ''2.0''), (''id'', JInt32 1), (''method'', JString ''S.m'')]) = Done ()"
proof -
  let ?ms = "[(''jsonrpc'', JString ''2.0''), (''id'', JInt32 1), (''method'', JString ''S.m'')]"
  have "valid_request ?ms" by (simp add: valid_request_def)
  with request_validation [of ?ms] show ?thesis by simp
qed

text \<open>
  C16: \<open>Procedure::validateRequest\<close> accepts a request without parameters where none are
  declared, and else as many parameters as declared, of the declared types, in an array by
  position or in an object by name. A request with an empty \<open>params\<close> is accepted by no procedure.
\<close>

theorem params_validation:
  "validateParams ps (JObject ms) =
     (if (case map_of ms ''params'' of None \<Rightarrow> ps = [] | Some args \<Rightarrow> args_match ps args)
      then Done () else Throw (CStr ''params name or type mismatch'')) \<and>
   validateParams ps (JObject ((''params'', JObject []) # ms)) = Throw (CStr ''params name or type mismatch'')"
  by (simp add: validateParams_spec accepts_params_def args_match_def)

text \<open>
  C17: a valid request that names a registered procedure calls its callback with the request,
  and only when its parameters are taken; the answers are those of the callback.
\<close>

theorem request_dispatched:
  assumes "distinct (map fst ms)" "valid_request ms" "targets srv ms m p"
  shows "handleSingleRequest srv (JObject ms) =
    (if accepts_params (params p) ms then ([CallReturn m (JObject ms)], callback p (JObject ms), Returned)
     else ([], [], Raised (CStr ''params name or type mismatch'')))"
  using RpcServer.single_request_run [OF assms] by (simp add: failed_def)

text \<open>A server with one service \<open>S\<close> and one procedure \<open>m\<close>, which answers 7.\<close>

definition demo_procedure :: procedure_return where
  "demo_procedure = make_procedure
     (\<lambda>request. case user_done request (JInt32 7) of Done r \<Rightarrow> [r] | _ \<Rightarrow> []) [(''x'', TYPE_INT32)]"

definition demo_server :: server where
  "demo_server = [''S'' \<mapsto> \<lparr>procedureReturnList = [''m'' \<mapsto> demo_procedure], procedureNotifyList = Map.empty\<rparr>]"

definition demo_call :: members where
  "demo_call = [(''jsonrpc'', JString ''2.0''), (''method'', JString ''S.m''), (''params'', JArray [JInt32 3])]"

lemma demo_targets: "targets demo_server (request_of demo_call 0) ''m'' demo_procedure"
  unfolding targets_def by (rule exI [of _ "''S''"]) (simp add: demo_server_def demo_call_def request_of_def)

lemma demo_request:
  "request_of demo_call 0 = demo_call @ [(''id'', JInt32 0)]"
  "valid_request (request_of demo_call 0)" "accepts_params (params demo_procedure) (request_of demo_call 0)"
  by (simp_all add: demo_call_def request_of_def valid_request_def accepts_params_def args_match_def
      demo_procedure_def make_procedure_def)

theorem request_dispatched_witness:
  "handleSingleRequest demo_server (JObject (request_of demo_call 0)) =
     ([CallReturn ''m'' (JObject (request_of demo_call 0))],
      [JObject [(''jsonrpc'', JString ''2.0''), (''id'', JInt32 0), (''result'', JInt32 7)]], Returned)"
proof -
  have "distinct (map fst (request_of demo_call 0))" by (simp add: demo_call_def request_of_def)
  from request_dispatched [OF this demo_request(2) demo_targets] demo_request(3) show ?thesis
    by (simp add: demo_procedure_def make_procedure_def user_done_ok demo_call_def request_of_def)
qed

text \<open>
  A request or notification whose handling ends in an exception has called no callback
  and answered nothing.
\<close>

lemma failure_is_clean:
  assumes "handleSingleRequest srv request = (calls, responses, Raised e) \<or>
    handleSingleNotify srv request = (calls, responses, Raised e)"
  shows "calls = [] \<and> responses = []"
  using assms clean_single [of srv request] by (auto simp: clean_def)

text \<open>
  \<open>validateNotify\<close> asks for an id, and a request is a notification because it has
  none: every notification raises, and no notify procedure is ever called.
\<close>

lemma every_notify_rejected:
  assumes "isNotify request = Done True"
  shows "handleSingleNotify srv request = ([], [], Raised (Exn ''missing at least one filed''))"
  using notify_rejected [OF assms] by (simp add: failed_def)

text \<open>
  A batch is handled up to its first request that raises. What came before it was
  called and is answered in one array, in order; the exception goes on to the connection.
\<close>

lemma batch_stops_at_failure:
  assumes "\<forall>r\<in>set pre. snd (snd (batch_item srv r)) = Returned"
    and "batch_item srv r = (calls, resp, Raised e)"
  shows "handleBatchRequests srv (JArray (pre @ r # post)) =
    (concat (map (\<lambda>r. fst (batch_item srv r)) pre),
     [JArray (concat (map (\<lambda>r. fst (snd (batch_item srv r))) pre))], Raised e)"
  using batch_loop_fails [OF assms(1,2)] by (simp add: handleBatchRequests_def)

text \<open>
  C18: a framed message is handled once, when its last byte is there, however the stream is cut
  into reads, and leaves an empty buffer.
\<close>

theorem frame_in_pieces:
  assumes "concat pieces = frame text" "pieces \<noteq> []" "[] \<notin> set pieces" "length text + 2 < kMaxMessageLen"
    and "handleRequest srv (text @ crlf_bytes) = (calls, responses, x)" "send_responses responses = (sent, Returned)"
  shows "\<exists>b. feed srv pieces buffer_init = (calls, sent, b, caught x) \<and> buffer_inv b \<and> content b = []"
  using feed_frame [OF buffer_init_ok(1) _ assms(2-6)] assms(1) by (simp add: buffer_init_ok)

theorem frame_in_pieces_witness:
  "\<exists>b. feed demo_server [''3'', crlf_bytes @ ''1'', crlf_bytes] buffer_init =
     ([], [], b, Raised (Exn ''request should be json object or array'')) \<and> content b = []"
proof -
  have "text_of (JInt32 1) ''1''"
    using text_int32 [of 1] by (simp add: in_int32_def dec_int_def run_simps)
  from doc_parse_text [OF this, of "[]" crlf_bytes]
  have run: "handleRequest demo_server (''1'' @ crlf_bytes) =
      ([], [], Raised (Exn ''request should be json object or array''))"
    by (simp add: handleRequest_def failed_def crlf_bytes_def is_ws_def)
  have pieces: "concat [''3'', crlf_bytes @ ''1'', crlf_bytes] = frame ''1''"
  proof -
    have "dec 3 = ''3''" by (simp add: run_simps)
    then show ?thesis by (simp add: frame_def numeral_3_eq_3)
  qed
  from frame_in_pieces [OF pieces _ _ _ run, of "[]"] show ?thesis
    by (auto simp: kMaxMessageLen_def crlf_bytes_def caught_def)
qed

text \<open>
  C19: two messages in one read. The loop takes all that is left in the buffer as the body
  of the first, the parse fails on the second frame, both requests are lost, and the exception is
  not of the kind \<open>onMessage\<close> catches.
\<close>

theorem second_message_lost:
  assumes "readable v" "distinct_keys v" "write_value v = Some text" "length text + 2 < kMaxMessageLen"
    and "buffer_inv b" "content b = frame text @ frame text'"
  shows "\<exists>b'. onMessage srv b = ([], [], b', Raised (Exn ''parse failed'')) \<and> content b' = []"
  using assms by (rule pipelined_lost)

theorem second_message_lost_witness:
  "\<exists>b. content b = frame ''null'' @ frame ''null'' \<and>
     (\<exists>b'. onMessage demo_server b = ([], [], b', Raised (Exn ''parse failed'')) \<and> content b' = [])"
proof -
  have "write_value JNull = Some ''null''" by (simp add: writer_render)
  from second_message_lost [OF _ _ this _ received_ok, where srv = demo_server and text' = "''null''"]
  show ?thesis
    using received_ok(2) [of "frame ''null'' @ frame ''null''"] by (auto simp: kMaxMessageLen_def)
qed

section \<open>The RPC client\<close>

text \<open>
  C20: every call gets a number no waiting call has, until the 64-bit counter is used up: a
  new callback never takes the place of one that still waits.
\<close>

theorem call_ids_fresh:
  assumes "client_inv c" "sint (next_id c) < 2 ^ 63 - 1" "sendCall rpc cb c = Done (c', m)"
  shows "client_inv c' \<and> callbacks c (next_id c) = None \<and>
    callbacks c' = (callbacks c)(next_id c \<mapsto> cb) \<and> sint (next_id c') = sint (next_id c) + 1"
  using sendCall_inv [OF assms] by simp

theorem call_ids_fresh_witness:
  "\<exists>c' m. sendCall (JObject []) True client_init = Done (c', m) \<and> client_inv c' \<and> sint (next_id c') = 1"
proof -
  have "readable (JObject [(''id'', JInt64 0)])" by (simp add: plain_key_def byte_of_def)
  from message_render [OF this] obtain c' m where s: "sendCall (JObject []) True client_init = Done (c', m)"
    by (auto simp: sendCall_def add_member_def sendRequest_def client_init_def Let_def)
  from call_ids_fresh [OF client_init_inv _ s] s show ?thesis by (simp add: client_init_def)
qed

text \<open>
  C21: a response is delivered at most once: the same response again finds no callback.
\<close>

theorem delivered_once:
  assumes "handleSingleResponse (JObject ms) c = Done (ds, c')"
  shows "handleSingleResponse (JObject ms) c' = Done ([], c')"
  using assms by (rule response_once)

theorem delivered_once_witness:
  "handleSingleResponse (JObject [(''jsonrpc'', JString ''2.0''), (''id'', JInt32 0), (''result'', JNull)])
     (client_init :: bool client) = Done ([], client_init)"
proof -
  let ?ms = "[(''jsonrpc'', JString ''2.0''), (''id'', JInt32 0), (''result'', JNull)]"
  let ?c = "client_init\<lparr>callbacks := [0 \<mapsto> True]\<rparr> :: bool client"
  have "valid_response ?ms" by (simp add: valid_response_def)
  then have "handleSingleResponse (JObject ?ms) ?c =
      Done ([(True, JNull, False, False)], ?c\<lparr>callbacks := (callbacks ?c)(0 := None)\<rparr>)"
    by (simp add: RpcClient.single_response_run result_of_def client_init_def)
  from delivered_once [OF this] show ?thesis by (simp add: client_init_def)
qed

text \<open>
  Once the counter has passed 32 bits, the id of a call comes back as a 64-bit
  integer, and the client, which sent it, refuses the response.
\<close>

lemma large_id_never_answered:
  assumes "length ms = 3" "map_of ms ''id'' = Some (norm (JInt64 i))" "2 ^ 31 \<le> sint i"
  shows "handleSingleResponse (JObject ms) c = Throw (Exn ''bad type of at least one field'')"
  using large_id_refused [of ms i] assms by (simp add: in_int32_def)

section \<open>A call, end to end\<close>

text \<open>
  C22: a call of a registered procedure, with parameters it takes, crosses the wire and comes
  back: the server calls the procedure once with the request, the client calls the callback of this
  very call once, with the result as read back and no error, and the call is no longer waiting.
\<close>

theorem call_is_answered:
  assumes "client_inv c" "sint (next_id c) < 2 ^ 31"
    and "readable (JObject ms)" "distinct_keys (JObject ms)" "''id'' \<notin> fst ` set ms"
    and "length (render (JObject (ms @ [(''id'', JInt64 (next_id c))]))) + 2 < kMaxMessageLen"
      "length (render (response_of (next_id c) result)) + 2 < kMaxMessageLen_client"
    and "valid_request (request_of ms (next_id c))" "targets srv (request_of ms (next_id c)) name p"
      "accepts_params (params p) (request_of ms (next_id c))"
    and "user_done (JObject (request_of ms (next_id c))) result = Done r"
      "callback p (JObject (request_of ms (next_id c))) = [r]" "readable result" "distinct_keys result"
  shows "\<exists>c1 m m' sb c2 cbuf.
    sendCall (JObject ms) cb c = Done (c1, m) \<and>
    onMessage srv (received m) = ([CallReturn name (JObject (request_of ms (next_id c)))], [m'], sb, Returned) \<and>
    client_onMessage c1 (received m') = ([(cb, norm result, False, False)], c2, cbuf, Returned) \<and>
    callbacks c2 = (callbacks c)(next_id c := None) \<and> next_id c2 = next_id c + 1"
  using assms by (rule call_answered)

theorem call_is_answered_witness:
  "\<exists>c1 m m' sb c2 cbuf.
    sendCall (JObject demo_call) True client_init = Done (c1, m) \<and>
    onMessage demo_server (received m) = ([CallReturn ''m'' (JObject (request_of demo_call 0))], [m'], sb, Returned) \<and>
    client_onMessage c1 (received m') = ([(True, JInt32 7, False, False)], c2, cbuf, Returned) \<and>
    callbacks c2 = Map.empty"
proof -
  have call: "readable (JObject demo_call)" "distinct_keys (JObject demo_call)" "''id'' \<notin> fst ` set demo_call"
    by (simp_all add: demo_call_def plain_key_def byte_of_def)
  have len: "length (render (JObject (demo_call @ [(''id'', JInt64 0)]))) + 2 < kMaxMessageLen"
    "length (render (response_of 0 (JInt32 7))) + 2 < kMaxMessageLen_client"
    by (simp_all add: demo_call_def response_of_def commas_def member_text_def dec_int_def run_simps escape_def
        escape_char_def byte_of_def kMaxMessageLen_def kMaxMessageLen_client_def)
  have id0: "next_id client_init = 0" "callbacks client_init = Map.empty" by (simp_all add: client_init_def)
  let ?r = "JObject [(''jsonrpc'', JString ''2.0''), (''id'', JInt32 0), (''result'', JInt32 7)]"
  have ud: "user_done (JObject (request_of demo_call 0)) (JInt32 7) = Done ?r"
    by (rule user_done_ok) (simp add: request_of_def demo_call_def)
  then have cbk: "callback demo_procedure (JObject (request_of demo_call 0)) = [?r]"
    by (simp add: demo_procedure_def make_procedure_def)
  from call_is_answered [OF client_init_inv, of demo_call "JInt32 7" demo_server "''m''" demo_procedure ?r True]
    call len demo_request(2,3) demo_targets ud cbk
  show ?thesis unfolding id0 by auto
qed

section \<open>The stub generator\<close>







section \<open>The HTTP server\<close>

text \<open>
  C25: a whole request at the front of the buffer is parsed to what it says, the user's
  callback fills the response, its text is sent, the connection is shut down when the response
  closes it, and exactly the request is taken off the buffer.
\<close>

theorem http_request_answered:
  assumes "buffer_inv b" "content b = whole_request m p q v hs @ rest"
    and "m \<noteq> Invaild" "target_ok p q" "v \<noteq> Unknown" "list_all header_ok hs"
    and "r = cb (request_for m p q v hs t) (respond_init (closes (request_for m p q v hs t)))"
      "length (rs_body r) < 10 ^ 13"
  shows "\<exists>b'. http_onMessage cb t b = Some (Send (respond_text r) # (if rs_close r then [Shutdown] else []), b') \<and>
    buffer_inv b' \<and> content b' = rest"
  using assms by (rule message_answered)

theorem http_request_answered_witness:
  "\<exists>b'. http_onMessage default_HttpCallback 0
       (append_bytes (''GET /a HTTP/1.1'' @ crlf_bytes @ ''Host: h'' @ crlf_bytes @ crlf_bytes) buffer_init) =
     Some ([Send (''HTTP/1.1 404 NotFound'' @ crlf_bytes @ ''Connection: close'' @ crlf_bytes @ crlf_bytes), Shutdown], b') \<and>
     buffer_inv b' \<and> content b' = []"
proof -
  let ?b = "append_bytes (''GET /a HTTP/1.1'' @ crlf_bytes @ ''Host: h'' @ crlf_bytes @ crlf_bytes) buffer_init"
  let ?q = "request_for Get ''/a'' [] Http11 [(''Host'', ''h'')] 0"
  have b: "buffer_inv ?b" "content ?b = whole_request Get ''/a'' [] Http11 [(''Host'', ''h'')] @ []"
    using append_ok [OF buffer_init_ok(1)] buffer_init_ok(2)
    by (simp_all add: whole_request_def request_text_def headers_text_def header_text_def)
  have ok: "target_ok ''/a'' []" "list_all header_ok [(''Host'', ''h'')]"
    by (simp_all add: target_ok_def header_ok_def isspace_def byte_of_def)
  have r: "default_HttpCallback ?q (respond_init (closes ?q)) =
      \<lparr>rs_headers = [], rs_status = r404Notfound, rs_message = ''NotFound'', rs_body = [], rs_close = True\<rparr>"
    by (simp add: default_HttpCallback_def respond_init_def)
  have "respond_text (default_HttpCallback ?q (respond_init (closes ?q))) =
      ''HTTP/1.1 404 NotFound'' @ crlf_bytes @ ''Connection: close'' @ crlf_bytes @ crlf_bytes"
    unfolding r by (simp add: respond_text_def headers_text_def run_simps)
  with http_request_answered [OF b _ ok(1) _ ok(2) refl, of default_HttpCallback 0] show ?thesis
    by (simp add: r)
qed

section \<open>Event loops, timers and connections\<close>

text \<open>
  C26: whatever the channels of a poller ask for and in whatever order, no call of
  \<open>epoll_ctl\<close> fails, the kernel's interest list holds exactly the channels the poller counts as
  added, each under its descriptor with the events it asks for, and the poller's own table exactly the
  ones it knows. Descriptors may be used again by another channel once the first has been removed; two
  channels with one descriptor are never known at a time (\<open>sole\<close>).
\<close>

theorem poller_interest:
  assumes "(poller_step U)\<^sup>*\<^sup>* (poller_init (\<lambda>c. channel_init (fd c))) p"
  shows "\<exists>K. kernel_run (p_ctl p) Map.empty = Some K \<and>
    (\<forall>f e c. K f = Some (e, c) \<longleftrightarrow>
      c \<in> U \<and> f = fd c \<and> ch_index (p_store p c) = Added \<and> e = ch_events (p_store p c)) \<and>
    (\<forall>f c. map_of (p_channels p) f = Some c \<longleftrightarrow> c \<in> U \<and> f = fd c \<and> ch_index (p_store p c) \<noteq> New)"
  using poller_reach_inv [OF assms poller_init_inv [OF refl]] unfolding poller_inv_def by blast

theorem poller_interest_witness:
  "\<exists>K. kernel_run (p_ctl (enableWriting 1 (removeChannel 0 (enableReading 0 (poller_init (\<lambda>c. channel_init 5)))))) Map.empty = Some K \<and>
    K 5 = Some (WriteEventFlag, 1)"
proof -
  let ?start = "poller_init (\<lambda>c. channel_init 5)"
  let ?p = "enableWriting 1 (removeChannel 0 (enableReading 0 ?start))"
  note defs = enableReading_def enableWriting_def with_events_def removeChannel_def updateChannel_def set_channel_def
    poller_update_def poller_init_def channel_init_def Let_def
  have "sole {0, 1} ?start 0" "sole {0, 1} (enableReading 0 ?start) 0" "sole {0, 1} (removeChannel 0 (enableReading 0 ?start)) 1"
    by (simp_all add: sole_def defs New_def Deleted_def Added_def)
  then have "poller_step {0, 1} ?start (enableReading 0 ?start)"
    "poller_step {0, 1} (enableReading 0 ?start) (removeChannel 0 (enableReading 0 ?start))"
    "poller_step {0, 1} (removeChannel 0 (enableReading 0 ?start)) ?p"
    by (simp_all only: poller_step.reading poller_step.remove poller_step.writing)
  then have "(poller_step {0, 1})\<^sup>*\<^sup>* ?start ?p"
    by (blast intro: converse_rtranclp_into_rtranclp)
  from poller_interest [OF this] obtain K where K: "kernel_run (p_ctl ?p) Map.empty = Some K"
    "\<forall>f e c. K f = Some (e, c) \<longleftrightarrow>
      c \<in> {0, 1} \<and> f = 5 \<and> ch_index (p_store ?p c) = Added \<and> e = ch_events (p_store ?p c)"
    by blast
  moreover have "ch_index (p_store ?p 1) = Added" "ch_events (p_store ?p 1) = WriteEventFlag"
    by (simp_all add: defs New_def Deleted_def Added_def)
  ultimately show ?thesis by auto
qed

text \<open>
  C27: in whatever order other threads push functors and, after they have let go of the
  mutex, wake the loop, and the loop polls, handles events and runs what is pending, the functors run
  once each, in the order they were queued. A loop that is about to sleep, or sleeps, on a pending
  functor has a wake-up waiting for it, or a thread is between its push and the wake-up it is about to
  write.
\<close>

theorem no_lost_wakeup:
  assumes "(loop_step spawn)\<^sup>*\<^sup>* loop_init lp"
  shows "lp_queued lp = lp_ran lp @ left_to_run (lp_phase lp) @ lp_pending lp \<and>
    (lp_phase lp \<in> {Testing, Polling} \<and> lp_pending lp \<noteq> [] \<longrightarrow>
      0 < lp_wakes lp \<or>
      (\<exists>n. lp_waking lp = Suc n \<and> loop_step spawn lp (wake_queued False (lp\<lparr>lp_waking := n\<rparr>)) \<and>
        0 < lp_wakes (wake_queued False (lp\<lparr>lp_waking := n\<rparr>))))"
  using loop_reach_inv [OF assms] loop_step.other_wakes [of lp _ spawn]
  by (cases "lp_waking lp") (auto simp: loop_inv_def queue_defs)

theorem no_lost_wakeup_witness:
  "(loop_step (\<lambda>_. []))\<^sup>*\<^sup>* loop_init (wake_queued False (push_functor (7 :: nat) loop_init)) \<and>
   0 < lp_wakes (wake_queued False (push_functor (7 :: nat) loop_init))"
proof -
  let ?lp = "push_functor (7 :: nat) (loop_init\<lparr>lp_waking := 1\<rparr>)"
  have 1: "loop_step (\<lambda>_. []) loop_init ?lp"
    using loop_step.other_pushes [of "\<lambda>_. []" loop_init 7] by (simp add: loop_init_def)
  have 2: "loop_step (\<lambda>_. []) ?lp (wake_queued False (?lp\<lparr>lp_waking := 0\<rparr>))"
    by (rule loop_step.other_wakes) (simp add: push_functor_def)
  have "wake_queued False (?lp\<lparr>lp_waking := 0\<rparr>) = wake_queued False (push_functor 7 loop_init)"
    by (simp add: queue_defs loop_init_def)
  with 1 2 have r: "(loop_step (\<lambda>_. []))\<^sup>*\<^sup>* loop_init (wake_queued False (push_functor (7 :: nat) loop_init))"
    by (metis converse_rtranclp_into_rtranclp rtranclp.rtrancl_refl)
  with no_lost_wakeup [OF r] show ?thesis by (simp add: queue_defs loop_init_def)
qed

text \<open>
  C28: a timer event runs the callbacks of exactly the timers that are due, in the order of
  their times, whatever timers the callbacks add; those that repeat are set anew from now, the
  others are deleted, and no assert of the queue fails.
\<close>

theorem timers_run_due:
  assumes "adds_timers effect" "tq_inv q"
    and "\<forall>t tm. tq_heap q t = Some tm \<longrightarrow> tm_repeat tm \<longrightarrow> addTime now (tm_interval tm) \<noteq> None"
  shows "\<exists>q'. timer_handleRead effect now q =
      Done (map (\<lambda>e. tm_callback (the (tq_heap q (snd e)))) (filter (\<lambda>e. fst e \<le> sint now) (tq_timers q)), q') \<and> tq_inv q' \<and>
    (\<forall>(w, t)\<in>set (tq_timers q). \<forall>tm. w \<le> sint now \<longrightarrow> tq_heap q t = Some tm \<longrightarrow>
      tq_heap q' t = (if tm_repeat tm then Some (tm\<lparr>tm_expiration := next_time now tm\<rparr>) else None) \<and>
      (tm_repeat tm \<longrightarrow> (sint (next_time now tm), t) \<in> set (tq_timers q')))"
  using assms by (rule timer_event)

theorem timers_run_due_witness:
  "\<exists>q q'. addTimer 1 7 5 (DFin False 0 0) queue_init = Done q \<and>
     timer_handleRead (\<lambda>_ q. q) 9 q = Done ([7], q') \<and> tq_heap q' 1 = None"
proof -
  let ?tm = "timer_init 7 5 (DFin False 0 0)"
  obtain q where q: "addTimer 1 7 5 (DFin False 0 0) queue_init = Done q" "tq_inv q" "tq_heap q = [1 \<mapsto> ?tm]"
    "tq_timers q = [(5, 1)]"
    using addTimer_ok [OF queue_init_inv, of 1 7 5 "DFin False 0 0"] by (auto simp: queue_init_def UINTPTR_MAX_def)
  have rep: "\<forall>t tm. tq_heap q t = Some tm \<longrightarrow> tm_repeat tm \<longrightarrow> addTime 9 (tm_interval tm) \<noteq> None"
    using q(3) by (simp add: timer_init_def)
  have "adds_timers (\<lambda>_ q. q)" by (auto simp: adds_timers_def)
  from timers_run_due [OF this q(2) rep] show ?thesis
    using q by (auto simp: timer_init_def)
qed

text \<open>
  C29: a timer that another thread asks for with \<open>runAfter\<close> is run. The loop is woken; the iteration for the wake-up
  inserts the timer and leaves the descriptor armed for a time that is not later; the iteration for the
  descriptor, at that time or after it, calls the callback. Callbacks and functors may add timers and queue
  functors as they like.
\<close>

theorem timer_from_thread_runs:
  assumes "good_effect later effect" "user_spawn spawn" "el_inv later el"
    and "tq_heap (el_timers el) t = None" "t < UINTPTR_MAX"
    and "addTime now delayTime = Some w" "0 < sint w" "sint w \<le> sint later"
  shows "\<exists>el1 el2 el3 ran x. runAfter False t cb now delayTime el = Done el1 \<and> 0 < lp_wakes (el_jobs el1) \<and>
    el_iteration effect spawn soon [(POLLIN, wakeup_channel)] el1 = Done ([], el2) \<and>
    tq_armed (el_timers el2) = Some x \<and> sint x \<le> sint w \<and>
    el_iteration effect spawn later [(POLLIN, timer_channel)] el2 = Done (ran, el3) \<and> cb \<in> set ran"
  using assms by (rule runAfter_ok)

theorem timer_from_thread_runs_witness:
  "\<exists>el1. runAfter False 0 7 5 (DFin False (2 ^ 52) (- 52)) (event_loop_init 3 4) = Done el1 \<and> 0 < lp_wakes (el_jobs el1)"
proof -
  have eff: "good_effect 2000000 (\<lambda>_ q. q)" by (auto simp: good_effect_def adds_timers_def)
  have spawn: "user_spawn (\<lambda>_. [])" by (simp add: user_spawn_def)
  have time: "addTime 5 (DFin False (2 ^ 52) (- 52)) = Some 1000005" using one_second [of 5] by simp
  have heap: "tq_heap (el_timers (event_loop_init 3 4)) 0 = None" by (simp add: event_loop_init_def queue_init_def Let_def)
  have t: "0 < UINTPTR_MAX" "0 < sint (1000005 :: 64 word)" "sint (1000005 :: 64 word) \<le> sint (2000000 :: 64 word)"
    by (simp_all add: UINTPTR_MAX_def)
  from timer_from_thread_runs [OF eff spawn event_loop_init_inv heap t(1) time t(2,3)] show ?thesis by blast
qed

text \<open>
  C30: \<open>startLoop\<close> returns, with a loop that the thread has published, and needs no spurious
  wake-up for it. Wherever it waits, it does not sleep with \<open>loop_\<close> set, so the signal is not missed; some
  step of one of the two threads can be taken, and every one that is no spurious wake-up calls no dead
  loop and either ends the wait with \<open>loop_\<close> set or leaves strictly fewer steps to go.
\<close>

theorem loop_thread_starts:
  assumes "te_reach others sp thread_loop_init f t" "te_waits t"
  shows "\<not> (te_owner t = Sleeping \<and> te_loop t) \<and> (\<exists>t'. te_step others False t False t') \<and>
    (\<forall>b t'. te_step others False t b t' \<longrightarrow>
      \<not> b \<and> (te_owner t' = Started \<and> te_loop t' \<or> te_waits t' \<and> te_rank t' < te_rank t)) \<and>
    (\<exists>t'. te_reach others False t False t' \<and> te_owner t' = Started \<and> te_loop t')"
proof -
  have inv: "te_inv t" using te_reached [OF assms(1)] .
  show ?thesis
    using te_not_asleep [OF inv] te_enabled [OF inv assms(2)] te_goes_on [OF inv assms(2)]
      startLoop_returns [OF inv assms(2)] by blast
qed

theorem loop_thread_starts_witness:
  "\<exists>t'. te_reach True False (te_start thread_loop_init) False t' \<and> te_owner t' = Started \<and> te_loop t'"
proof -
  have "te_reach True True thread_loop_init False (te_start thread_loop_init)"
    by (rule te_one, rule starts) (simp add: thread_loop_init_def)
  from loop_thread_starts [OF this] show ?thesis by (simp add: te_waits_def te_start_def)
qed

text \<open>
  C31: the destructor of \<open>ThreadEventLoop\<close> may wait for ever. When it calls \<open>quit\<close> before the thread has entered
  \<open>EventLoop::loop\<close>, the loop resets \<open>quit_\<close>, and from there no step, not even a spurious wake-up, lets the
  destructor go on.
\<close>

theorem quit_may_be_lost:
  "\<exists>t. te_reach False False thread_loop_init False t \<and> te_owner t = Joining \<and>
    \<not> (\<exists>sp f t'. te_reach False sp t f t' \<and> te_owner t' \<noteq> Joining)"
  using quit_lost by blast



text \<open>
  C33: \<open>sendInLoop\<close> keeps what \<open>write\<close> did not take twice: the peer receives the message with
  its rest once more.
\<close>

theorem send_duplicates:
  assumes "conn_inv c" "content (cn_out c) = []" "0 \<le> wr" "wr < int (length m)"
  shows "cn_sent (sendInLoop wr m c) @ content (cn_out (sendInLoop wr m c)) = cn_sent c @ m @ drop (nat wr) m"
  using assms sendInLoop_ok(3) [of c wr m] by (simp add: conn_inv_def stream_def added_def taken_def)

theorem send_duplicates_witness:
  "cn_sent (sendInLoop 1 ''ab'' (connectEstablished (conn_init 3))) @
     content (cn_out (sendInLoop 1 ''ab'' (connectEstablished (conn_init 3)))) = ''abb''"
proof -
  have "conn_inv (connectEstablished (conn_init 3))"
    using conn_step_ok [OF established conn_init_ok, of 3] by (simp add: conn_init_def)
  then show ?thesis
    using send_duplicates [of "connectEstablished (conn_init 3)" 1 "''ab''"]
    by (simp add: connectEstablished_def conn_init_def buffer_init_ok)
qed



text \<open>
  C35: the connection map of a server holds exactly the connections that were established
  and not destroyed, and the names given are all different, as long as the counter of \<open>int\<close> lasts.
\<close>

theorem server_connections:
  assumes "server_step\<^sup>*\<^sup>* (server_init host_port idle base) s"
  shows "map_of (sv_connection s) = live (rev (sv_calls s)) \<and> distinct (map cp_name (established (sv_calls s)))"
  using server_reach_inv [OF assms server_init_inv] by (simp add: server_inv_def)

theorem server_connections_witness:
  "map_of (sv_connection (sv_newConnection 9 (server_init ''h:1'' 4 0))) ''h:1#1'' =
     Some \<lparr>cp_name = ''h:1#1'', cp_loop = 0, cp_fd = 9\<rparr>"
proof -
  have "server_step\<^sup>*\<^sup>* (server_init ''h:1'' 4 0) (sv_newConnection 9 (server_init ''h:1'' 4 0))"
    by (intro r_into_rtranclp server_step.accepted) (simp add: server_init_def)
  from server_connections [OF this, THEN conjunct1] show ?thesis
    by (simp add: sv_newConnection_def server_init_def getNextLoop_def pool_init_def conn_name_def decimal_def run_simps Let_def)
qed

section \<open>Logging and threads\<close>

text \<open>
  C36: a line is the concatenation of what was inserted, in order, numbers in decimal whatever
  their type, each insertion as a whole or not at all where the 4000 bytes have no room for it.
\<close>

theorem log_line_text:
  assumes "\<And>d. LDouble d \<in> set args \<Longrightarrow> length (fmt_g 12 d) < 32"
  shows "log_line time thread_name tid filename line_no args =
      shown_all 4000 ([LCStr (Some (formatTime time)), LCStr (Some thread_name), LInt tid] @ args @
        [LCStr (Some ''-''), LCStr (Some filename), LCStr (Some '':''), LInt line_no, LCStr (Some [lf_char])]) [] \<and>
    length (log_line time thread_name tid filename line_no args) < 4000"
  using log_line_ok [OF assms] by blast

theorem log_line_text_witness:
  "log_line 1609459200000001 ''main'' 17 ''a.cpp'' 42 [LStr '' n='', LLong (- 305)] =
     ''20210101 00:00:00.000001main17 n=-305-a.cpp:42'' @ [lf_char]"
proof -
  have time: "formatTime 1609459200000001 = ''20210101 00:00:00.000001''" by code_simp
  have "\<And>d. LDouble d \<in> set [LStr '' n='', LLong (- 305)] \<Longrightarrow> length (fmt_g 12 d) < 32" by simp
  from log_line_text [OF this, of "[LStr '' n='', LLong (- 305)]" 1609459200000001 "''main''" 17 "''a.cpp''" 42, THEN conjunct1]
  show ?thesis unfolding time by (simp add: has_room_def decimal_def run_simps)
qed

text \<open>
  C37: whatever is logged, and however the clock jumps about between the epoch and the year 10000, a log file is
  rolled to a name greater than all before it: no file is opened twice, and the order of the names
  is the order of the files.
\<close>

theorem log_files_sorted:
  assumes "lf_run pid filename lf"
  shows "sorted_wrt (<) (lf_names lf)"
  using assms by (rule lf_names_sorted)

theorem log_files_sorted_witness:
  "\<exists>lf. append_unlocked 7 [2] 0 1609459200 ''hi'' (log_file_init 7 86399 ''x'' 0 3 1024) = Done lf \<and>
     lf_names lf = [''x.1970-01-01-23:59:59.7.log'', ''x.2021-01-01-00:00:00.7.log''] \<and> sorted_wrt (<) (lf_names lf)"
proof -
  obtain lf where lf: "append_unlocked 7 [2] 0 1609459200 ''hi'' (log_file_init 7 86399 ''x'' 0 3 1024) = Done lf"
    "lf_names lf = [getLogFileName 7 86399 ''x'', getLogFileName 7 1609459200 ''x'']"
    by (simp add: append_unlocked_def log_file_init_def rollFile_def af_append_def append_file_init_def lf_names_def Let_def)
  have "getLogFileName 7 86399 ''x'' = ''x.1970-01-01-23:59:59.7.log''" "getLogFileName 7 1609459200 ''x'' = ''x.2021-01-01-00:00:00.7.log''"
    by code_simp+
  moreover have "lf_run 7 ''x'' lf"
    by (rule logged_to [OF opened [of 86399] _ lf(1)]) (simp_all add: clock_ok_def)
  ultimately show ?thesis using lf log_files_sorted by simp
qed

text \<open>
  C38: however the threads that log, the thread that writes and a \<open>stop\<close> are interleaved,
  what was written with what waits in the buffers is the log, in order, as long as there was no backlog of
  more than 25 buffers; and neither side ever meets a null buffer.
\<close>

theorem async_log_in_order:
  assumes "alog_run (alog_init cap) log a" "0 < cap"
  shows "(al_stderr a = [] \<longrightarrow> concat (al_output a) @ pending a = log) \<and>
    (length msg < al_size a \<longrightarrow> al_append msg a \<noteq> Abort) \<and> (al_phase a = Writing \<longrightarrow> al_write notice a \<noteq> Abort)"
  using alog_run_ok [OF assms(1) alog_init_ok(1) [OF assms(2)]] alog_init_ok(2) [of cap]
    alog_never_aborts(1) [OF assms, of msg] alog_never_aborts(2) [OF assms, of notice]
  by (auto simp: alog_init_def)

theorem async_log_in_order_witness:
  "\<exists>a. al_append ''ab'' (alog_init 4) = Done a \<and> pending (al_swap a) = ''ab'' \<and> al_write [] (al_swap a) \<noteq> Abort"
proof -
  obtain a where a: "al_append ''ab'' (alog_init 4) = Done a" "al_phase a = AtTop" "al_running a" "al_output a = []" "al_stderr a = []"
    by (simp add: al_append_def alog_init_def avail_def fixed_init_def fb_bzero_def)
  have swap: "alog_run (alog_init 4) ''ab'' (al_swap a)"
  proof -
    have "al_swap (a\<lparr>al_phase := Exchanging\<rparr>) = al_swap a" by (simp add: al_swap_def Let_def)
    then show ?thesis
      using run_step [OF run_step [OF run_step [OF run_none logged [OF _ a(1)]] tested [OF a(2,3)]] swapped]
      by (simp add: alog_init_def)
  qed
  have "al_phase (al_swap a) = Writing" "al_output (al_swap a) = []" "al_stderr (al_swap a) = []"
    using a(4,5) by (simp_all add: al_swap_def Let_def)
  with async_log_in_order [OF swap, of "[]" "[]"] a(1) show ?thesis by auto
qed

text \<open>
  C39: whatever the order of the steps of \<open>lock\<close>, \<open>unlock\<close> and \<open>Condition::wait\<close>, two threads are never both between them, a
  thread that finds its id in \<open>holder_\<close> is between them, in a wait that began there or has not finished \<open>unlock\<close>, and the destructor's
  assert holds when all threads are outside.
\<close>

theorem mutex_exclusive:
  assumes "mutex_step\<^sup>*\<^sup>* (mutex_init k) m"
  shows "(at_place i Locked m \<longrightarrow> at_place j Locked m \<longrightarrow> i = j) \<and>
    (isLockbyThisThread i m \<longrightarrow> at_place i Locked m \<or> at_place i InWait m \<or> at_place i Unlocking m) \<and>
    (list_all (\<lambda>p. p = Unlocked) (mx_threads m) \<longrightarrow> mutex_destroyable m)"
  using mutex_safe [OF assms] .

theorem mutex_exclusive_witness:
  "isLockbyThisThread 1 (mutex_set_holder 1 (mutex_acquire 1 (mutex_init 2))) \<and>
   (at_place 1 Locked (mutex_set_holder 1 (mutex_acquire 1 (mutex_init 2))) \<or>
    at_place 1 InWait (mutex_set_holder 1 (mutex_acquire 1 (mutex_init 2))) \<or>
    at_place 1 Unlocking (mutex_set_holder 1 (mutex_acquire 1 (mutex_init 2))))"
proof -
  let ?a = "mutex_acquire 1 (mutex_init 2)"
  have "mutex_step (mutex_init 2) ?a" by (rule acquires) (simp_all add: at_place_def mutex_init_def)
  moreover have "mutex_step ?a (mutex_set_holder 1 ?a)"
    by (rule sets_holder) (simp add: at_place_def mutex_acquire_def go_to_def mutex_init_def)
  ultimately have r: "mutex_step\<^sup>*\<^sup>* (mutex_init 2) (mutex_set_holder 1 ?a)" by (meson rtranclp.intros)
  have "isLockbyThisThread 1 (mutex_set_holder 1 ?a)"
    by (simp add: isLockbyThisThread_def mutex_set_holder_def)
  then show ?thesis using mutex_exclusive [OF r, of 1 1] by blast
qed

text \<open>
  C40: in a thread pool tasks are taken once each, in the order they were submitted, and a
  task taken is started or about to be; while tasks wait, some thread that has not ended can go on,
  so no signal is lost; and after \<open>stop\<close> nobody sleeps.
\<close>

theorem pool_loses_nothing:
  assumes "tp_reach (tp_start n tp_init) ts p"
  shows "ts = tp_taken p @ tp_queue p \<and> mset (tp_taken p) = mset (tp_started p) + held (tp_threads p) \<and>
    (tp_queue p \<noteq> [] \<and> t \<in> set (tp_threads p) \<and> t \<noteq> Ended \<longrightarrow> (\<exists>p'. worker_step p p')) \<and>
    (\<not> tp_running p \<longrightarrow> Asleep \<notin> set (tp_threads p))"
proof -
  have "tp_inv p" "tp_taken p @ tp_queue p = ts"
    using tp_reach_inv [OF assms tp_start_inv] by (auto simp: tp_start_def tp_init_def)
  with work_not_asleep [of p t] show ?thesis by (auto simp: tp_inv_def)
qed

theorem pool_loses_nothing_witness:
  "\<exists>p'. worker_step (tp_run 0 ''task'' (tp_take 0 (tp_loop 0 (tp_start 1 tp_init)))) p'"
proof -
  let ?p0 = "tp_start 1 tp_init :: string tpool"
  let ?p1 = "tp_loop 0 ?p0" let ?p2 = "tp_take 0 ?p1" let ?p3 = "tp_run 0 ''task'' ?p2"
  have "worker_step ?p0 ?p1" by (rule looped) (simp_all add: tp_start_def tp_init_def)
  moreover have "worker_step ?p1 ?p2" by (rule took) (simp_all add: tp_loop_def tp_start_def tp_init_def)
  moreover have "tp_step ?p2 [''task''] ?p3"
    by (rule submits) (simp add: may_wake_def tp_take_def tp_loop_def tp_start_def tp_init_def)
  ultimately have reach: "tp_reach ?p0 ((([] @ []) @ []) @ [''task'']) ?p3"
    by (rule_tac tp_more [OF tp_more [OF tp_more [OF tp_none works] works]])
  have "tp_queue ?p3 \<noteq> []" "Woken \<in> set (tp_threads ?p3)"
    by (simp_all add: tp_run_def weakup_one_def tp_take_def tp_loop_def tp_start_def tp_init_def)
  with pool_loses_nothing [OF reach, of Woken] show ?thesis by simp
qed

end
